(* ===== verification/Kernel_Prelude.thy ===== *)
theory Kernel_Prelude
  imports Main "HOL-Library.Word" "HOL-Library.Monad_Syntax"
begin

text \<open>
  Shared vocabulary of the development: the C integer types of the 32-bit ARM build as words,
  the error numbers of \<^verbatim>\<open>include/asm-generic/errno*.h\<close> as a datatype, C buffers as lists whose
  out-of-range accesses are \<open>None\<close>, and the locale through which every state machine of the
  development turns a step-wise preserved invariant into one of all reachable states.
\<close>

unbundle bit_operations_syntax

section \<open>C integers and error numbers\<close>

type_synonym u8 = "8 word"
type_synonym u16 = "16 word"
type_synonym u32 = "32 word"

text \<open>A task is known by its number, as \<^verbatim>\<open>current\<close> is known by its address.\<close>

type_synonym tid = nat

datatype errno =
    EPERM | ENOENT | EINTR | EIO | ENOEXEC | EBADF | EAGAIN | ENOMEM | EACCES | EFAULT | EBUSY | EEXIST
  | EINVAL | ENOSPC | ERANGE | EDEADLK | ENOLCK | EIDRM | ETIME | E2BIG | EFBIG | EMSGSIZE

section \<open>Buffers\<close>

text \<open>
  \<^verbatim>\<open>memcpy(dst + doff, src + soff, n)\<close> on two distinct buffers: the new destination, or \<open>None\<close>
  when a byte outside either buffer would be touched.
\<close>

definition memcpy :: "'a list \<Rightarrow> nat \<Rightarrow> 'a list \<Rightarrow> nat \<Rightarrow> nat \<Rightarrow> 'a list option" where
  "memcpy dst doff src soff n =
     (if doff + n \<le> length dst \<and> soff + n \<le> length src
      then Some (take doff dst @ take n (drop soff src) @ drop (doff + n) dst) else None)"

lemma memcpy_in_range [simp]:
  "doff + n \<le> length dst \<Longrightarrow> soff + n \<le> length src \<Longrightarrow>
     memcpy dst doff src soff n = Some (take doff dst @ take n (drop soff src) @ drop (doff + n) dst)"
  by (simp add: memcpy_def)

lemma memcpy_zero [simp]:
  "memcpy dst doff src soff 0 = (if doff \<le> length dst \<and> soff \<le> length src then Some dst else None)"
  by (simp add: memcpy_def)

lemma memcpy_length: "memcpy dst doff src soff n = Some dst' \<Longrightarrow> length dst' = length dst"
  by (auto simp: memcpy_def split: if_splits)

lemma nth_memcpy:
  assumes "memcpy dst doff src soff n = Some dst'" and "i < length dst"
  shows "dst' ! i = (if doff \<le> i \<and> i < doff + n then src ! (soff + (i - doff)) else dst ! i)"
proof -
  from assms(1) have fits: "doff + n \<le> length dst" "soff + n \<le> length src"
    and dst': "dst' = take doff dst @ take n (drop soff src) @ drop (doff + n) dst"
    by (auto simp: memcpy_def split: if_splits)
  have "length (take doff dst) = doff" "length (take n (drop soff src)) = n"
    using fits by simp_all
  with fits assms(2) show ?thesis
    by (auto simp: dst' nth_append)
qed

section \<open>Reachable states and invariants\<close>

inductive reach :: "('s \<Rightarrow> bool) \<Rightarrow> ('s \<Rightarrow> 's \<Rightarrow> bool) \<Rightarrow> 's \<Rightarrow> bool" for init step where
  reach_init: "init s \<Longrightarrow> reach init step s"
| reach_step: "reach init step s \<Longrightarrow> step s t \<Longrightarrow> reach init step t"

locale invariant_system =
  fixes init :: "'s \<Rightarrow> bool"
    and step :: "'s \<Rightarrow> 's \<Rightarrow> bool"
    and inv :: "'s \<Rightarrow> bool"
  assumes inv_init: "init s \<Longrightarrow> inv s"
    and inv_step: "inv s \<Longrightarrow> step s t \<Longrightarrow> inv t"
begin

lemma reach_inv: "reach init step s \<Longrightarrow> inv s"
  by (induction rule: reach.induct) (auto intro: inv_init inv_step)

end

section \<open>Word arithmetic\<close>

lemma unat_of_nat_small: "n < 2 ^ LENGTH('a) \<Longrightarrow> unat (of_nat n :: 'a::len word) = n"
  by (simp add: unsigned_of_nat take_bit_nat_eq_self_iff)

lemma uint_of_nat_small: "n < 2 ^ LENGTH('a) \<Longrightarrow> uint (of_nat n :: 'a::len word) = int n"
  by (simp only: unsigned_of_nat) (simp add: take_bit_nat_eq_self_iff)

lemma unat_bound: "unat (w :: 'a::len word) < 2 ^ LENGTH('a)"
  by (rule unsigned_less)

lemma unat_ucast_up:
  assumes "LENGTH('a::len) \<le> LENGTH('b::len)"
  shows "unat (ucast (v :: 'a word) :: 'b word) = unat v"
proof -
  have "unat v < 2 ^ LENGTH('b)"
    using unat_bound [of v] power_increasing [OF assms, of "2 :: nat"] by linarith
  then show ?thesis by (simp add: unsigned_ucast_eq take_bit_nat_eq_self_iff)
qed

lemma sint_small:
  assumes "unat (w :: u32) < 2 ^ 31"
  shows "sint w = int (unat w)"
proof -
  have "int (unat w) < int (2 ^ 31)" using assms by (simp only: of_nat_less_iff)
  moreover have "int (unat w) = uint w" by simp
  ultimately have "uint w < 2 ^ 31" by simp
  moreover have "- (2 ^ 31) \<le> uint w" by (rule order_trans [of _ 0]) simp_all
  ultimately have "signed_take_bit 31 (uint w) = uint w" by (simp only: signed_take_bit_int_eq_self_iff)
  then show ?thesis by (simp add: sint_uint)
qed

lemma unat_min: "unat (min a b) = min (unat a) (unat b)"
  by (simp add: min_def word_le_nat_alt)

lemma unat_pow2: "k < LENGTH('a) \<Longrightarrow> unat (2 ^ k :: 'a::len word) = 2 ^ k"
  using unat_of_nat [of "2 ^ k", where 'a = 'a] by simp

lemma unat_add_mod_pow2:
  assumes "k \<le> LENGTH('a)"
  shows "unat (a + b :: 'a::len word) mod 2 ^ k = (unat a + unat b) mod 2 ^ k"
proof -
  have "unat (a + b) mod 2 ^ k = (unat a + unat b) mod 2 ^ LENGTH('a) mod 2 ^ k"
    by (simp only: unat_word_ariths)
  also have "\<dots> = (unat a + unat b) mod 2 ^ k"
    by (rule mod_mod_cancel, rule le_imp_power_dvd) (rule assms)
  finally show ?thesis .
qed

lemma unat_and_pow2_mask:
  assumes "unat (m :: 'a::len word) = 2 ^ k"
  shows "unat (x AND (m - 1)) = unat x mod 2 ^ k"
proof -
  have k: "k < LENGTH('a)"
  proof (rule ccontr)
    assume "\<not> k < LENGTH('a)"
    then have "2 ^ LENGTH('a) \<le> (2 :: nat) ^ k" by simp
    with assms unsigned_less [of m] show False by (metis linorder_not_le)
  qed
  have "m = of_nat (unat m)" by simp
  then have "m = 2 ^ k" using assms by simp
  then have "m - 1 = mask k"
    by (simp add: mask_eq_exp_minus_1)
  then show ?thesis
    by (metis take_bit_eq_mask take_bit_eq_mod unsigned_take_bit_eq)
qed

end
