(* ===== verification/Kfifo.thy ===== *)
theory Kfifo
  imports Kernel_Prelude
begin

text \<open>
  The kernel's byte FIFO, \<^verbatim>\<open>kernel/kfifo.c\<close> and \<^verbatim>\<open>include/linux/kfifo.h\<close>. The two indices run
  freely through the 32-bit range and are masked on access, so the model keeps them as words:
  the wrap-around of \<open>fifo_in\<close>, \<open>fifo_out\<close> and of their difference is the C one. A copy that
  would leave either buffer makes the operation \<open>None\<close>.

  The locale \<open>byte_queue\<close> is what the callers of a FIFO rely on; it is interpreted on the
  model of the code, and the stream property is proved in it.
\<close>

section \<open>Powers of two\<close>

text \<open>\<^verbatim>\<open>is_power_of_2\<close> and \<^verbatim>\<open>__roundup_pow_of_two\<close> of \<^verbatim>\<open>include/linux/log2.h\<close>, over the \<^verbatim>\<open>fls\<close> of the
  ARM port. A shift of \<^verbatim>\<open>1UL\<close> by 32, which only \<^verbatim>\<open>roundup_pow_of_two(0)\<close> and arguments above
  \<open>2 ^ 31\<close> make, is 0, as the ARM register shift computes it.\<close>

definition is_power_of_2 :: "u32 \<Rightarrow> bool" where
  "is_power_of_2 n \<longleftrightarrow> n \<noteq> 0 \<and> n AND (n - 1) = 0"

fun fls_nat :: "nat \<Rightarrow> nat" where
  "fls_nat n = (if n = 0 then 0 else Suc (fls_nat (n div 2)))"

declare fls_nat.simps [simp del]

definition fls :: "u32 \<Rightarrow> nat" where
  "fls x = fls_nat (unat x)"

definition roundup_pow_of_two :: "u32 \<Rightarrow> u32" where
  "roundup_pow_of_two n = push_bit (fls (n - 1)) 1"

section \<open>The FIFO\<close>

record kfifo =
  buffer :: "u8 list"
  fifo_size :: u32
  fifo_in :: u32
  fifo_out :: u32

text \<open>A \<^verbatim>\<open>BUG_ON\<close> that fires is an outcome of its own.\<close>

datatype 'a outcome = Bug | Err errno | Ok 'a

text \<open>The parameter \<open>kmalloc\<close> gives the memory an allocation of that many bytes returns.
  The size of \<^verbatim>\<open>struct kfifo\<close> on the 32-bit build is 20 bytes.\<close>

definition kfifo_init :: "(nat \<Rightarrow> u8 list option) \<Rightarrow> u8 list \<Rightarrow> u32 \<Rightarrow> kfifo outcome" where
  "kfifo_init kmalloc buf sz =
     (if \<not> is_power_of_2 sz then Bug
      else case kmalloc 20 of
        None \<Rightarrow> Err ENOMEM
      | Some _ \<Rightarrow> Ok \<lparr>buffer = buf, fifo_size = sz, fifo_in = 0, fifo_out = 0\<rparr>)"

definition kfifo_alloc :: "(nat \<Rightarrow> u8 list option) \<Rightarrow> u32 \<Rightarrow> kfifo outcome" where
  "kfifo_alloc kmalloc size0 =
     (if \<not> is_power_of_2 size0 \<and> size0 > 0x80000000 then Bug
      else
        let sz = (if is_power_of_2 size0 then size0 else roundup_pow_of_two size0) in
        case kmalloc (unat sz) of
          None \<Rightarrow> Err ENOMEM
        | Some buf \<Rightarrow> kfifo_init kmalloc buf sz)"

text \<open>
  \<^verbatim>\<open>__kfifo_put\<close> and \<^verbatim>\<open>__kfifo_get\<close> in the three parts their memory barriers separate: sampling the
  other side's index, copying, and publishing the own index.
\<close>

definition put_sample :: "kfifo \<Rightarrow> u32 \<Rightarrow> u32" where
  "put_sample f len = min len (fifo_size f - fifo_in f + fifo_out f)"

definition put_copy :: "kfifo \<Rightarrow> u8 list \<Rightarrow> u32 \<Rightarrow> kfifo option" where
  "put_copy f src len =
     (let pos = fifo_in f AND (fifo_size f - 1);
          l = min len (fifo_size f - pos)
      in do {
        b1 \<leftarrow> memcpy (buffer f) (unat pos) src 0 (unat l);
        b2 \<leftarrow> memcpy b1 0 src (unat l) (unat (len - l));
        Some (f\<lparr>buffer := b2\<rparr>)
      })"

definition put_publish :: "kfifo \<Rightarrow> u32 \<Rightarrow> kfifo" where
  "put_publish f len = f\<lparr>fifo_in := fifo_in f + len\<rparr>"

definition kfifo_put_raw :: "kfifo \<Rightarrow> u8 list \<Rightarrow> u32 \<Rightarrow> (kfifo \<times> u32) option" where
  "kfifo_put_raw f src len0 =
     (let len = put_sample f len0 in do {
        f' \<leftarrow> put_copy f src len;
        Some (put_publish f' len, len)
      })"

definition get_sample :: "kfifo \<Rightarrow> u32 \<Rightarrow> u32" where
  "get_sample f len = min len (fifo_in f - fifo_out f)"

definition get_copy :: "kfifo \<Rightarrow> u8 list \<Rightarrow> u32 \<Rightarrow> u8 list option" where
  "get_copy f dst len =
     (let pos = fifo_out f AND (fifo_size f - 1);
          l = min len (fifo_size f - pos)
      in do {
        d1 \<leftarrow> memcpy dst 0 (buffer f) (unat pos) (unat l);
        memcpy d1 (unat l) (buffer f) 0 (unat (len - l))
      })"

definition get_publish :: "kfifo \<Rightarrow> u32 \<Rightarrow> kfifo" where
  "get_publish f len = f\<lparr>fifo_out := fifo_out f + len\<rparr>"

definition kfifo_get_raw :: "kfifo \<Rightarrow> u8 list \<Rightarrow> u32 \<Rightarrow> (kfifo \<times> u8 list \<times> u32) option" where
  "kfifo_get_raw f dst len0 =
     (let len = get_sample f len0 in do {
        dst' \<leftarrow> get_copy f dst len;
        Some (get_publish f len, dst', len)
      })"

definition kfifo_reset :: "kfifo \<Rightarrow> kfifo" where
  "kfifo_reset f = f\<lparr>fifo_in := 0, fifo_out := 0\<rparr>"

text \<open>The locked entry points; \<^verbatim>\<open>kfifo_get\<close> resets the indices of an emptied FIFO.\<close>

definition kfifo_put :: "kfifo \<Rightarrow> u8 list \<Rightarrow> u32 \<Rightarrow> (kfifo \<times> u32) option" where
  "kfifo_put f src len = kfifo_put_raw f src len"

definition kfifo_get :: "kfifo \<Rightarrow> u8 list \<Rightarrow> u32 \<Rightarrow> (kfifo \<times> u8 list \<times> u32) option" where
  "kfifo_get f dst len = do {
     (f', dst', n) \<leftarrow> kfifo_get_raw f dst len;
     Some (if fifo_in f' = fifo_out f' then f'\<lparr>fifo_in := 0, fifo_out := 0\<rparr> else f', dst', n)
   }"

definition kfifo_len :: "kfifo \<Rightarrow> u32" where
  "kfifo_len f = fifo_in f - fifo_out f"

section \<open>Invariant and contents\<close>

definition kfifo_ok :: "kfifo \<Rightarrow> bool" where
  "kfifo_ok f \<longleftrightarrow> is_power_of_2 (fifo_size f) \<and> length (buffer f) = unat (fifo_size f)
     \<and> fifo_in f - fifo_out f \<le> fifo_size f"

text \<open>The bytes waiting in the FIFO, oldest first.\<close>

definition contents :: "kfifo \<Rightarrow> u8 list" where
  "contents f = map (\<lambda>i. buffer f ! ((unat (fifo_out f) + i) mod unat (fifo_size f)))
     [0..<unat (fifo_in f - fifo_out f)]"

lemma fls_nat_bounds: "0 < n \<Longrightarrow> 2 ^ (fls_nat n - 1) \<le> n \<and> n < 2 ^ fls_nat n \<and> 0 < fls_nat n"
proof (induction n rule: fls_nat.induct)
  case (1 n)
  show ?case
  proof (cases "n div 2 = 0")
    case True
    with 1(2) have "n = 1" by simp
    then show ?thesis by (simp add: fls_nat.simps)
  next
    case False
    with 1 have IH: "2 ^ (fls_nat (n div 2) - 1) \<le> n div 2" "n div 2 < 2 ^ fls_nat (n div 2)"
        "0 < fls_nat (n div 2)"
      by auto
    then obtain k where k: "fls_nat (n div 2) = Suc k" by (cases "fls_nat (n div 2)") auto
    with IH have "2 ^ k \<le> n div 2" "n div 2 < 2 * 2 ^ k" by simp_all
    then have "2 * 2 ^ k \<le> n" "n < 2 * (2 * 2 ^ k)" by auto
    moreover have "fls_nat n = Suc (Suc k)"
      using 1(2) k by (simp add: fls_nat.simps [of n])
    ultimately show ?thesis by simp
  qed
qed

lemma is_power_of_2_iff: "is_power_of_2 n \<longleftrightarrow> (\<exists>k<32. unat n = 2 ^ k)"
proof
  assume n: "is_power_of_2 n"
  define N where "N = unat n"
  define k where "k = fls_nat N - 1"
  have "N > 0" using n by (simp add: N_def is_power_of_2_def unat_gt_0)
  then have lo: "2 ^ k \<le> N" and hi: "N < 2 * 2 ^ k"
    using fls_nat_bounds [of N] by (auto simp: k_def simp flip: power_Suc)
  have N32: "N < 2 ^ 32" using unsigned_less [of n] by (simp add: N_def)
  have k: "k < 32"
    using lo N32 by (metis le_less_trans nat_power_less_imp_less zero_less_numeral)
  have "N = 2 ^ k"
  proof (rule ccontr)
    assume "N \<noteq> 2 ^ k"
    with lo have "2 ^ k \<le> N - 1" by simp
    then have "N div 2 ^ k = 1" "(N - 1) div 2 ^ k = 1"
      using lo hi by (auto intro!: div_nat_eqI)
    then have "bit N k" "bit (N - 1) k" by (simp_all add: bit_iff_odd)
    moreover have "unat (n - 1) = N - 1"
      using \<open>N > 0\<close> by (simp add: N_def unat_minus_one unat_gt_0)
    ultimately have "bit (n AND (n - 1)) k"
      using k by (simp add: bit_and_iff N_def) (metis bit_unsigned_iff)
    then show False using n by (simp add: is_power_of_2_def)
  qed
  with k show "\<exists>k<32. unat n = 2 ^ k" by (auto simp: N_def)
next
  assume "\<exists>k<32. unat n = 2 ^ k"
  then obtain k where k: "unat n = 2 ^ k" by blast
  then have "unat (n AND (n - 1)) = 0" by (simp add: unat_and_pow2_mask)
  then show "is_power_of_2 n"
    using k by (auto simp: is_power_of_2_def unat_eq_zero)
qed

lemma roundup_pow_of_two_unat:
  assumes "1 < n" "n \<le> 0x80000000"
  shows "\<exists>j<32. unat (roundup_pow_of_two n) = 2 ^ j \<and> unat n \<le> 2 ^ j \<and> 2 ^ j < 2 * unat n"
proof -
  define m where "m = unat (n - 1)"
  define j where "j = fls_nat m"
  have n: "unat n = Suc m" "0 < m" "m < 2 ^ 31"
    using assms unat_minus_one [of n] unat_gt_0 [of n]
    by (auto simp: m_def word_less_nat_alt word_le_nat_alt)
  have j: "2 ^ (j - 1) \<le> m" "m < 2 ^ j" "0 < j"
    using fls_nat_bounds [OF n(2)] by (auto simp: j_def)
  have "j < 32"
  proof (rule ccontr)
    assume "\<not> j < 32"
    then have "(2 :: nat) ^ 31 \<le> 2 ^ (j - 1)" by (intro power_increasing) auto
    with j(1) n(3) show False by simp
  qed
  moreover from \<open>j < 32\<close> have "unat (roundup_pow_of_two n) = 2 ^ j"
    by (simp add: roundup_pow_of_two_def fls_def unat_pow2 flip: j_def m_def)
  moreover have "2 ^ j < 2 * unat n"
    using j n by (cases j) auto
  ultimately show ?thesis using j n by auto
qed

section \<open>Copies around the end of the ring\<close>

lemma ring_offset:
  fixes q t S :: nat
  assumes "q < S" "t < S"
  shows "((q + t) mod S + S - q) mod S = t"
proof (cases "q + t < S")
  case True
  then show ?thesis using assms by (simp add: add.commute)
next
  case False
  then have "(q + t) mod S = q + t - S" using assms by (simp add: le_mod_geq)
  with False show ?thesis using assms by simp
qed

text \<open>The two copies of a put write \<open>n\<close> bytes from ring position \<open>p\<close> on.\<close>

lemma ring_write:
  assumes len: "length b = S" "n \<le> length src" and pos: "p < S" "n \<le> S" and l: "l = min n (S - p)"
  shows "\<exists>b1 b2. memcpy b p src 0 l = Some b1 \<and> memcpy b1 0 src l (n - l) = Some b2 \<and> length b2 = S
     \<and> (\<forall>j<S. b2 ! j = (let t = (j + S - p) mod S in if t < n then src ! t else b ! j))"
proof -
  have lb: "p + l \<le> S" "l \<le> n" "n - l \<le> p" using l pos by auto
  obtain b1 where b1: "memcpy b p src 0 l = Some b1"
    using lb len by simp
  then have len1: "length b1 = S" using len memcpy_length by fastforce
  then obtain b2 where b2: "memcpy b1 0 src l (n - l) = Some b2"
    using lb len pos by simp
  have "b2 ! j = (let t = (j + S - p) mod S in if t < n then src ! t else b ! j)" if j: "j < S" for j
  proof (cases "p \<le> j")
    case True
    then have "j + S - p = (j - p) + S" by simp
    then have "(j + S - p) mod S = j - p" using j by (metis mod_add_self2 mod_less less_imp_diff_less)
    with True show ?thesis
      using nth_memcpy [OF b1, of j] nth_memcpy [OF b2, of j] j len len1 lb l pos by (auto simp: Let_def)
  next
    case False
    then have "(j + S - p) mod S = j + S - p" using j pos by simp
    with False show ?thesis
      using nth_memcpy [OF b1, of j] nth_memcpy [OF b2, of j] j len len1 lb l pos by (auto simp: Let_def min_def add.commute)
  qed
  with b1 b2 len1 show ?thesis using memcpy_length by metis
qed

text \<open>The two copies of a get read \<open>n\<close> bytes from ring position \<open>p\<close> on.\<close>

lemma ring_read:
  assumes len: "length b = S" "n \<le> length dst" and pos: "p < S" "n \<le> S" and l: "l = min n (S - p)"
  shows "\<exists>d1. memcpy dst 0 b p l = Some d1 \<and>
     memcpy d1 l b 0 (n - l) = Some (map (\<lambda>i. b ! ((p + i) mod S)) [0..<n] @ drop n dst)"
proof -
  have lb: "p + l \<le> S" "l \<le> n" "n - l \<le> p" using l pos by auto
  obtain d1 where d1: "memcpy dst 0 b p l = Some d1"
    using lb len by simp
  then have len1: "length d1 = length dst" using memcpy_length by fastforce
  then obtain d2 where d2: "memcpy d1 l b 0 (n - l) = Some d2"
    using lb len pos by simp
  have "d2 = map (\<lambda>i. b ! ((p + i) mod S)) [0..<n] @ drop n dst"
  proof (rule nth_equalityI)
    show "length d2 = length (map (\<lambda>i. b ! ((p + i) mod S)) [0..<n] @ drop n dst)"
      using memcpy_length [OF d2] len1 len by simp
    fix i assume "i < length d2"
    then have i: "i < length dst" using memcpy_length [OF d2] len1 by simp
    have wrap: "(p + i) mod S = (if i < l then p + i else i - l)" if "i < n"
      using that l pos by (cases "p + i < S") (auto simp: le_mod_geq min_def)
    show "d2 ! i = (map (\<lambda>i. b ! ((p + i) mod S)) [0..<n] @ drop n dst) ! i"
      using nth_memcpy [OF d1 i] nth_memcpy [OF d2, of i] i len1 len lb wrap
      by (auto simp: nth_append)
  qed
  with d1 d2 show ?thesis by auto
qed

section \<open>The operations on the contents\<close>

lemma kfifo_okE:
  assumes "kfifo_ok f"
  obtains k where "k < 32" "unat (fifo_size f) = 2 ^ k" "length (buffer f) = 2 ^ k"
    "unat (fifo_in f - fifo_out f) \<le> 2 ^ k"
    "unat (fifo_in f) mod 2 ^ k = (unat (fifo_out f) + unat (fifo_in f - fifo_out f)) mod 2 ^ k"
proof -
  from assms obtain k where k: "k < 32" "unat (fifo_size f) = 2 ^ k"
    by (auto simp: kfifo_ok_def is_power_of_2_iff)
  then show thesis
    using that [OF k] assms unat_add_mod_pow2 [of k "fifo_out f" "fifo_in f - fifo_out f"]
    by (simp add: kfifo_ok_def word_le_nat_alt)
qed

lemma length_contents [simp]: "length (contents f) = unat (fifo_in f - fifo_out f)"
  by (simp add: contents_def)

text \<open>Bytes written past the published end of the FIFO.\<close>

definition staged :: "kfifo \<Rightarrow> u8 list \<Rightarrow> bool" where
  "staged f bs \<longleftrightarrow> length (contents f) + length bs \<le> unat (fifo_size f)
     \<and> (\<forall>i<length bs. buffer f ! ((unat (fifo_in f) + i) mod unat (fifo_size f)) = bs ! i)"

lemma put_sample_unat:
  assumes "kfifo_ok f"
  shows "unat (put_sample f len) = min (unat len) (unat (fifo_size f) - length (contents f))"
proof -
  have "unat (fifo_size f - fifo_in f + fifo_out f) = unat (fifo_size f - (fifo_in f - fifo_out f))"
    by (rule arg_cong [where f = unat]) simp
  also have "\<dots> = unat (fifo_size f) - length (contents f)"
    using assms by (subst unat_sub) (auto simp: kfifo_ok_def)
  finally show ?thesis by (simp add: put_sample_def unat_min)
qed

lemma put_copy_spec:
  assumes ok: "kfifo_ok f" and src: "unat n \<le> length src"
    and room: "length (contents f) + unat n \<le> unat (fifo_size f)"
  shows "\<exists>b. put_copy f src n = Some (f\<lparr>buffer := b\<rparr>) \<and> kfifo_ok (f\<lparr>buffer := b\<rparr>)
     \<and> contents (f\<lparr>buffer := b\<rparr>) = contents f \<and> staged (f\<lparr>buffer := b\<rparr>) (take (unat n) src)"
proof -
  from ok obtain k where k: "k < 32" "unat (fifo_size f) = 2 ^ k" "length (buffer f) = 2 ^ k"
      and I: "unat (fifo_in f) mod 2 ^ k = (unat (fifo_out f) + unat (fifo_in f - fifo_out f)) mod 2 ^ k"
    by (rule kfifo_okE)
  define S where "S = (2 :: nat) ^ k"
  define L where "L = unat (fifo_in f - fifo_out f)"
  define pos where "pos = fifo_in f AND (fifo_size f - 1)"
  define l where "l = min n (fifo_size f - pos)"
  have pos: "unat pos = unat (fifo_in f) mod S" "unat pos < S"
    using k by (simp_all add: pos_def unat_and_pow2_mask S_def)
  then have l: "unat l = min (unat n) (S - unat pos)"
    using k by (simp add: l_def unat_min unat_sub word_le_nat_alt S_def)
  have nl: "unat (n - l) = unat n - unat l"
    by (simp add: l_def unat_sub)
  have fits: "length (buffer f) = S" "unat n \<le> S" "L + unat n \<le> S"
    using k room by (simp_all add: S_def L_def)
  obtain b1 b2 where b: "memcpy (buffer f) (unat pos) src 0 (unat l) = Some b1"
      "memcpy b1 0 src (unat l) (unat n - unat l) = Some b2" "length b2 = S"
      "\<forall>j<S. b2 ! j = (let t = (j + S - unat pos) mod S in if t < unat n then src ! t else buffer f ! j)"
    using ring_write [OF fits(1) src pos(2) fits(2) l] by blast
  have at: "b2 ! ((unat pos + t) mod S) =
      (if t < unat n then src ! t else buffer f ! ((unat pos + t) mod S))" if "t < S" for t
    using b(4) ring_offset [OF pos(2) that] pos(2) by (simp add: Let_def)
  have "b2 ! ((unat (fifo_out f) + i) mod S) = buffer f ! ((unat (fifo_out f) + i) mod S)"
    if "i < L" for i
  proof -
    have "(unat pos + (S - L + i)) mod S = (unat (fifo_out f) + L + (S - L + i)) mod S"
      using I by (metis S_def L_def pos(1) mod_add_left_eq mod_mod_trivial)
    also have "\<dots> = (unat (fifo_out f) + i) mod S"
      using fits mod_add_self2 [of "unat (fifo_out f) + i" S] by (simp add: ac_simps)
    finally have "(unat pos + (S - L + i)) mod S = (unat (fifo_out f) + i) mod S" .
    moreover have "S - L + i < S" "\<not> S - L + i < unat n" using that fits by auto
    ultimately show ?thesis using at [of "S - L + i"] by metis
  qed
  then have "contents (f\<lparr>buffer := b2\<rparr>) = contents f"
    using k by (simp add: contents_def S_def L_def)
  moreover have "staged (f\<lparr>buffer := b2\<rparr>) (take (unat n) src)"
    using at fits k src calculation by (simp add: staged_def S_def L_def pos mod_add_left_eq)
  moreover have "put_copy f src n = Some (f\<lparr>buffer := b2\<rparr>)"
    using b nl by (simp add: put_copy_def flip: pos_def l_def)
  ultimately show ?thesis using ok b k by (auto simp: kfifo_ok_def S_def)
qed

lemma put_publish_spec:
  assumes ok: "kfifo_ok f" and st: "staged f bs" and n: "length bs = unat n"
  shows "kfifo_ok (put_publish f n)" and "contents (put_publish f n) = contents f @ bs"
proof -
  from ok obtain k where k: "k < 32" "unat (fifo_size f) = 2 ^ k" "length (buffer f) = 2 ^ k"
      and I: "unat (fifo_in f) mod 2 ^ k = (unat (fifo_out f) + unat (fifo_in f - fifo_out f)) mod 2 ^ k"
    by (rule kfifo_okE)
  have room: "unat (fifo_in f - fifo_out f) + unat n \<le> unat (fifo_size f)"
    using st n by (simp add: staged_def)
  have "unat (fifo_in f + n - fifo_out f) = unat ((fifo_in f - fifo_out f) + n)"
    by (rule arg_cong [where f = unat]) simp
  also have "\<dots> = unat (fifo_in f - fifo_out f) + unat n"
    using room unat_bound [of "fifo_size f"] unat_add_lem [of "fifo_in f - fifo_out f" n] by simp
  finally have L': "unat (fifo_in f + n - fifo_out f) = unat (fifo_in f - fifo_out f) + unat n" .
  then show "kfifo_ok (put_publish f n)"
    using ok room by (simp add: kfifo_ok_def put_publish_def word_le_nat_alt)
  have at: "buffer f ! ((unat (fifo_out f) + (unat (fifo_in f - fifo_out f) + i)) mod 2 ^ k) = bs ! i"
    if "i < length bs" for i
    using st that I k by (simp add: staged_def) (metis add.assoc mod_add_left_eq)
  have "buffer f ! ((unat (fifo_out f) + j) mod 2 ^ k) = bs ! (j - unat (fifo_in f - fifo_out f))"
    if "unat (fifo_in f - fifo_out f) \<le> j" "j < unat (fifo_in f - fifo_out f) + unat n" for j
    using at [of "j - unat (fifo_in f - fifo_out f)"] that n by simp
  then show "contents (put_publish f n) = contents f @ bs"
    using L' n k by (auto simp: contents_def put_publish_def intro!: nth_equalityI simp: nth_append not_less)
qed

lemma get_sample_unat: "unat (get_sample f len) = min (unat len) (length (contents f))"
  by (simp add: get_sample_def unat_min)

lemma get_copy_spec:
  assumes ok: "kfifo_ok f" and dst: "unat n \<le> length dst" and avail: "unat n \<le> length (contents f)"
  shows "get_copy f dst n = Some (take (unat n) (contents f) @ drop (unat n) dst)"
proof -
  from ok obtain k where k: "k < 32" "unat (fifo_size f) = 2 ^ k" "length (buffer f) = 2 ^ k"
      and L: "unat (fifo_in f - fifo_out f) \<le> 2 ^ k"
    by (rule kfifo_okE)
  define S where "S = (2 :: nat) ^ k"
  define pos where "pos = fifo_out f AND (fifo_size f - 1)"
  define l where "l = min n (fifo_size f - pos)"
  have pos: "unat pos = unat (fifo_out f) mod S" "unat pos < S"
    using k by (simp_all add: pos_def unat_and_pow2_mask S_def)
  then have l: "unat l = min (unat n) (S - unat pos)"
    using k by (simp add: l_def unat_min unat_sub word_le_nat_alt S_def)
  have nl: "unat (n - l) = unat n - unat l"
    by (simp add: l_def unat_sub)
  have fits: "length (buffer f) = S" "unat n \<le> S"
    using k L avail by (simp_all add: S_def)
  have bytes: "map (\<lambda>i. buffer f ! ((unat pos + i) mod S)) [0..<unat n] = take (unat n) (contents f)"
    using k avail by (simp add: contents_def pos take_map mod_add_left_eq S_def)
  show ?thesis
    using ring_read [OF fits(1) dst pos(2) fits(2) l] nl bytes
    by (auto simp: get_copy_def simp flip: pos_def l_def)
qed

lemma get_publish_spec:
  assumes ok: "kfifo_ok f" and avail: "unat n \<le> length (contents f)"
  shows "kfifo_ok (get_publish f n)" and "contents (get_publish f n) = drop (unat n) (contents f)"
    and "staged f bs \<Longrightarrow> staged (get_publish f n) bs"
proof -
  from ok obtain k where k: "k < 32" "unat (fifo_size f) = 2 ^ k" by (rule kfifo_okE)
  have "unat (fifo_in f - (fifo_out f + n)) = unat ((fifo_in f - fifo_out f) - n)"
    by (rule arg_cong [where f = unat]) simp
  also have "\<dots> = unat (fifo_in f - fifo_out f) - unat n"
    using avail by (intro unat_sub) (simp add: word_le_nat_alt)
  finally have L': "unat (fifo_in f - (fifo_out f + n)) = unat (fifo_in f - fifo_out f) - unat n" .
  then show "kfifo_ok (get_publish f n)"
    using ok by (auto simp: kfifo_ok_def get_publish_def word_le_nat_alt)
  have "unat (fifo_out f + n) mod 2 ^ k = (unat (fifo_out f) + unat n) mod 2 ^ k"
    by (rule unat_add_mod_pow2) (use k in simp)
  then have "(unat (fifo_out f + n) + i) mod 2 ^ k = (unat (fifo_out f) + (unat n + i)) mod 2 ^ k" for i
    by (metis add.assoc mod_add_left_eq)
  then show "contents (get_publish f n) = drop (unat n) (contents f)"
    using L' k by (auto simp: contents_def get_publish_def intro!: nth_equalityI)
  show "staged f bs \<Longrightarrow> staged (get_publish f n) bs"
    using L' by (auto simp: staged_def get_publish_def)
qed

lemma kfifo_put_raw_spec:
  assumes ok: "kfifo_ok f" and src: "unat len \<le> length src"
  shows "\<exists>f' n. kfifo_put_raw f src len = Some (f', n) \<and> kfifo_ok f' \<and> fifo_size f' = fifo_size f
     \<and> unat n = min (unat len) (unat (fifo_size f) - length (contents f))
     \<and> contents f' = contents f @ take (unat n) src"
proof -
  let ?n = "put_sample f len"
  have n: "unat ?n = min (unat len) (unat (fifo_size f) - length (contents f))"
    using ok by (rule put_sample_unat)
  with ok have fits: "unat ?n \<le> length src" "length (contents f) + unat ?n \<le> unat (fifo_size f)"
    using src by (auto simp: kfifo_ok_def word_le_nat_alt)
  from put_copy_spec [OF ok fits] obtain b where
    b: "put_copy f src ?n = Some (f\<lparr>buffer := b\<rparr>)" "kfifo_ok (f\<lparr>buffer := b\<rparr>)"
      "contents (f\<lparr>buffer := b\<rparr>) = contents f" "staged (f\<lparr>buffer := b\<rparr>) (take (unat ?n) src)"
    by blast
  with put_publish_spec [OF b(2,4), of ?n] fits n show ?thesis
    by (auto simp: kfifo_put_raw_def Let_def put_publish_def)
qed

lemma kfifo_get_raw_spec:
  assumes ok: "kfifo_ok f" and dst: "unat len \<le> length dst"
  shows "\<exists>f' n. kfifo_get_raw f dst len = Some (f', take (unat n) (contents f) @ drop (unat n) dst, n)
     \<and> kfifo_ok f' \<and> fifo_size f' = fifo_size f
     \<and> unat n = min (unat len) (length (contents f))
     \<and> contents f' = drop (unat n) (contents f)"
proof -
  let ?n = "get_sample f len"
  have n: "unat ?n = min (unat len) (length (contents f))" by (rule get_sample_unat)
  then have "unat ?n \<le> length dst" "unat ?n \<le> length (contents f)" using dst by auto
  with get_copy_spec [OF ok this] get_publish_spec [OF ok this(2)] n show ?thesis
    by (auto simp: kfifo_get_raw_def Let_def get_publish_def)
qed

lemma kfifo_get_spec:
  assumes ok: "kfifo_ok f" and dst: "unat len \<le> length dst"
  shows "\<exists>f' n. kfifo_get f dst len = Some (f', take (unat n) (contents f) @ drop (unat n) dst, n)
     \<and> kfifo_ok f' \<and> fifo_size f' = fifo_size f
     \<and> unat n = min (unat len) (length (contents f))
     \<and> contents f' = drop (unat n) (contents f)"
proof -
  from kfifo_get_raw_spec [OF assms] obtain f' n where
    raw: "kfifo_get_raw f dst len = Some (f', take (unat n) (contents f) @ drop (unat n) dst, n)"
      "kfifo_ok f'" "fifo_size f' = fifo_size f" "unat n = min (unat len) (length (contents f))"
      "contents f' = drop (unat n) (contents f)"
    by blast
  define g where "g = (if fifo_in f' = fifo_out f' then f'\<lparr>fifo_in := 0, fifo_out := 0\<rparr> else f')"
  have "kfifo_ok g" "fifo_size g = fifo_size f" "contents g = contents f'"
    using raw(2,3) by (auto simp: g_def kfifo_ok_def contents_def)
  then show ?thesis
    using raw by (auto simp: kfifo_get_def g_def intro!: exI [of _ g])
qed

section \<open>The interface of a bounded byte queue\<close>

datatype queue_op = Put "u8 list" u32 | Get "u8 list" u32

text \<open>The caller's side of the contract: a buffer holds the bytes its length announces.\<close>

fun op_ok :: "queue_op \<Rightarrow> bool" where
  "op_ok (Put src len) = (unat len \<le> length src)"
| "op_ok (Get dst len) = (unat len \<le> length dst)"

text \<open>A client's sequence of calls: the final queue, the bytes the queue took in and the bytes
  it handed out, or \<open>None\<close> when a call leaves a buffer.\<close>

fun queue_run :: "('q \<Rightarrow> u8 list \<Rightarrow> u32 \<Rightarrow> ('q \<times> u32) option)
    \<Rightarrow> ('q \<Rightarrow> u8 list \<Rightarrow> u32 \<Rightarrow> ('q \<times> u8 list \<times> u32) option)
    \<Rightarrow> 'q \<Rightarrow> queue_op list \<Rightarrow> ('q \<times> u8 list \<times> u8 list) option" where
  "queue_run put get q [] = Some (q, [], [])"
| "queue_run put get q (Put src len # ops) = do {
     (q', n) \<leftarrow> put q src len;
     (q'', ins, outs) \<leftarrow> queue_run put get q' ops;
     Some (q'', take (unat n) src @ ins, outs) }"
| "queue_run put get q (Get dst len # ops) = do {
     (q', dst', n) \<leftarrow> get q dst len;
     (q'', ins, outs) \<leftarrow> queue_run put get q' ops;
     Some (q'', ins, take (unat n) dst' @ outs) }"

locale byte_queue =
  fixes ok :: "'q \<Rightarrow> bool"
    and items :: "'q \<Rightarrow> u8 list"
    and capacity :: "'q \<Rightarrow> nat"
    and put :: "'q \<Rightarrow> u8 list \<Rightarrow> u32 \<Rightarrow> ('q \<times> u32) option"
    and get :: "'q \<Rightarrow> u8 list \<Rightarrow> u32 \<Rightarrow> ('q \<times> u8 list \<times> u32) option"
  assumes put_spec: "ok q \<Longrightarrow> unat len \<le> length src \<Longrightarrow>
      \<exists>q' n. put q src len = Some (q', n) \<and> ok q' \<and> capacity q' = capacity q
        \<and> unat n = min (unat len) (capacity q - length (items q))
        \<and> items q' = items q @ take (unat n) src"
    and get_spec: "ok q \<Longrightarrow> unat len \<le> length dst \<Longrightarrow>
      \<exists>q' n. get q dst len = Some (q', take (unat n) (items q) @ drop (unat n) dst, n)
        \<and> ok q' \<and> capacity q' = capacity q
        \<and> unat n = min (unat len) (length (items q)) \<and> items q' = drop (unat n) (items q)"
    and items_fit: "ok q \<Longrightarrow> length (items q) \<le> capacity q"
begin

lemma stream:
  assumes "ok q" and "list_all op_ok ops"
  shows "\<exists>q' ins outs. queue_run put get q ops = Some (q', ins, outs) \<and> ok q'
     \<and> capacity q' = capacity q \<and> length (items q') \<le> capacity q \<and> items q @ ins = outs @ items q'"
  using assms
proof (induction ops arbitrary: q)
  case Nil
  then show ?case by (simp add: items_fit)
next
  case (Cons op ops)
  show ?case
  proof (cases op)
    case (Put src len)
    with Cons.prems put_spec [of q len src] obtain q' n where
      q': "put q src len = Some (q', n)" "ok q'" "capacity q' = capacity q"
        "items q' = items q @ take (unat n) src"
      by auto
    with Cons.IH [of q'] Cons.prems obtain q'' ins outs where
      "queue_run put get q' ops = Some (q'', ins, outs)" "ok q''" "capacity q'' = capacity q'"
        "length (items q'') \<le> capacity q'" "items q' @ ins = outs @ items q''"
      by auto
    with q' Put show ?thesis by simp
  next
    case (Get dst len)
    with Cons.prems get_spec [of q len dst] obtain q' n where
      q': "get q dst len = Some (q', take (unat n) (items q) @ drop (unat n) dst, n)" "ok q'"
        "capacity q' = capacity q" "unat n \<le> length (items q)" "items q' = drop (unat n) (items q)"
      by auto
    with Cons.IH [of q'] Cons.prems obtain q'' ins outs where
      "queue_run put get q' ops = Some (q'', ins, outs)" "ok q''" "capacity q'' = capacity q'"
        "length (items q'') \<le> capacity q'" "items q' @ ins = outs @ items q''"
      by auto
    moreover from this q' have "items q @ ins = take (unat n) (items q) @ outs @ items q''"
      by (metis append.assoc append_take_drop_id)
    ultimately show ?thesis using q' Get by simp
  qed
qed

end

interpretation fifo: byte_queue kfifo_ok contents "\<lambda>f. unat (fifo_size f)" kfifo_put kfifo_get
proof
  fix f :: kfifo and len :: u32 and src dst :: "u8 list"
  assume ok: "kfifo_ok f"
  show "\<exists>f' n. kfifo_put f src len = Some (f', n) \<and> kfifo_ok f'
      \<and> unat (fifo_size f') = unat (fifo_size f)
      \<and> unat n = min (unat len) (unat (fifo_size f) - length (contents f))
      \<and> contents f' = contents f @ take (unat n) src" if "unat len \<le> length src"
    using kfifo_put_raw_spec [OF ok that] unfolding kfifo_put_def by metis
  show "\<exists>f' n. kfifo_get f dst len = Some (f', take (unat n) (contents f) @ drop (unat n) dst, n)
      \<and> kfifo_ok f' \<and> unat (fifo_size f') = unat (fifo_size f)
      \<and> unat n = min (unat len) (length (contents f)) \<and> contents f' = drop (unat n) (contents f)"
    if "unat len \<le> length dst"
    using kfifo_get_spec [OF ok that] by metis
  show "length (contents f) \<le> unat (fifo_size f)"
    using ok by (simp add: kfifo_ok_def word_le_nat_alt)
qed

section \<open>One reader and one writer without a lock\<close>

text \<open>
  The comment above \<^verbatim>\<open>__kfifo_put\<close> promises that one concurrent reader and one concurrent
  writer need no lock. The interleavings at the memory barriers are a step relation: either
  side may be stopped after sampling and after copying while the other side runs. \<open>took\<close>
  and \<open>gave\<close> record the bytes published by the writer and consumed by the reader, \<open>fault\<close>
  that a copy left a buffer.
\<close>

datatype writer_pc = WIdle | WSampled "u8 list" u32 | WCopied "u8 list" u32

datatype reader_pc = RIdle | RSampled "u8 list" u32 | RCopied "u8 list" u32

record spsc =
  fifo :: kfifo
  writer :: writer_pc
  reader :: reader_pc
  took :: "u8 list"
  gave :: "u8 list"
  fault :: bool

inductive spsc_step :: "spsc \<Rightarrow> spsc \<Rightarrow> bool" where
  w_sample: "writer s = WIdle \<Longrightarrow> unat len \<le> length src \<Longrightarrow>
     spsc_step s (s\<lparr>writer := WSampled src (put_sample (fifo s) len)\<rparr>)"
| w_copy: "writer s = WSampled src n \<Longrightarrow> put_copy (fifo s) src n = Some f \<Longrightarrow>
     spsc_step s (s\<lparr>fifo := f, writer := WCopied src n\<rparr>)"
| w_fault: "writer s = WSampled src n \<Longrightarrow> put_copy (fifo s) src n = None \<Longrightarrow>
     spsc_step s (s\<lparr>fault := True\<rparr>)"
| w_publish: "writer s = WCopied src n \<Longrightarrow>
     spsc_step s (s\<lparr>fifo := put_publish (fifo s) n, writer := WIdle, took := took s @ take (unat n) src\<rparr>)"
| r_sample: "reader s = RIdle \<Longrightarrow> unat len \<le> length dst \<Longrightarrow>
     spsc_step s (s\<lparr>reader := RSampled dst (get_sample (fifo s) len)\<rparr>)"
| r_copy: "reader s = RSampled dst n \<Longrightarrow> get_copy (fifo s) dst n = Some dst' \<Longrightarrow>
     spsc_step s (s\<lparr>reader := RCopied dst' n\<rparr>)"
| r_fault: "reader s = RSampled dst n \<Longrightarrow> get_copy (fifo s) dst n = None \<Longrightarrow>
     spsc_step s (s\<lparr>fault := True\<rparr>)"
| r_publish: "reader s = RCopied dst n \<Longrightarrow>
     spsc_step s (s\<lparr>fifo := get_publish (fifo s) n, reader := RIdle, gave := gave s @ take (unat n) dst\<rparr>)"

definition spsc_init :: "spsc \<Rightarrow> bool" where
  "spsc_init s \<longleftrightarrow> kfifo_ok (fifo s) \<and> contents (fifo s) = [] \<and> writer s = WIdle \<and> reader s = RIdle
     \<and> took s = [] \<and> gave s = [] \<and> \<not> fault s"

text \<open>What each side knows after sampling and after copying, whatever the other side does.\<close>

fun writer_ok :: "kfifo \<Rightarrow> writer_pc \<Rightarrow> bool" where
  "writer_ok f WIdle = True"
| "writer_ok f (WSampled src n) =
     (unat n \<le> length src \<and> length (contents f) + unat n \<le> unat (fifo_size f))"
| "writer_ok f (WCopied src n) = (unat n \<le> length src \<and> staged f (take (unat n) src))"

fun reader_ok :: "kfifo \<Rightarrow> reader_pc \<Rightarrow> bool" where
  "reader_ok f RIdle = True"
| "reader_ok f (RSampled dst n) = (unat n \<le> length dst \<and> unat n \<le> length (contents f))"
| "reader_ok f (RCopied dst n) =
     (unat n \<le> length (contents f) \<and> take (unat n) dst = take (unat n) (contents f))"

definition spsc_inv :: "spsc \<Rightarrow> bool" where
  "spsc_inv s \<longleftrightarrow> kfifo_ok (fifo s) \<and> writer_ok (fifo s) (writer s) \<and> reader_ok (fifo s) (reader s)
     \<and> took s = gave s @ contents (fifo s) \<and> \<not> fault s"

lemma reader_ok_mono:
  "reader_ok f pc \<Longrightarrow> contents g = contents f @ bs \<Longrightarrow> reader_ok g pc"
  by (cases pc) auto

lemma writer_ok_get_publish:
  assumes "kfifo_ok f" "unat n \<le> length (contents f)" "writer_ok f pc"
  shows "writer_ok (get_publish f n) pc"
proof (cases pc)
  case (WCopied src m)
  then show ?thesis using assms get_publish_spec(3) [OF assms(1,2)] by simp
next
  case (WSampled src m)
  moreover have "fifo_size (get_publish f n) = fifo_size f" by (simp add: get_publish_def)
  ultimately show ?thesis
    using assms get_publish_spec(2) [OF assms(1,2)] by (auto simp del: length_contents)
qed simp

lemma spsc_inv_step:
  assumes "spsc_inv s" and "spsc_step s t"
  shows "spsc_inv t"
  using assms(2,1)
proof cases
  case (w_sample len src)
  then show ?thesis using assms(1) put_sample_unat [of "fifo s" len]
    by (auto simp: spsc_inv_def kfifo_ok_def word_le_nat_alt)
next
  case (w_copy src n f)
  then obtain b where "f = (fifo s)\<lparr>buffer := b\<rparr>" "kfifo_ok f" "contents f = contents (fifo s)"
      "staged f (take (unat n) src)"
    using assms(1) put_copy_spec [of "fifo s" n src] by (auto simp: spsc_inv_def)
  then show ?thesis using w_copy assms(1) reader_ok_mono [of "fifo s" "reader s" f "[]"]
    by (auto simp: spsc_inv_def)
next
  case (w_publish src n)
  then show ?thesis
    using assms(1) put_publish_spec [of "fifo s" "take (unat n) src" n]
      reader_ok_mono [of "fifo s" "reader s" "put_publish (fifo s) n"]
    by (auto simp: spsc_inv_def)
next
  case (r_copy dst n dst')
  then show ?thesis using assms(1) get_copy_spec [of "fifo s" n dst] by (auto simp: spsc_inv_def)
next
  case (r_publish dst n)
  then show ?thesis
    using assms(1) get_publish_spec [of "fifo s" n] writer_ok_get_publish [of "fifo s" n "writer s"]
    by (auto simp: spsc_inv_def)
next
  case (w_fault src n)
  then show ?thesis using assms(1) put_copy_spec [of "fifo s" n src] by (auto simp: spsc_inv_def)
next
  case (r_fault dst n)
  then show ?thesis using assms(1) get_copy_spec [of "fifo s" n dst] by (auto simp: spsc_inv_def)
next
  case (r_sample len dst)
  then show ?thesis using assms(1) get_sample_unat [of "fifo s" len] by (auto simp: spsc_inv_def)
qed

interpretation lockless: invariant_system spsc_init spsc_step spsc_inv
proof
  show "spsc_inv s" if "spsc_init s" for s
    using that by (simp add: spsc_inv_def spsc_init_def)
qed (rule spsc_inv_step)

section \<open>Properties\<close>

text \<open>
  C3. Whatever sequence of \<^verbatim>\<open>kfifo_put\<close> and \<^verbatim>\<open>kfifo_get\<close> calls is made on a well-formed FIFO, no
  call leaves a buffer, the FIFO stays well-formed and within its size, and the bytes handed
  out followed by the bytes still inside are exactly the bytes that were inside followed by the
  bytes taken in: nothing is lost, duplicated or reordered, across any number of index
  wrap-arounds.
\<close>

theorem kfifo_stream:
  assumes "kfifo_ok f" and "list_all op_ok ops"
  shows "\<exists>f' ins outs. queue_run kfifo_put kfifo_get f ops = Some (f', ins, outs) \<and> kfifo_ok f'
     \<and> unat (fifo_size f') = unat (fifo_size f) \<and> length (contents f') \<le> unat (fifo_size f)
     \<and> contents f @ ins = outs @ contents f'"
  using assms by (rule fifo.stream)

theorem kfifo_stream_witness:
  "kfifo_ok \<lparr>buffer = [1, 2, 3, 4], fifo_size = 4, fifo_in = 1, fifo_out = 0xFFFFFFFF\<rparr>
   \<and> (\<exists>f' ins outs. queue_run kfifo_put kfifo_get
        \<lparr>buffer = [1, 2, 3, 4], fifo_size = 4, fifo_in = 1, fifo_out = 0xFFFFFFFF\<rparr>
        [Put [7, 8, 9] 3, Get [0, 0, 0, 0] 3] = Some (f', ins, outs)
      \<and> [4, 1] @ ins = outs @ contents f')"
proof -
  let ?f = "\<lparr>buffer = [1, 2, 3, 4], fifo_size = 4, fifo_in = 1, fifo_out = 0xFFFFFFFF\<rparr> :: kfifo"
  have ok: "kfifo_ok ?f" by (simp add: kfifo_ok_def is_power_of_2_def)
  moreover have "list_all op_ok [Put [7, 8, 9] 3, Get [0, 0, 0, 0] 3]" by simp
  moreover have "contents ?f = [4, 1]" by (simp add: contents_def upt_rec)
  ultimately show ?thesis using kfifo_stream [of ?f] by metis
qed

text \<open>
  C19. Without a lock, one reader and one writer that interleave in any way at the memory
  barriers never make a copy leave a buffer, and at every moment the bytes published by the
  writer are the bytes consumed by the reader followed by the contents of the FIFO.
\<close>

theorem kfifo_lockless:
  assumes "reach spsc_init spsc_step s"
  shows "\<not> fault s \<and> took s = gave s @ contents (fifo s)
     \<and> length (contents (fifo s)) \<le> unat (fifo_size (fifo s))"
proof -
  have "spsc_inv s" using assms by (rule lockless.reach_inv)
  then show ?thesis by (simp add: spsc_inv_def kfifo_ok_def word_le_nat_alt)
qed

theorem kfifo_lockless_witness:
  "\<exists>s. reach spsc_init spsc_step s \<and> took s = [7] \<and> reader s = RSampled [0] 0
     \<and> took s = gave s @ contents (fifo s)"
proof -
  let ?f = "\<lparr>buffer = [0, 0], fifo_size = 2, fifo_in = 0, fifo_out = 0\<rparr> :: kfifo"
  let ?s0 = "\<lparr>fifo = ?f, writer = WIdle, reader = RIdle, took = [], gave = [], fault = False\<rparr>"
  let ?s1 = "?s0\<lparr>writer := WSampled [7] 1\<rparr>"
  let ?s2 = "?s1\<lparr>fifo := ?f\<lparr>buffer := [7, 0]\<rparr>, writer := WCopied [7] 1\<rparr>"
  let ?s3 = "?s2\<lparr>reader := RSampled [0] 0\<rparr>"
  let ?s4 = "?s3\<lparr>fifo := ?f\<lparr>buffer := [7, 0], fifo_in := 1\<rparr>, writer := WIdle, took := [7]\<rparr>"
  have "spsc_init ?s0" by (simp add: spsc_init_def kfifo_ok_def is_power_of_2_def contents_def)
  moreover have "spsc_step ?s0 ?s1"
    using w_sample [of ?s0 1 "[7]"] by (simp add: put_sample_def)
  moreover have "spsc_step ?s1 ?s2"
    using w_copy [of ?s1 "[7]" 1 "?f\<lparr>buffer := [7, 0]\<rparr>"] by (simp add: put_copy_def memcpy_def)
  moreover have "spsc_step ?s2 ?s3"
    using r_sample [of ?s2 1 "[0]"] by (simp add: get_sample_def)
  moreover have "spsc_step ?s3 ?s4"
    using w_publish [of ?s3 "[7]" 1] by (simp add: put_publish_def)
  ultimately have "reach spsc_init spsc_step ?s4"
    by (meson reach.intros)
  with kfifo_lockless [OF this] show ?thesis by (intro exI [of _ ?s4]) simp
qed

text \<open>
  \<^verbatim>\<open>kfifo_alloc\<close> accepts exactly the sizes from 1 to \<open>2 ^ 31\<close>: for these it never hits a
  \<^verbatim>\<open>BUG_ON\<close>, and the FIFO it returns is well-formed, empty, and of the least power-of-two size
  that is not below the one asked for; for any other size it returns no FIFO. The hypothesis
  is what \<^verbatim>\<open>kmalloc\<close> documents: the memory it returns has the size asked for.
\<close>

theorem kfifo_alloc_sizes:
  assumes "\<And>n buf. kmalloc n = Some buf \<Longrightarrow> length buf = n"
  shows "(0 < sz \<and> sz \<le> 0x80000000 \<longrightarrow> kfifo_alloc kmalloc sz \<noteq> Bug
      \<and> (\<forall>f. kfifo_alloc kmalloc sz = Ok f \<longrightarrow> kfifo_ok f \<and> contents f = []
           \<and> unat sz \<le> unat (fifo_size f) \<and> unat (fifo_size f) < 2 * unat sz))
    \<and> (\<not> (0 < sz \<and> sz \<le> 0x80000000) \<longrightarrow> (\<forall>f. kfifo_alloc kmalloc sz \<noteq> Ok f))"
proof -
  define r where "r = (if is_power_of_2 sz then sz else roundup_pow_of_two sz)"
  have eq: "kfifo_alloc kmalloc sz = (if \<not> is_power_of_2 sz \<and> sz > 0x80000000 then Bug
      else case kmalloc (unat r) of None \<Rightarrow> Err ENOMEM | Some buf \<Rightarrow> kfifo_init kmalloc buf r)"
    unfolding kfifo_alloc_def Let_def r_def ..
  show ?thesis
  proof (cases "0 < sz \<and> sz \<le> 0x80000000")
    case True
    have "is_power_of_2 r \<and> unat sz \<le> unat r \<and> unat r < 2 * unat sz"
    proof (cases "is_power_of_2 sz")
      case True
      then show ?thesis using \<open>0 < sz \<and> sz \<le> 0x80000000\<close> by (simp add: r_def word_less_nat_alt)
    next
      case False
      then have "sz \<noteq> 1" by (auto simp: is_power_of_2_def)
      with True have "1 < sz" by unat_arith
      with False show ?thesis
        using True roundup_pow_of_two_unat [of sz] by (auto simp: r_def is_power_of_2_iff)
    qed
    then show ?thesis
      using True assms
      by (auto simp: eq kfifo_init_def kfifo_ok_def contents_def split: option.splits)
  next
    case False
    then have "sz = 0 \<or> sz > 0x80000000" by (auto simp: word_gt_0 not_le)
    moreover have "\<not> is_power_of_2 r" if "sz = 0"
    proof -
      have "fls (0 - 1) = fls_nat 4294967295"
        by (simp add: fls_def unsigned_minus_1_eq_mask mask_eq_exp_minus_1)
      also have "\<dots> = 32" by (simp add: fls_nat.simps)
      finally have "roundup_pow_of_two 0 = 0" by (simp add: roundup_pow_of_two_def)
      with that show ?thesis by (simp add: r_def is_power_of_2_def)
    qed
    moreover have "\<not> is_power_of_2 sz" if "sz > 0x80000000"
    proof
      assume "is_power_of_2 sz"
      then obtain k where k: "k < 32" "unat sz = 2 ^ k" by (auto simp: is_power_of_2_iff)
      with that have "(2 :: nat) ^ 31 < 2 ^ k" by (simp add: word_less_nat_alt)
      with k show False using nat_power_less_imp_less [of 2 31 k] by simp
    qed
    ultimately show ?thesis
      using False by (auto simp: eq kfifo_init_def split: option.splits)
  qed
qed

theorem kfifo_alloc_sizes_witness:
  "kfifo_alloc (\<lambda>n. Some (replicate n 0)) 3 =
     Ok \<lparr>buffer = [0, 0, 0, 0], fifo_size = 4, fifo_in = 0, fifo_out = 0\<rparr>
   \<and> kfifo_alloc (\<lambda>n. Some (replicate n 0)) 3 \<noteq> Bug"
proof -
  have "kfifo_alloc (\<lambda>n. Some (replicate n 0)) 3 \<noteq> Bug"
    using kfifo_alloc_sizes [of "\<lambda>n. Some (replicate n 0)" 3] by auto
  moreover have "roundup_pow_of_two 3 = 4"
    by (simp add: roundup_pow_of_two_def fls_def fls_nat.simps)
  moreover have "replicate 4 (0 :: u8) = [0, 0, 0, 0]" by (simp add: eval_nat_numeral)
  ultimately show ?thesis
    by (simp add: kfifo_alloc_def kfifo_init_def is_power_of_2_def)
qed

end
