(* ===== verification/Semaphore.thy ===== *)
theory Semaphore
  imports Kernel_Prelude "HOL-Library.Sublist"
begin

text \<open>
  Counting semaphores, \<^verbatim>\<open>kernel/semaphore.c\<close>. Every operation runs under the semaphore's
  spinlock except for the sleep inside \<^verbatim>\<open>__down_common\<close>, so the model has one function per
  locked section: entering the slow path up to the first sleep, and each return from
  \<^verbatim>\<open>schedule_timeout\<close> up to the next sleep or the end of the call. The waiter structures live on
  the sleeping tasks' stacks and are a map from tasks; the wait list holds the tasks in queue
  order. The interleaving of any number of tasks is a step relation over these sections.
\<close>

section \<open>Task states and pending signals\<close>

definition TASK_INTERRUPTIBLE :: u32 where "TASK_INTERRUPTIBLE = 1"
definition TASK_UNINTERRUPTIBLE :: u32 where "TASK_UNINTERRUPTIBLE = 2"
definition TASK_WAKEKILL :: u32 where "TASK_WAKEKILL = 128"
definition TASK_KILLABLE :: u32 where "TASK_KILLABLE = TASK_WAKEKILL OR TASK_UNINTERRUPTIBLE"

lemmas task_state_defs =
  TASK_INTERRUPTIBLE_def TASK_UNINTERRUPTIBLE_def TASK_WAKEKILL_def TASK_KILLABLE_def

text \<open>Whether a signal is pending for the task, and whether one of them is fatal.\<close>

record signals =
  pending :: bool
  fatal :: bool

definition signal_pending_state :: "u32 \<Rightarrow> signals \<Rightarrow> bool" where
  "signal_pending_state state sg =
     (if state AND (TASK_INTERRUPTIBLE OR TASK_WAKEKILL) = 0 then False
      else if \<not> pending sg then False
      else state AND TASK_INTERRUPTIBLE \<noteq> 0 \<or> fatal sg)"

section \<open>The semaphore and its waiters\<close>

record semaphore =
  count :: u32
  wait_list :: "tid list"

text \<open>\<^verbatim>\<open>struct semaphore_waiter\<close> with the sleep state and the remaining timeout of its call.\<close>

record semaphore_waiter =
  up :: bool
  sleep_state :: u32
  timeout :: int

record sem_sys =
  sem :: semaphore
  waiters :: "tid \<Rightarrow> semaphore_waiter option"

definition MAX_SCHEDULE_TIMEOUT :: int where "MAX_SCHEDULE_TIMEOUT = 2 ^ 31 - 1"

text \<open>The outcome of a locked section: the call goes to sleep, or it returns 0 or an error.\<close>

datatype down_result = Sleeping | Acquired | Failed errno

definition sema_init :: "u32 \<Rightarrow> semaphore" where
  "sema_init val = \<lparr>count = val, wait_list = []\<rparr>"

text \<open>The head of the loop of \<^verbatim>\<open>__down_common\<close>, with both exits that give up.\<close>

definition leave :: "sem_sys \<Rightarrow> tid \<Rightarrow> sem_sys" where
  "leave s t = s\<lparr>sem := (sem s)\<lparr>wait_list := remove1 t (wait_list (sem s))\<rparr>,
     waiters := (waiters s)(t := None)\<rparr>"

definition down_common_loop :: "sem_sys \<Rightarrow> tid \<Rightarrow> u32 \<Rightarrow> int \<Rightarrow> signals \<Rightarrow> sem_sys \<times> down_result" where
  "down_common_loop s t state tmo sg =
     (if signal_pending_state state sg then (leave s t, Failed EINTR)
      else if tmo \<le> 0 then (leave s t, Failed ETIME)
      else (s\<lparr>waiters := (waiters s)(t \<mapsto> \<lparr>up = False, sleep_state = state, timeout = tmo\<rparr>)\<rparr>, Sleeping))"

definition down_common :: "sem_sys \<Rightarrow> tid \<Rightarrow> u32 \<Rightarrow> int \<Rightarrow> signals \<Rightarrow> sem_sys \<times> down_result" where
  "down_common s t state tmo sg =
     down_common_loop
       (s\<lparr>sem := (sem s)\<lparr>wait_list := wait_list (sem s) @ [t]\<rparr>,
          waiters := (waiters s)(t \<mapsto> \<lparr>up = False, sleep_state = state, timeout = tmo\<rparr>)\<rparr>)
       t state tmo sg"

text \<open>The rest of one round of the loop: \<open>tmo\<close> is what \<^verbatim>\<open>schedule_timeout\<close> returned.\<close>

definition down_common_resume :: "sem_sys \<Rightarrow> tid \<Rightarrow> semaphore_waiter \<Rightarrow> int \<Rightarrow> signals
    \<Rightarrow> sem_sys \<times> down_result" where
  "down_common_resume s t w tmo sg =
     (if up w then (s\<lparr>waiters := (waiters s)(t := None)\<rparr>, Acquired)
      else down_common_loop s t (sleep_state w) tmo sg)"

definition take_token :: "sem_sys \<Rightarrow> sem_sys" where
  "take_token s = s\<lparr>sem := (sem s)\<lparr>count := count (sem s) - 1\<rparr>\<rparr>"

definition down :: "sem_sys \<Rightarrow> tid \<Rightarrow> signals \<Rightarrow> sem_sys \<times> down_result" where
  "down s t sg = (if count (sem s) > 0 then (take_token s, Acquired)
     else down_common s t TASK_UNINTERRUPTIBLE MAX_SCHEDULE_TIMEOUT sg)"

definition down_interruptible :: "sem_sys \<Rightarrow> tid \<Rightarrow> signals \<Rightarrow> sem_sys \<times> down_result" where
  "down_interruptible s t sg = (if count (sem s) > 0 then (take_token s, Acquired)
     else down_common s t TASK_INTERRUPTIBLE MAX_SCHEDULE_TIMEOUT sg)"

definition down_killable :: "sem_sys \<Rightarrow> tid \<Rightarrow> signals \<Rightarrow> sem_sys \<times> down_result" where
  "down_killable s t sg = (if count (sem s) > 0 then (take_token s, Acquired)
     else down_common s t TASK_KILLABLE MAX_SCHEDULE_TIMEOUT sg)"

definition down_timeout :: "sem_sys \<Rightarrow> tid \<Rightarrow> int \<Rightarrow> signals \<Rightarrow> sem_sys \<times> down_result" where
  "down_timeout s t jiffies sg = (if count (sem s) > 0 then (take_token s, Acquired)
     else down_common s t TASK_UNINTERRUPTIBLE jiffies sg)"

text \<open>\<^verbatim>\<open>down_trylock\<close> tests the decremented count as a signed integer; it returns whether it failed.\<close>

definition down_trylock :: "sem_sys \<Rightarrow> sem_sys \<times> bool" where
  "down_trylock s =
     (let c = sint (count (sem s) - 1)
      in (if c \<ge> 0 then s\<lparr>sem := (sem s)\<lparr>count := count (sem s) - 1\<rparr>\<rparr> else s, c < 0))"

text \<open>\<^verbatim>\<open>up\<close>, with \<^verbatim>\<open>__up\<close> when the list is not empty: the first waiter leaves the list with its \<open>up\<close> flag
  set. The branch for a listed task without a waiter structure is a stray pointer in C; no
  reachable state takes it.\<close>

definition sem_up :: "sem_sys \<Rightarrow> sem_sys" where
  "sem_up s = (case wait_list (sem s) of
       [] \<Rightarrow> s\<lparr>sem := (sem s)\<lparr>count := count (sem s) + 1\<rparr>\<rparr>
     | t # ts \<Rightarrow> s\<lparr>sem := (sem s)\<lparr>wait_list := ts\<rparr>,
         waiters := (waiters s)(t := map_option (\<lambda>w. w\<lparr>up := True\<rparr>) (waiters s t))\<rparr>)"

section \<open>Interleavings\<close>

text \<open>A run counts the calls that returned with the semaphore taken and the calls of \<^verbatim>\<open>up\<close>.\<close>

record sem_run = sem_sys +
  acquired :: nat
  released :: nat

datatype down_kind = Plain | Interruptible | Killable | Timeout int

fun down_call :: "down_kind \<Rightarrow> sem_sys \<Rightarrow> tid \<Rightarrow> signals \<Rightarrow> sem_sys \<times> down_result" where
  "down_call Plain s t sg = down s t sg"
| "down_call Interruptible s t sg = down_interruptible s t sg"
| "down_call Killable s t sg = down_killable s t sg"
| "down_call (Timeout j) s t sg = down_timeout s t j sg"

definition account :: "sem_run \<Rightarrow> sem_sys \<times> down_result \<Rightarrow> sem_run" where
  "account r = (\<lambda>(s, res). \<lparr>sem = sem s, waiters = waiters s,
     acquired = acquired r + (if res = Acquired then 1 else 0), released = released r\<rparr>)"

inductive sem_step :: "sem_run \<Rightarrow> sem_run \<Rightarrow> bool" where
  step_down: "waiters r t = None \<Longrightarrow>
     sem_step r (account r (down_call k (sem_sys.truncate r) t sg))"
| step_wake: "waiters r t = Some w \<Longrightarrow>
     sem_step r (account r (down_common_resume (sem_sys.truncate r) t w tmo sg))"
| step_try: "down_trylock (sem_sys.truncate r) = (s, failed) \<Longrightarrow>
     sem_step r (account r (s, if failed then Failed EAGAIN else Acquired))"
| step_up: "sem_step r ((account r (sem_up (sem_sys.truncate r), Sleeping))\<lparr>released := released r + 1\<rparr>)"


definition sem_start :: "u32 \<Rightarrow> sem_run \<Rightarrow> bool" where
  "sem_start n r \<longleftrightarrow> sem r = sema_init n \<and> waiters r = (\<lambda>_. None) \<and> acquired r = 0 \<and> released r = 0"

section \<open>Invariant\<close>

definition queued :: "sem_sys \<Rightarrow> tid set" where
  "queued s = {t. \<exists>w. waiters s t = Some w \<and> \<not> up w}"

text \<open>The tasks that were handed the semaphore and have not yet run.\<close>

definition granted :: "sem_sys \<Rightarrow> tid set" where
  "granted s = {t. \<exists>w. waiters s t = Some w \<and> up w}"

definition sem_ok :: "sem_sys \<Rightarrow> bool" where
  "sem_ok s \<longleftrightarrow> distinct (wait_list (sem s)) \<and> set (wait_list (sem s)) = queued s \<and> finite (granted s)
     \<and> (wait_list (sem s) \<noteq> [] \<longrightarrow> count (sem s) = 0)"

definition tokens :: "sem_sys \<Rightarrow> nat" where
  "tokens s = unat (count (sem s)) + card (granted s)"

text \<open>What an operation does to the tokens: it keeps them, except that one is used up when the
  call returns with the semaphore taken.\<close>

definition settles :: "sem_sys \<Rightarrow> sem_sys \<times> down_result \<Rightarrow> bool" where
  "settles s = (\<lambda>(s', res). sem_ok s' \<and> tokens s = tokens s' + (if res = Acquired then 1 else 0))"

lemma leave_ok:
  assumes "sem_ok s" "t \<in> queued s"
  shows "sem_ok (leave s t)" "tokens (leave s t) = tokens s"
proof -
  have "granted (leave s t) = granted s" "queued (leave s t) = queued s - {t}"
    using assms(2) by (auto simp: leave_def granted_def queued_def)
  then show "sem_ok (leave s t)" "tokens (leave s t) = tokens s"
    using assms(1) by (auto simp: sem_ok_def tokens_def leave_def)
qed

lemma down_common_loop_settles:
  assumes "sem_ok s" "t \<in> queued s"
  shows "settles s (down_common_loop s t state tmo sg)"
proof -
  let ?s' = "s\<lparr>waiters := (waiters s)(t \<mapsto> \<lparr>up = False, sleep_state = state, timeout = tmo\<rparr>)\<rparr>"
  have "granted ?s' = granted s" "queued ?s' = queued s"
    using assms(2) by (auto simp: granted_def queued_def)
  then have "sem_ok ?s'" "tokens ?s' = tokens s"
    using assms(1) by (simp_all add: sem_ok_def tokens_def)
  then show ?thesis
    using leave_ok [OF assms] by (simp add: settles_def down_common_loop_def)
qed

lemma down_common_settles:
  assumes "sem_ok s" "waiters s t = None" "count (sem s) = 0"
  shows "settles s (down_common s t state tmo sg)"
proof -
  let ?s' = "s\<lparr>sem := (sem s)\<lparr>wait_list := wait_list (sem s) @ [t]\<rparr>,
    waiters := (waiters s)(t \<mapsto> \<lparr>up = False, sleep_state = state, timeout = tmo\<rparr>)\<rparr>"
  have "granted ?s' = granted s" "queued ?s' = insert t (queued s)" "t \<notin> queued s"
    using assms(2) by (auto simp: granted_def queued_def)
  then have "sem_ok ?s'" "tokens ?s' = tokens s" "t \<in> queued ?s'"
    using assms by (simp_all add: sem_ok_def tokens_def)
  then show ?thesis
    using down_common_loop_settles [of ?s' t state tmo sg] by (simp add: settles_def down_common_def)
qed

lemma take_token_settles:
  assumes "sem_ok s" "count (sem s) > 0"
  shows "settles s (take_token s, Acquired)"
proof -
  have "unat (count (sem s)) = Suc (unat (count (sem s) - 1))"
    using assms(2) by (simp add: unat_minus_one word_gt_0 unat_gt_0)
  then show ?thesis
    using assms by (auto simp: settles_def take_token_def sem_ok_def tokens_def queued_def granted_def)
qed

lemma down_call_settles:
  assumes "sem_ok s" "waiters s t = None"
  shows "settles s (down_call k s t sg)"
proof (cases "count (sem s) > 0")
  case True
  with take_token_settles [OF assms(1)] show ?thesis
    by (cases k) (simp_all add: down_def down_interruptible_def down_killable_def down_timeout_def)
next
  case False
  then have "count (sem s) = 0" by (simp add: word_gt_0)
  with down_common_settles [OF assms] show ?thesis
    by (cases k) (simp_all add: down_def down_interruptible_def down_killable_def down_timeout_def)
qed

lemma down_common_resume_settles:
  assumes "sem_ok s" "waiters s t = Some w"
  shows "settles s (down_common_resume s t w tmo sg)"
proof (cases "up w")
  case True
  let ?s' = "s\<lparr>waiters := (waiters s)(t := None)\<rparr>"
  have t: "t \<in> granted s" and g: "granted ?s' = granted s - {t}" and "queued ?s' = queued s"
    using assms(2) True by (auto simp: granted_def queued_def)
  then have "sem_ok ?s'" using assms(1) by (simp add: sem_ok_def)
  moreover have "card (granted s) = Suc (card (granted s - {t}))"
    using assms(1) t by (metis card_Suc_Diff1 sem_ok_def)
  then have "tokens s = tokens ?s' + 1"
    using g by (simp add: tokens_def)
  ultimately show ?thesis using True by (simp add: settles_def down_common_resume_def)
next
  case False
  then have "t \<in> queued s" using assms(2) by (simp add: queued_def)
  with False down_common_loop_settles [OF assms(1)] show ?thesis
    by (simp add: down_common_resume_def)
qed

lemma sint_pred_nonneg: "sint (c - 1 :: u32) \<ge> 0 \<Longrightarrow> c > 0"
  by (metis diff_0 sint_n1 word_gt_0 not_one_le_zero zero_le_one neg_0_le_iff_le)

lemma down_trylock_settles:
  assumes "sem_ok s" "down_trylock s = (s', failed)"
  shows "settles s (s', if failed then Failed EAGAIN else Acquired)"
proof (cases failed)
  case True
  then have "s' = s" using assms(2) by (auto simp: down_trylock_def Let_def split: if_splits)
  then show ?thesis using True assms(1) by (simp add: settles_def)
next
  case False
  then have "s' = take_token s" "count (sem s) > 0"
    using assms(2) sint_pred_nonneg by (auto simp: down_trylock_def take_token_def Let_def split: if_splits)
  then show ?thesis using False take_token_settles [OF assms(1)] by simp
qed

lemma sem_up_ok:
  assumes "sem_ok s"
  shows "sem_ok (sem_up s)" "(of_nat (tokens (sem_up s)) :: u32) = of_nat (tokens s) + 1"
    and "unat (count (sem s)) < 2 ^ 32 - 1 \<Longrightarrow> tokens (sem_up s) = tokens s + 1"
proof -
  have "sem_ok (sem_up s) \<and> (of_nat (tokens (sem_up s)) :: u32) = of_nat (tokens s) + 1
      \<and> (unat (count (sem s)) < 2 ^ 32 - 1 \<longrightarrow> tokens (sem_up s) = tokens s + 1)"
  proof (cases "wait_list (sem s)")
    case Nil
    have "unat (count (sem s) + 1) = unat (count (sem s)) + 1" if "unat (count (sem s)) < 2 ^ 32 - 1"
      using that unat_add_lem [of "count (sem s)" 1] by simp
    with Nil show ?thesis
      using assms by (auto simp: sem_up_def sem_ok_def tokens_def granted_def queued_def)
  next
    case (Cons t ts)
    with assms have t: "t \<in> queued s" "t \<notin> set ts" by (auto simp: sem_ok_def)
    from t(1) have t': "t \<notin> granted s" by (auto simp: queued_def granted_def)
    with t have "granted (sem_up s) = insert t (granted s)" "queued (sem_up s) = queued s - {t}"
      using Cons by (auto simp: sem_up_def granted_def queued_def)
    then show ?thesis
      using assms Cons t t' by (auto simp: sem_ok_def tokens_def sem_up_def)
  qed
  then show "sem_ok (sem_up s)" "(of_nat (tokens (sem_up s)) :: u32) = of_nat (tokens s) + 1"
    "unat (count (sem s)) < 2 ^ 32 - 1 \<Longrightarrow> tokens (sem_up s) = tokens s + 1" by simp_all
qed

definition sem_inv :: "u32 \<Rightarrow> sem_run \<Rightarrow> bool" where
  "sem_inv n r \<longleftrightarrow> sem_ok (sem_sys.truncate r)
     \<and> of_nat (tokens (sem_sys.truncate r) + acquired r) = n + of_nat (released r)"


lemma truncate_account [simp]:
  "sem_sys.truncate (account r (s, res)) = s"
  "sem_sys.truncate (r'\<lparr>released := k\<rparr>) = sem_sys.truncate r'"
  "acquired (account r (s, res)) = acquired r + (if res = Acquired then 1 else 0)"
  "released (account r (s, res)) = released r"
  by (simp_all add: account_def sem_sys.truncate_def)

lemma account_inv:
  assumes "sem_inv n r" "settles (sem_sys.truncate r) x"
  shows "sem_inv n (account r x)"
proof (cases x)
  case (Pair s res)
  with assms show ?thesis by (auto simp: sem_inv_def settles_def ac_simps split: if_splits)
qed


text \<open>Every step but \<^verbatim>\<open>up\<close> settles the tokens.\<close>

lemma sem_step_cases:
  assumes "sem_step r r'" "sem_ok (sem_sys.truncate r)"
  obtains x where "settles (sem_sys.truncate r) x" "r' = account r x"
  | "r' = (account r (sem_up (sem_sys.truncate r), Sleeping))\<lparr>released := released r + 1\<rparr>"
proof -
  have w: "waiters (sem_sys.truncate r) = waiters r" by (simp add: sem_sys.truncate_def)
  from assms(1) show thesis
  proof cases
    case (step_down t k sg)
    with w show thesis by (intro that(1) [OF down_call_settles [OF assms(2)]]) simp_all
  next
    case (step_wake t w' tmo sg)
    with w show thesis by (intro that(1) [OF down_common_resume_settles [OF assms(2)]]) simp_all
  next
    case (step_try s failed)
    then show thesis by (intro that(1) [OF down_trylock_settles [OF assms(2)]]) simp_all
  next
    case step_up
    then show thesis by (rule that(2))
  qed
qed

lemma sem_inv_step:
  assumes "sem_inv n r" "sem_step r r'"
  shows "sem_inv n r'"
proof -
  have ok: "sem_ok (sem_sys.truncate r)" using assms(1) by (simp add: sem_inv_def)
  from assms(2) ok show ?thesis
  proof (cases rule: sem_step_cases)
    case (1 x)
    then show ?thesis using account_inv [OF assms(1)] by simp
  next
    case 2
    then show ?thesis using assms(1) sem_up_ok [OF ok] by (simp add: sem_inv_def ac_simps)
  qed
qed


lemma sem_start_ok:
  "sem_start n r \<Longrightarrow> sem_ok (sem_sys.truncate r) \<and> tokens (sem_sys.truncate r) = unat n"
  by (simp add: sem_start_def sem_ok_def tokens_def granted_def queued_def sema_init_def
      sem_sys.truncate_def)

interpretation semaphores: invariant_system "sem_start n" sem_step "sem_inv n"
proof
  show "sem_inv n r" if "sem_start n r" for r
    using sem_start_ok [OF that] that by (simp add: sem_inv_def sem_start_def)
qed (rule sem_inv_step)


section \<open>Queue order\<close>

text \<open>The order of the wait list survives a step, and new waiters come last.\<close>

definition keeps_order :: "sem_sys \<Rightarrow> sem_sys \<Rightarrow> bool" where
  "keeps_order s s' \<longleftrightarrow> (\<exists>zs. subseq zs (wait_list (sem s)) \<and>
     (wait_list (sem s') = zs \<or> (\<exists>t. waiters s t = None \<and> wait_list (sem s') = zs @ [t])))"

lemma remove1_snoc_new: "t \<notin> set xs \<Longrightarrow> remove1 t (xs @ [t]) = xs"
  by (simp add: remove1_append)

lemma subseq_remove1: "subseq (remove1 t xs) xs"
  by (induction xs) auto

lemmas down_defs = down_def down_interruptible_def down_killable_def down_timeout_def

lemma down_call_order:
  assumes "sem_ok s" "waiters s t = None"
  shows "keeps_order s (fst (down_call k s t sg))" "granted (fst (down_call k s t sg)) = granted s"
proof -
  have "t \<notin> set (wait_list (sem s))" using assms by (auto simp: sem_ok_def queued_def)
  then have common: "keeps_order s (fst (down_common s t st tmo sg))
      \<and> granted (fst (down_common s t st tmo sg)) = granted s" for st tmo
    using assms(2)
    by (auto simp: keeps_order_def down_common_def down_common_loop_def leave_def granted_def
        remove1_snoc_new intro: exI [of _ "wait_list (sem s)"])
  have "keeps_order s (take_token s) \<and> granted (take_token s) = granted s"
    by (auto simp: keeps_order_def take_token_def granted_def)
  with common show "keeps_order s (fst (down_call k s t sg))"
      "granted (fst (down_call k s t sg)) = granted s"
    by (cases k; simp add: down_defs)+
qed

lemma down_common_resume_order:
  assumes "waiters s t = Some w"
  shows "keeps_order s (fst (down_common_resume s t w tmo sg))"
    and "granted (fst (down_common_resume s t w tmo sg)) \<subseteq> granted s"
  using assms
  by (auto simp: keeps_order_def down_common_resume_def down_common_loop_def leave_def granted_def
      split: if_splits intro: exI [of _ "remove1 t (wait_list (sem s))"] subseq_remove1)

lemma down_trylock_order:
  "keeps_order s (fst (down_trylock s)) \<and> granted (fst (down_trylock s)) = granted s"
  by (auto simp: keeps_order_def down_trylock_def granted_def Let_def)

lemma semaphore_truncate: "sem (sem_sys.truncate r) = sem r" "waiters (sem_sys.truncate r) = waiters r"
  by (simp_all add: sem_sys.truncate_def)

lemma sem_up_order: "keeps_order s (sem_up s)"
  by (auto simp: keeps_order_def sem_up_def split: list.splits)

lemma step_order:
  assumes "sem_ok (sem_sys.truncate r)" and "sem_step r r'"
  shows "keeps_order (sem_sys.truncate r) (sem_sys.truncate r')"
proof -
  let ?s = "sem_sys.truncate r"
  have w: "waiters ?s = waiters r" by (simp add: sem_sys.truncate_def)
  have trunc: "sem_sys.truncate (account r x) = fst x" for x by (cases x) simp
  from assms(2) show ?thesis
  proof cases
    case (step_down t k sg)
    then show ?thesis using down_call_order [OF assms(1)] w by (simp add: trunc)
  next
    case (step_wake t w' tmo sg)
    then show ?thesis using down_common_resume_order [of ?s t w' tmo sg] w by (simp add: trunc)
  next
    case (step_try s failed)
    then show ?thesis using down_trylock_order [of ?s] by (simp add: trunc)
  next
    case step_up
    then show ?thesis using sem_up_order [of ?s] by (simp add: trunc)
  qed
qed

text \<open>A step that releases is a call of \<^verbatim>\<open>up\<close>.\<close>

lemma released_step:
  assumes "sem_step r r'"
  shows "released r' = released r \<or> released r' = released r + 1 \<and> sem_sys.truncate r' = sem_up (sem_sys.truncate r)"
  using assms
proof cases
  case (step_down t k sg)
  then show ?thesis by (cases "down_call k (sem_sys.truncate r) t sg") simp
next
  case (step_wake t w tmo sg)
  then show ?thesis by (cases "down_common_resume (sem_sys.truncate r) t w tmo sg") simp
qed simp_all

lemma subseq_subset: "subseq xs ys \<Longrightarrow> set xs \<subseteq> set ys"
  by (auto elim: list_emb_set)

lemma subseq_split:
  assumes "subseq zs (ps @ t # qs)" "t \<in> set zs" "t \<notin> set ps" "t \<notin> set qs"
  shows "\<exists>ps' qs'. zs = ps' @ t # qs' \<and> subseq ps' ps"
proof -
  from assms(1) obtain us vs where zs: "zs = us @ vs" "subseq us ps" "subseq vs (t # qs)" by (auto simp: subseq_append_iff)
  have "t \<notin> set us" using zs(2) assms(3) by (auto dest: subseq_subset)
  then have "t \<in> set vs" using assms(2) zs(1) by simp
  then obtain v vs' where vs: "vs = v # vs'" by (cases vs) auto
  then have "v = t" using zs(3) \<open>t \<in> set vs\<close> assms(4) by (auto dest!: subseq_subset split: if_splits)
  then show ?thesis using zs vs by auto
qed

text \<open>The task \<open>t\<close> keeps waiting in the step.\<close>

definition waits_on :: "tid \<Rightarrow> sem_run \<Rightarrow> sem_run \<Rightarrow> bool" where
  "waits_on t r r' \<longleftrightarrow> sem_step r r' \<and> t \<in> set (wait_list (sem r'))"

lemma waits_on_step:
  assumes ok: "sem_ok (sem_sys.truncate r)" and step: "waits_on t r r'" and list: "wait_list (sem r) = ps @ t # qs"
  shows "\<exists>ps' qs'. wait_list (sem r') = ps' @ t # qs' \<and> subseq ps' ps \<and> length ps' + released r' \<le> length ps + released r"
proof -
  have sem: "sem (sem_sys.truncate x) = sem x" "waiters (sem_sys.truncate x) = waiters x" for x by (simp_all add: sem_sys.truncate_def)
  from step have t: "sem_step r r'" "t \<in> set (wait_list (sem r'))" by (simp_all add: waits_on_def)
  have dist: "t \<notin> set ps" "t \<notin> set qs" "waiters r t \<noteq> None"
    using ok list by (auto simp: sem_ok_def sem queued_def)
  from released_step [OF t(1)] show ?thesis
  proof
    assume same: "released r' = released r"
    from step_order [OF ok t(1)] obtain zs where zs: "subseq zs (ps @ t # qs)"
      "wait_list (sem r') = zs \<or> (\<exists>u. waiters r u = None \<and> wait_list (sem r') = zs @ [u])"
      unfolding keeps_order_def sem list by blast
    then have "t \<in> set zs" using t(2) dist(3) by auto
    from subseq_split [OF zs(1) this dist(1,2)] obtain ps' qs' where p: "zs = ps' @ t # qs'" "subseq ps' ps" by blast
    from zs(2) obtain qs'' where "wait_list (sem r') = ps' @ t # qs''" unfolding p(1) by auto
    moreover have "length ps' \<le> length ps" by (rule list_emb_length [OF p(2)])
    ultimately show ?thesis using p(2) same by (intro exI [of _ ps'] exI [of _ qs'']) simp
  next
    assume up: "released r' = released r + 1 \<and> sem_sys.truncate r' = sem_up (sem_sys.truncate r)"
    have "sem r' = sem (sem_up (sem_sys.truncate r))" using sem(1) [of r'] up by simp
    then have "wait_list (sem r') = tl (ps @ t # qs)" using list by (simp add: sem_up_def sem split: list.splits)
    moreover from this obtain p ps' where "ps = p # ps'" using t(2) dist(2) by (cases ps) simp_all
    ultimately show ?thesis using up by (intro exI [of _ ps'] exI [of _ qs]) (simp add: list_emb_Cons)
  qed
qed

lemma waits_on_run:
  assumes "reach (sem_start n) sem_step r" and "(waits_on t)\<^sup>*\<^sup>* r r'" and "wait_list (sem r) = ps @ t # qs"
  shows "reach (sem_start n) sem_step r' \<and>
    (\<exists>ps' qs'. wait_list (sem r') = ps' @ t # qs' \<and> subseq ps' ps \<and> length ps' + released r' \<le> length ps + released r)"
  using assms(2)
proof (induction rule: rtranclp_induct)
  case base
  show ?case using assms(1,3) by (intro conjI exI [of _ ps] exI [of _ qs]) simp_all
next
  case (step r1 r2)
  then obtain ps1 qs1 where r1: "reach (sem_start n) sem_step r1" "wait_list (sem r1) = ps1 @ t # qs1" "subseq ps1 ps"
    "length ps1 + released r1 \<le> length ps + released r" by blast
  have "sem_ok (sem_sys.truncate r1)" using semaphores.reach_inv [OF r1(1)] by (simp add: sem_inv_def)
  from waits_on_step [OF this step(2) r1(2)] obtain ps2 qs2 where "wait_list (sem r2) = ps2 @ t # qs2" "subseq ps2 ps1"
    "length ps2 + released r2 \<le> length ps1 + released r1" by blast
  moreover from this have "subseq ps2 ps" using r1(3) by (metis subseq_order.trans)
  moreover have "reach (sem_start n) sem_step r2" using reach_step [OF r1(1)] step(2) by (simp add: waits_on_def)
  ultimately show ?case using r1(4) by force
qed

section \<open>Properties\<close>

text \<open>
  C5. For every interleaving of the \<^verbatim>\<open>down\<close> family, \<^verbatim>\<open>down_trylock\<close> and \<^verbatim>\<open>up\<close> by any number of
  tasks, whatever signals arrive and whenever timeouts expire: the count, the grants not yet
  picked up and the acquisitions add up to the initial count and the releases (in 32-bit
  arithmetic), so a token is never lost or made up, also when a signal or timeout races with
  \<^verbatim>\<open>up\<close>; the wait list holds exactly the tasks that sleep ungranted, each once; and nobody
  sleeps on it while the count is positive.
\<close>

theorem semaphore_tokens:
  assumes "reach (sem_start n) sem_step r"
  shows "count (sem r) + of_nat (card {t. \<exists>w. waiters r t = Some w \<and> up w}) + of_nat (acquired r)
       = n + of_nat (released r)
     \<and> distinct (wait_list (sem r))
     \<and> set (wait_list (sem r)) = {t. \<exists>w. waiters r t = Some w \<and> \<not> up w}
     \<and> (wait_list (sem r) \<noteq> [] \<longrightarrow> count (sem r) = 0)"
proof -
  have "sem_inv n r" using assms by (rule semaphores.reach_inv)
  then show ?thesis
    by (simp add: sem_inv_def sem_ok_def tokens_def granted_def queued_def sem_sys.truncate_def)
qed

theorem semaphore_tokens_witness:
  "\<exists>r. reach (sem_start 1) sem_step r \<and> wait_list (sem r) = [7]
     \<and> count (sem r) + of_nat (card {t. \<exists>w. waiters r t = Some w \<and> up w}) + of_nat (acquired r)
       = 1 + of_nat (released r)"
proof -
  let ?r0 = "\<lparr>sem = sema_init 1, waiters = (\<lambda>_. None), acquired = 0, released = 0\<rparr> :: sem_run"
  let ?sg = "\<lparr>pending = False, fatal = False\<rparr>"
  let ?r1 = "account ?r0 (down_call Plain (sem_sys.truncate ?r0) 5 ?sg)"
  let ?r2 = "account ?r1 (down_call Interruptible (sem_sys.truncate ?r1) 7 ?sg)"
  have w1: "waiters ?r1 7 = None"
    by (simp add: account_def down_def take_token_def sema_init_def sem_sys.truncate_def)
  have "reach (sem_start 1) sem_step ?r0" by (rule reach_init) (simp add: sem_start_def)
  moreover have "sem_step ?r0 ?r1" by (rule step_down) simp
  moreover have "sem_step ?r1 ?r2" by (rule step_down) (rule w1)
  ultimately have r2: "reach (sem_start 1) sem_step ?r2" by (blast intro: reach_step)
  moreover have "wait_list (sem ?r2) = [7]"
    by (simp add: account_def down_def down_interruptible_def take_token_def sema_init_def
        sem_sys.truncate_def down_common_def down_common_loop_def signal_pending_state_def
        MAX_SCHEDULE_TIMEOUT_def)
  ultimately show ?thesis using semaphore_tokens [OF r2] by blast
qed



text \<open>
  C26. First come, first served, with the hand-over: let a task wait in a reachable state with the tasks \<open>ps\<close> before
  it in the list, and let it keep waiting through any sequence of steps of any tasks. Then nobody has come before it
  who was not there already, every \<^verbatim>\<open>up\<close> in between has taken a task before it off the list, so that there were at
  most as many as the length of \<open>ps\<close>, and the next \<^verbatim>\<open>up\<close> hands the semaphore to the first waiter: to the task
  itself if none is left before it, and otherwise to the first of those, leaving the rest of the list as it is.
\<close>

theorem semaphore_fifo:
  assumes "reach (sem_start n) sem_step r" and "wait_list (sem r) = ps @ t # qs" and "(waits_on t)\<^sup>*\<^sup>* r r'"
  shows "\<exists>ps' qs'. wait_list (sem r') = ps' @ t # qs' \<and> subseq ps' ps \<and> length ps' + released r' \<le> length ps + released r \<and>
    (\<forall>r''. sem_step r' r'' \<and> released r'' > released r' \<longrightarrow>
       wait_list (sem r'') = tl (ps' @ t # qs') \<and> (\<exists>w. waiters r'' (hd (ps' @ [t])) = Some w \<and> up w))"
proof -
  from waits_on_run [OF assms(1,3,2)] obtain ps' qs' where r': "reach (sem_start n) sem_step r'"
    "wait_list (sem r') = ps' @ t # qs'" "subseq ps' ps" "length ps' + released r' \<le> length ps + released r" by blast
  have "sem_ok (sem_sys.truncate r')" using semaphores.reach_inv [OF r'(1)] by (simp add: sem_inv_def)
  then have "hd (ps' @ [t]) \<in> queued (sem_sys.truncate r')"
    using r'(2) by (cases ps') (auto simp: sem_ok_def sem_sys.truncate_def)
  then obtain w where w: "waiters r' (hd (ps' @ [t])) = Some w" by (auto simp: queued_def sem_sys.truncate_def)
  have "wait_list (sem r'') = tl (ps' @ t # qs') \<and> (\<exists>w. waiters r'' (hd (ps' @ [t])) = Some w \<and> up w)"
    if "sem_step r' r''" "released r'' > released r'" for r''
  proof -
    have "sem_sys.truncate r'' = sem_up (sem_sys.truncate r')" using released_step [OF that(1)] that(2) by simp
    then have "sem r'' = sem (sem_up (sem_sys.truncate r'))" "waiters r'' = waiters (sem_up (sem_sys.truncate r'))"
      by (metis semaphore_truncate)+
    then show ?thesis using r'(2) w by (cases ps') (simp_all add: sem_up_def sem_sys.truncate_def)
  qed
  then show ?thesis using r'(2-4) by blast
qed

theorem semaphore_fifo_witness:
  "\<exists>r r'. reach (sem_start 0) sem_step r \<and> wait_list (sem r) = [7] \<and> sem_step r r' \<and> released r' > released r
     \<and> wait_list (sem r') = [] \<and> (\<exists>w. waiters r' 7 = Some w \<and> up w)"
proof -
  let ?r0 = "\<lparr>sem = sema_init 0, waiters = (\<lambda>_. None), acquired = 0, released = 0\<rparr> :: sem_run"
  let ?r1 = "account ?r0 (down_call Plain (sem_sys.truncate ?r0) 7 \<lparr>pending = False, fatal = False\<rparr>)"
  let ?r2 = "(account ?r1 (sem_up (sem_sys.truncate ?r1), Sleeping))\<lparr>released := released ?r1 + 1\<rparr>"
  have "reach (sem_start 0) sem_step ?r0" by (rule reach_init) (simp add: sem_start_def)
  moreover have "sem_step ?r0 ?r1" by (rule step_down) simp
  ultimately have r1: "reach (sem_start 0) sem_step ?r1" by (rule reach_step)
  have step: "sem_step ?r1 ?r2" by (rule step_up)
  have list: "wait_list (sem ?r1) = [] @ 7 # []"
    by (simp add: account_def down_defs sema_init_def sem_sys.truncate_def down_common_def
        down_common_loop_def signal_pending_state_def task_state_defs MAX_SCHEDULE_TIMEOUT_def)
  have more: "released ?r2 > released ?r1" by (simp add: account_def)
  from semaphore_fifo [OF r1 list rtranclp.rtrancl_refl] obtain ps' qs' where q: "wait_list (sem ?r1) = ps' @ 7 # qs'"
    and after: "sem_step ?r1 ?r2 \<and> released ?r2 > released ?r1 \<longrightarrow>
      wait_list (sem ?r2) = tl (ps' @ 7 # qs') \<and> (\<exists>w. waiters ?r2 (hd (ps' @ [7])) = Some w \<and> up w)" by blast
  from q list have "ps' @ 7 # qs' = [7]" by (simp only: append_Nil)
  then have "ps' = []" "qs' = []" by (cases ps'; simp)+
  with after step more have "wait_list (sem ?r2) = [] \<and> (\<exists>w. waiters ?r2 7 = Some w \<and> up w)" by (simp only: append_Nil list.sel)
  with r1 step more list show ?thesis unfolding append_Nil by blast
qed

end
