(* ===== verification/Rwsem.thy ===== *)
theory Rwsem
  imports Kernel_Prelude
begin

text \<open>
  Read/write semaphores in the generic spinlock implementation the board's configuration
  selects, \<^verbatim>\<open>lib/rwsem-spinlock.c\<close>. Every function runs under \<^verbatim>\<open>sem->wait_lock\<close> until it returns
  or goes to sleep, so each is one function of the model; those that wake tasks also return the
  tasks whose \<^verbatim>\<open>waiter.task\<close> they cleared, in order. The sleeping loop of a blocked task ends when
  it finds that field cleared, the \<open>rw_run\<close> step of the interleaving model.
\<close>

section \<open>The semaphore\<close>

definition RWSEM_WAITING_FOR_READ :: u32 where "RWSEM_WAITING_FOR_READ = 1"
definition RWSEM_WAITING_FOR_WRITE :: u32 where "RWSEM_WAITING_FOR_WRITE = 2"

lemmas rwsem_flag_defs = RWSEM_WAITING_FOR_READ_def RWSEM_WAITING_FOR_WRITE_def

record rwsem_waiter =
  waiter_task :: tid
  waiter_flags :: u32

text \<open>The count is an integer; the \<^verbatim>\<open>__s32\<close> of the code wraps only with \<open>2 ^ 31\<close> tasks reading at once.\<close>

record rw_semaphore =
  activity :: int
  rw_wait_list :: "rwsem_waiter list"

definition init_rwsem :: rw_semaphore where
  "init_rwsem = \<lparr>activity = 0, rw_wait_list = []\<rparr>"

text \<open>The loop of \<^verbatim>\<open>__rwsem_do_wake\<close> that grants the readers at the front of the queue.\<close>

fun wake_readers :: "rwsem_waiter list \<Rightarrow> tid list \<times> rwsem_waiter list" where
  "wake_readers [] = ([], [])"
| "wake_readers (w # ws) =
     (if waiter_flags w AND RWSEM_WAITING_FOR_READ \<noteq> 0
      then (let (ts, rest) = wake_readers ws in (waiter_task w # ts, rest))
      else ([], w # ws))"

text \<open>Both wake functions are called with a non-empty list only; the empty case is never taken.\<close>

definition rwsem_do_wake :: "rw_semaphore \<Rightarrow> bool \<Rightarrow> rw_semaphore \<times> tid list" where
  "rwsem_do_wake sem wakewrite =
     (case rw_wait_list sem of
        [] \<Rightarrow> (sem, [])
      | w # ws \<Rightarrow>
          if waiter_flags w AND RWSEM_WAITING_FOR_WRITE \<noteq> 0 then
            if wakewrite then (sem\<lparr>activity := -1, rw_wait_list := ws\<rparr>, [waiter_task w])
            else (sem, [])
          else
            let (woken, rest) = wake_readers (w # ws)
            in (sem\<lparr>activity := activity sem + int (length woken), rw_wait_list := rest\<rparr>, woken))"

definition rwsem_wake_one_writer :: "rw_semaphore \<Rightarrow> rw_semaphore \<times> tid list" where
  "rwsem_wake_one_writer sem =
     (case rw_wait_list sem of
        [] \<Rightarrow> (sem\<lparr>activity := -1\<rparr>, [])
      | w # ws \<Rightarrow> (sem\<lparr>activity := -1, rw_wait_list := ws\<rparr>, [waiter_task w]))"

definition enqueue :: "rw_semaphore \<Rightarrow> tid \<Rightarrow> u32 \<Rightarrow> rw_semaphore" where
  "enqueue sem t flags =
     sem\<lparr>rw_wait_list := rw_wait_list sem @ [\<lparr>waiter_task = t, waiter_flags = flags\<rparr>]\<rparr>"

text \<open>The flag returned by the locking functions tells whether the lock was granted at once.\<close>

definition down_read :: "rw_semaphore \<Rightarrow> tid \<Rightarrow> rw_semaphore \<times> bool" where
  "down_read sem t =
     (if activity sem \<ge> 0 \<and> rw_wait_list sem = [] then (sem\<lparr>activity := activity sem + 1\<rparr>, True)
      else (enqueue sem t RWSEM_WAITING_FOR_READ, False))"

definition down_read_trylock :: "rw_semaphore \<Rightarrow> rw_semaphore \<times> bool" where
  "down_read_trylock sem =
     (if activity sem \<ge> 0 \<and> rw_wait_list sem = [] then (sem\<lparr>activity := activity sem + 1\<rparr>, True)
      else (sem, False))"

definition down_write :: "rw_semaphore \<Rightarrow> tid \<Rightarrow> rw_semaphore \<times> bool" where
  "down_write sem t =
     (if activity sem = 0 \<and> rw_wait_list sem = [] then (sem\<lparr>activity := -1\<rparr>, True)
      else (enqueue sem t RWSEM_WAITING_FOR_WRITE, False))"

definition down_write_trylock :: "rw_semaphore \<Rightarrow> rw_semaphore \<times> bool" where
  "down_write_trylock sem =
     (if activity sem = 0 \<and> rw_wait_list sem = [] then (sem\<lparr>activity := -1\<rparr>, True)
      else (sem, False))"

definition up_read :: "rw_semaphore \<Rightarrow> rw_semaphore \<times> tid list" where
  "up_read sem =
     (let sem' = sem\<lparr>activity := activity sem - 1\<rparr>
      in if activity sem' = 0 \<and> rw_wait_list sem' \<noteq> [] then rwsem_wake_one_writer sem' else (sem', []))"

definition up_write :: "rw_semaphore \<Rightarrow> rw_semaphore \<times> tid list" where
  "up_write sem =
     (let sem' = sem\<lparr>activity := 0\<rparr>
      in if rw_wait_list sem' \<noteq> [] then rwsem_do_wake sem' True else (sem', []))"

definition downgrade_write :: "rw_semaphore \<Rightarrow> rw_semaphore \<times> tid list" where
  "downgrade_write sem =
     (let sem' = sem\<lparr>activity := 1\<rparr>
      in if rw_wait_list sem' \<noteq> [] then rwsem_do_wake sem' False else (sem', []))"

section \<open>Tasks and interleavings\<close>

datatype mode = Read | Write

text \<open>What a task is doing: blocked in a locking call, granted the lock while still asleep, or
  past the locking call.\<close>

datatype rw_task = Idle | Blocked mode | Granted mode | Holding mode

record rw_sys =
  rwsem :: rw_semaphore
  task :: "tid \<Rightarrow> rw_task"

fun grant :: "rw_task \<Rightarrow> rw_task" where
  "grant (Blocked m) = Granted m"
| "grant x = x"

definition wake :: "tid list \<Rightarrow> (tid \<Rightarrow> rw_task) \<Rightarrow> tid \<Rightarrow> rw_task" where
  "wake ts f = (\<lambda>t. if t \<in> set ts then grant (f t) else f t)"

inductive rw_step :: "rw_sys \<Rightarrow> rw_sys \<Rightarrow> bool" where
  rw_down_read: "task s t = Idle \<Longrightarrow> down_read (rwsem s) t = (sem, ok) \<Longrightarrow>
     rw_step s \<lparr>rwsem = sem, task = (task s)(t := if ok then Holding Read else Blocked Read)\<rparr>"
| rw_down_write: "task s t = Idle \<Longrightarrow> down_write (rwsem s) t = (sem, ok) \<Longrightarrow>
     rw_step s \<lparr>rwsem = sem, task = (task s)(t := if ok then Holding Write else Blocked Write)\<rparr>"
| rw_try_read: "task s t = Idle \<Longrightarrow> down_read_trylock (rwsem s) = (sem, ok) \<Longrightarrow>
     rw_step s \<lparr>rwsem = sem, task = (task s)(t := if ok then Holding Read else Idle)\<rparr>"
| rw_try_write: "task s t = Idle \<Longrightarrow> down_write_trylock (rwsem s) = (sem, ok) \<Longrightarrow>
     rw_step s \<lparr>rwsem = sem, task = (task s)(t := if ok then Holding Write else Idle)\<rparr>"
| rw_run: "task s t = Granted m \<Longrightarrow> rw_step s (s\<lparr>task := (task s)(t := Holding m)\<rparr>)"
| rw_up_read: "task s t = Holding Read \<Longrightarrow> up_read (rwsem s) = (sem, ts) \<Longrightarrow>
     rw_step s \<lparr>rwsem = sem, task = wake ts ((task s)(t := Idle))\<rparr>"
| rw_up_write: "task s t = Holding Write \<Longrightarrow> up_write (rwsem s) = (sem, ts) \<Longrightarrow>
     rw_step s \<lparr>rwsem = sem, task = wake ts ((task s)(t := Idle))\<rparr>"
| rw_downgrade: "task s t = Holding Write \<Longrightarrow> downgrade_write (rwsem s) = (sem, ts) \<Longrightarrow>
     rw_step s \<lparr>rwsem = sem, task = wake ts ((task s)(t := Holding Read))\<rparr>"

definition rw_init :: "rw_sys \<Rightarrow> bool" where
  "rw_init s \<longleftrightarrow> s = \<lparr>rwsem = init_rwsem, task = (\<lambda>_. Idle)\<rparr>"

section \<open>Invariant\<close>

definition has :: "(tid \<Rightarrow> rw_task) \<Rightarrow> mode \<Rightarrow> tid set" where
  "has f m = {t. f t = Granted m \<or> f t = Holding m}"

definition mode_flags :: "mode \<Rightarrow> u32" where
  "mode_flags m = (case m of Read \<Rightarrow> RWSEM_WAITING_FOR_READ | Write \<Rightarrow> RWSEM_WAITING_FOR_WRITE)"

text \<open>The queue describes the blocked tasks.\<close>

definition queue_ok :: "rwsem_waiter list \<Rightarrow> (tid \<Rightarrow> rw_task) \<Rightarrow> bool" where
  "queue_ok ws f \<longleftrightarrow> distinct (map waiter_task ws)
     \<and> (\<forall>w \<in> set ws. \<exists>m. f (waiter_task w) = Blocked m \<and> waiter_flags w = mode_flags m)
     \<and> (\<forall>t m. f t = Blocked m \<longrightarrow> t \<in> waiter_task ` set ws)"

text \<open>The activity field counts the holders.\<close>

definition activity_ok :: "int \<Rightarrow> (tid \<Rightarrow> rw_task) \<Rightarrow> bool" where
  "activity_ok a f \<longleftrightarrow> finite (has f Read) \<and>
     (if a = -1 then has f Read = {} \<and> (\<exists>t. has f Write = {t})
      else has f Write = {} \<and> a = int (card (has f Read)))"

definition head_ok :: "rw_semaphore \<Rightarrow> bool" where
  "head_ok sem \<longleftrightarrow> (rw_wait_list sem \<noteq> [] \<longrightarrow> activity sem \<noteq> 0 \<and>
     (activity sem > 0 \<longrightarrow> waiter_flags (hd (rw_wait_list sem)) = RWSEM_WAITING_FOR_WRITE))"

definition rw_inv :: "rw_sys \<Rightarrow> bool" where
  "rw_inv s \<longleftrightarrow> queue_ok (rw_wait_list (rwsem s)) (task s) \<and> activity_ok (activity (rwsem s)) (task s)
     \<and> head_ok (rwsem s)"

lemma has_upd:
  "has (f(t := x)) m = (if x = Granted m \<or> x = Holding m then insert t (has f m) else has f m - {t})"
  by (auto simp: has_def)

lemma mode_flags_simps [simp]:
  "mode_flags Read = RWSEM_WAITING_FOR_READ" "mode_flags Write = RWSEM_WAITING_FOR_WRITE"
  by (simp_all add: mode_flags_def)

lemma flag_tests [simp]:
  "RWSEM_WAITING_FOR_READ \<noteq> 0" "RWSEM_WAITING_FOR_WRITE \<noteq> 0"
  "RWSEM_WAITING_FOR_WRITE AND RWSEM_WAITING_FOR_READ = 0"
  "RWSEM_WAITING_FOR_READ AND RWSEM_WAITING_FOR_WRITE = 0"
  "RWSEM_WAITING_FOR_WRITE \<noteq> RWSEM_WAITING_FOR_READ"
  "RWSEM_WAITING_FOR_READ \<noteq> RWSEM_WAITING_FOR_WRITE"
  by (simp_all add: rwsem_flag_defs)

lemma queue_ok_upd:
  assumes "queue_ok ws f" "\<forall>m. f t \<noteq> Blocked m" "\<forall>m. x \<noteq> Blocked m"
  shows "queue_ok ws (f(t := x))"
proof -
  have "t \<notin> waiter_task ` set ws" using assms(1,2) by (auto simp: queue_ok_def)
  then show ?thesis using assms by (auto simp: queue_ok_def)
qed

lemma queue_ok_enqueue:
  assumes "queue_ok ws f" "f t = Idle"
  shows "queue_ok (ws @ [\<lparr>waiter_task = t, waiter_flags = mode_flags m\<rparr>]) (f(t := Blocked m))"
proof -
  have "t \<notin> waiter_task ` set ws" using assms by (auto simp: queue_ok_def)
  then show ?thesis using assms by (auto simp: queue_ok_def)
qed

text \<open>Granting a prefix of the queue.\<close>

lemma has_wake: "has (wake ts f) m = has f m \<union> {t \<in> set ts. f t = Blocked m}"
proof -
  have "grant x = Granted m \<longleftrightarrow> x = Granted m \<or> x = Blocked m"
    "grant x = Holding m \<longleftrightarrow> x = Holding m" for x
    by (cases x; auto)+
  then show ?thesis by (auto simp: has_def wake_def)
qed

lemma queue_ok_wake:
  assumes "queue_ok (front @ rest) f"
  shows "queue_ok rest (wake (map waiter_task front) f)"
proof -
  have "grant x = Blocked m \<longleftrightarrow> False" for x m by (cases x) auto
  then show ?thesis using assms by (fastforce simp: queue_ok_def wake_def image_iff)
qed

lemma wake_readers_split:
  assumes "wake_readers ws = (ts, rest)"
  obtains front where "ws = front @ rest" "ts = map waiter_task front"
    "\<forall>w \<in> set front. waiter_flags w AND RWSEM_WAITING_FOR_READ \<noteq> 0"
    "rest \<noteq> [] \<longrightarrow> waiter_flags (hd rest) AND RWSEM_WAITING_FOR_READ = 0"
proof -
  have "\<exists>front. ws = front @ rest \<and> ts = map waiter_task front
      \<and> (\<forall>w \<in> set front. waiter_flags w AND RWSEM_WAITING_FOR_READ \<noteq> 0)
      \<and> (rest \<noteq> [] \<longrightarrow> waiter_flags (hd rest) AND RWSEM_WAITING_FOR_READ = 0)"
    using assms
  proof (induction ws arbitrary: ts)
    case Nil
    then show ?case by simp
  next
    case (Cons w ws)
    show ?case
    proof (cases "waiter_flags w AND RWSEM_WAITING_FOR_READ = 0")
      case True
      with Cons.prems show ?thesis by (intro exI [of _ "[]"]) auto
    next
      case False
      with Cons.prems obtain ts' where ts': "wake_readers ws = (ts', rest)" "ts = waiter_task w # ts'"
        by (auto split: prod.splits)
      from Cons.IH [OF ts'(1)] obtain front where "ws = front @ rest" "ts' = map waiter_task front"
          "\<forall>w \<in> set front. waiter_flags w AND RWSEM_WAITING_FOR_READ \<noteq> 0"
          "rest \<noteq> [] \<longrightarrow> waiter_flags (hd rest) AND RWSEM_WAITING_FOR_READ = 0"
        by blast
      with False ts' show ?thesis by (intro exI [of _ "w # front"]) auto
    qed
  qed
  then show thesis using that by blast
qed

lemma queue_flags:
  assumes "queue_ok ws f" "w \<in> set ws"
  shows "waiter_flags w AND RWSEM_WAITING_FOR_READ \<noteq> 0 \<longleftrightarrow> f (waiter_task w) = Blocked Read"
    and "waiter_flags w AND RWSEM_WAITING_FOR_WRITE \<noteq> 0 \<longleftrightarrow> f (waiter_task w) = Blocked Write"
    and "waiter_flags w AND RWSEM_WAITING_FOR_READ = 0 \<longleftrightarrow> waiter_flags w = RWSEM_WAITING_FOR_WRITE"
proof -
  from assms obtain m where "f (waiter_task w) = Blocked m" "waiter_flags w = mode_flags m"
    by (auto simp: queue_ok_def)
  then have "(waiter_flags w AND RWSEM_WAITING_FOR_READ \<noteq> 0 \<longleftrightarrow> f (waiter_task w) = Blocked Read)
      \<and> (waiter_flags w AND RWSEM_WAITING_FOR_WRITE \<noteq> 0 \<longleftrightarrow> f (waiter_task w) = Blocked Write)
      \<and> (waiter_flags w AND RWSEM_WAITING_FOR_READ = 0 \<longleftrightarrow> waiter_flags w = RWSEM_WAITING_FOR_WRITE)"
    by (cases m) simp_all
  then show "waiter_flags w AND RWSEM_WAITING_FOR_READ \<noteq> 0 \<longleftrightarrow> f (waiter_task w) = Blocked Read"
    "waiter_flags w AND RWSEM_WAITING_FOR_WRITE \<noteq> 0 \<longleftrightarrow> f (waiter_task w) = Blocked Write"
    "waiter_flags w AND RWSEM_WAITING_FOR_READ = 0 \<longleftrightarrow> waiter_flags w = RWSEM_WAITING_FOR_WRITE"
    by blast+
qed

lemma wake_writer_inv:
  assumes q: "queue_ok (w # ws) f" and "activity_ok 0 f"
    and "f (waiter_task w) = Blocked Write"
  shows "rw_inv \<lparr>rwsem = \<lparr>activity = -1, rw_wait_list = ws\<rparr>, task = wake [waiter_task w] f\<rparr>"
proof -
  have "queue_ok ws (wake [waiter_task w] f)" using queue_ok_wake [of "[w]" ws f] q by simp
  then show ?thesis using assms by (auto simp: rw_inv_def activity_ok_def head_ok_def has_wake)
qed

lemma wake_readers_inv:
  assumes q: "queue_ok ws f" and a: "activity_ok a f" "a \<ge> 0" and ws: "ws \<noteq> []"
    and hd: "f (waiter_task (hd ws)) = Blocked Read" and wr: "wake_readers ws = (ts, rest)"
  shows "rw_inv \<lparr>rwsem = \<lparr>activity = a + int (length ts), rw_wait_list = rest\<rparr>, task = wake ts f\<rparr>"
proof -
  from wr obtain front where front: "ws = front @ rest" "ts = map waiter_task front"
      "\<forall>w \<in> set front. waiter_flags w AND RWSEM_WAITING_FOR_READ \<noteq> 0"
      "rest \<noteq> [] \<longrightarrow> waiter_flags (hd rest) AND RWSEM_WAITING_FOR_READ = 0"
    by (rule wake_readers_split)
  have blocked: "f t = Blocked Read" if "t \<in> set ts" for t
    using that front q queue_flags(1) [of ws f] by auto
  have "front \<noteq> []"
  proof
    assume "front = []"
    with front ws have "waiter_flags (hd ws) AND RWSEM_WAITING_FOR_READ = 0" by simp
    then show False using queue_flags(1) [OF q, of "hd ws"] ws hd by simp
  qed
  then have pos: "0 < length ts" using front by simp
  have h: "has (wake ts f) Write = has f Write" "has (wake ts f) Read = has f Read \<union> set ts"
    using blocked by (auto simp: has_wake)
  have "has f Read \<inter> set ts = {}" using blocked by (auto simp: has_def)
  moreover have "card (set ts) = length ts"
    using q front by (intro distinct_card) (simp add: queue_ok_def)
  ultimately have "card (has f Read \<union> set ts) = card (has f Read) + length ts"
    using a by (simp add: card_Un_disjoint activity_ok_def)
  then have "activity_ok (a + int (length ts)) (wake ts f)"
    using a h by (auto simp: activity_ok_def)
  moreover have "waiter_flags (hd rest) = RWSEM_WAITING_FOR_WRITE" if "rest \<noteq> []"
    using queue_flags(3) [OF q, of "hd rest"] front that by simp
  moreover have "queue_ok rest (wake ts f)" using queue_ok_wake q front by simp
  moreover have "a + int (length ts) \<noteq> 0" using pos a by linarith
  ultimately show ?thesis by (simp add: rw_inv_def head_ok_def)
qed

lemma rwsem_do_wake_inv:
  assumes q: "queue_ok (rw_wait_list sem) f" and a: "activity_ok (activity sem) f"
    and ne: "rw_wait_list sem \<noteq> []"
    and ww: "if wakewrite then activity sem = 0 else activity sem > 0"
    and w: "rwsem_do_wake sem wakewrite = (sem', ts)"
  shows "rw_inv \<lparr>rwsem = sem', task = wake ts f\<rparr>"
proof -
  from ne obtain x xs where ws: "rw_wait_list sem = x # xs" by (cases "rw_wait_list sem") auto
  have nonneg: "activity sem \<ge> 0" using ww by (simp split: if_splits)
  show ?thesis
  proof (cases "f (waiter_task x) = Blocked Write")
    case True
    then have x: "waiter_flags x AND RWSEM_WAITING_FOR_WRITE \<noteq> 0"
        "waiter_flags x = RWSEM_WAITING_FOR_WRITE"
      using queue_flags [OF q, of x] ws by auto
    have stay: "wake [] f = f" by (simp add: wake_def)
    show ?thesis
    proof (cases wakewrite)
      case True
      with w x ws have "sem' = \<lparr>activity = -1, rw_wait_list = xs\<rparr>" "ts = [waiter_task x]"
        by (auto simp: rwsem_do_wake_def)
      then show ?thesis
        using wake_writer_inv [of x xs f] q a ww ws True \<open>f (waiter_task x) = Blocked Write\<close> by simp
    next
      case False
      with w x ws have "sem' = sem" "ts = []" by (auto simp: rwsem_do_wake_def)
      then show ?thesis using q a ww ws x False by (simp add: rw_inv_def head_ok_def stay)
    qed
  next
    case False
    then have x: "waiter_flags x AND RWSEM_WAITING_FOR_WRITE = 0" "f (waiter_task x) = Blocked Read"
      using queue_flags [OF q, of x] ws q by (auto simp: queue_ok_def)
    obtain ts' rest where wr: "wake_readers (x # xs) = (ts', rest)" by (cases "wake_readers (x # xs)")
    with w x ws have "sem' = \<lparr>activity = activity sem + int (length ts'), rw_wait_list = rest\<rparr>" "ts = ts'"
      by (auto simp: rwsem_do_wake_def simp del: wake_readers.simps)
    then show ?thesis
      using wake_readers_inv [OF q a nonneg ne _ wr [folded ws]] ws x by simp
  qed
qed

lemma activity_has:
  assumes "activity_ok a f"
  shows "t \<in> has f Write \<Longrightarrow> a = -1 \<and> has f Write = {t} \<and> has f Read = {}"
    and "t \<in> has f Read \<Longrightarrow> a = int (card (has f Read)) \<and> a > 0 \<and> has f Write = {}"
  using assms by (auto simp: activity_ok_def card_gt_0_iff split: if_splits)

lemma rw_invE:
  assumes "rw_inv s"
  obtains "queue_ok (rw_wait_list (rwsem s)) (task s)" "activity_ok (activity (rwsem s)) (task s)"
    "head_ok (rwsem s)"
  using assms by (simp add: rw_inv_def)

lemma rw_inv_eta [simp]: "rw_inv \<lparr>rwsem = rwsem s, task = task s\<rparr> = rw_inv s"
  by (simp add: rw_inv_def)

lemma wake_none [simp]: "wake [] f = f"
  by (simp add: wake_def)

text \<open>The locking functions, granting or enqueueing.\<close>

lemma grant_read_inv:
  assumes inv: "rw_inv s" and idle: "task s t = Idle"
    and free: "activity (rwsem s) \<ge> 0" "rw_wait_list (rwsem s) = []"
  shows "rw_inv \<lparr>rwsem = (rwsem s)\<lparr>activity := activity (rwsem s) + 1\<rparr>,
      task = (task s)(t := Holding Read)\<rparr>"
  using inv
proof (rule rw_invE)
  assume "queue_ok (rw_wait_list (rwsem s)) (task s)" "activity_ok (activity (rwsem s)) (task s)"
  moreover have "t \<notin> has (task s) Read" "t \<notin> has (task s) Write"
    using idle by (simp_all add: has_def)
  ultimately show ?thesis
    using queue_ok_upd [of _ "task s" t "Holding Read"] idle free
    by (simp add: rw_inv_def activity_ok_def head_ok_def has_upd)
qed

lemma grant_write_inv:
  assumes inv: "rw_inv s" and idle: "task s t = Idle"
    and free: "activity (rwsem s) = 0" "rw_wait_list (rwsem s) = []"
  shows "rw_inv \<lparr>rwsem = (rwsem s)\<lparr>activity := -1\<rparr>, task = (task s)(t := Holding Write)\<rparr>"
  using inv
proof (rule rw_invE)
  assume "queue_ok (rw_wait_list (rwsem s)) (task s)" "activity_ok (activity (rwsem s)) (task s)"
  moreover have "t \<notin> has (task s) Read" "t \<notin> has (task s) Write"
    using idle by (simp_all add: has_def)
  ultimately show ?thesis
    using queue_ok_upd [of _ "task s" t "Holding Write"] idle free
    by (auto simp: rw_inv_def activity_ok_def head_ok_def has_upd)
qed

lemma enqueue_inv:
  assumes inv: "rw_inv s" and idle: "task s t = Idle"
    and busy: "\<not> (activity (rwsem s) = 0 \<and> rw_wait_list (rwsem s) = [])"
      "m = Read \<Longrightarrow> \<not> (activity (rwsem s) \<ge> 0 \<and> rw_wait_list (rwsem s) = [])"
  shows "rw_inv \<lparr>rwsem = enqueue (rwsem s) t (mode_flags m), task = (task s)(t := Blocked m)\<rparr>"
  using inv
proof (rule rw_invE)
  assume q: "queue_ok (rw_wait_list (rwsem s)) (task s)" and a: "activity_ok (activity (rwsem s)) (task s)"
    and h: "head_ok (rwsem s)"
  have "t \<notin> has (task s) Read" "t \<notin> has (task s) Write" using idle by (simp_all add: has_def)
  then have "activity_ok (activity (rwsem s)) ((task s)(t := Blocked m))"
    using a by (simp add: activity_ok_def has_upd)
  moreover have "head_ok (enqueue (rwsem s) t (mode_flags m))"
    using h busy by (cases m) (auto simp: head_ok_def enqueue_def hd_append)
  ultimately show ?thesis
    using queue_ok_enqueue [OF q idle, of m] by (simp add: rw_inv_def enqueue_def)
qed

text \<open>The unlocking functions.\<close>

lemma up_read_inv:
  assumes inv: "rw_inv s" and t: "task s t = Holding Read" and up: "up_read (rwsem s) = (sem, ts)"
  shows "rw_inv \<lparr>rwsem = sem, task = wake ts ((task s)(t := Idle))\<rparr>"
  using inv
proof (rule rw_invE)
  assume q: "queue_ok (rw_wait_list (rwsem s)) (task s)" and a: "activity_ok (activity (rwsem s)) (task s)"
    and h: "head_ok (rwsem s)"
  let ?f = "(task s)(t := Idle)" and ?a = "activity (rwsem s) - 1" and ?ws = "rw_wait_list (rwsem s)"
  have t': "t \<in> has (task s) Read" using t by (simp add: has_def)
  from activity_has(2) [OF a t'] have pos: "activity (rwsem s) > 0"
      and r: "activity (rwsem s) = int (card (has (task s) Read))" "has (task s) Write = {}"
    by auto
  have fin: "finite (has (task s) Read)" using a by (simp add: activity_ok_def)
  then have "card (has (task s) Read) = Suc (card (has (task s) Read - {t}))"
    using t' by (metis card_Suc_Diff1)
  then have fa: "activity_ok ?a ?f" using r fin by (simp add: activity_ok_def has_upd)
  have fq: "queue_ok ?ws ?f" using queue_ok_upd [OF q, of t Idle] t by simp
  show ?thesis
  proof (cases "?a = 0 \<and> ?ws \<noteq> []")
    case True
    then obtain w ws where ws: "?ws = w # ws" by (cases ?ws) auto
    with up True have r: "sem = \<lparr>activity = -1, rw_wait_list = ws\<rparr>" "ts = [waiter_task w]"
      by (auto simp: up_read_def rwsem_wake_one_writer_def Let_def)
    have "waiter_flags w = RWSEM_WAITING_FOR_WRITE" using h pos ws by (simp add: head_ok_def)
    then have "?f (waiter_task w) = Blocked Write"
      using queue_flags(2) [OF fq, of w] ws by simp
    then show ?thesis using wake_writer_inv [of w ws ?f] fq fa True ws r by simp
  next
    case False
    with up have "sem = (rwsem s)\<lparr>activity := ?a\<rparr>" "ts = []"
      by (auto simp: up_read_def Let_def)
    then show ?thesis using fq fa h pos False by (auto simp: rw_inv_def head_ok_def)
  qed
qed

lemma up_write_inv:
  assumes inv: "rw_inv s" and t: "task s t = Holding Write" and up: "up_write (rwsem s) = (sem, ts)"
  shows "rw_inv \<lparr>rwsem = sem, task = wake ts ((task s)(t := Idle))\<rparr>"
  using inv
proof (rule rw_invE)
  assume q: "queue_ok (rw_wait_list (rwsem s)) (task s)" and a: "activity_ok (activity (rwsem s)) (task s)"
  let ?f = "(task s)(t := Idle)" and ?sem = "(rwsem s)\<lparr>activity := 0\<rparr>"
  have "t \<in> has (task s) Write" using t by (simp add: has_def)
  from activity_has(1) [OF a this] have fa: "activity_ok 0 ?f" by (simp add: activity_ok_def has_upd)
  have fq: "queue_ok (rw_wait_list ?sem) ?f" using queue_ok_upd [OF q, of t Idle] t by simp
  show ?thesis
  proof (cases "rw_wait_list (rwsem s) = []")
    case True
    with up have "sem = ?sem" "ts = []" by (auto simp: up_write_def)
    then show ?thesis using fq fa True by (simp add: rw_inv_def head_ok_def)
  next
    case False
    with up have "rwsem_do_wake ?sem True = (sem, ts)" by (simp add: up_write_def)
    from rwsem_do_wake_inv [OF fq _ _ _ this] fa False show ?thesis by simp
  qed
qed

lemma downgrade_write_inv:
  assumes inv: "rw_inv s" and t: "task s t = Holding Write" and up: "downgrade_write (rwsem s) = (sem, ts)"
  shows "rw_inv \<lparr>rwsem = sem, task = wake ts ((task s)(t := Holding Read))\<rparr>"
  using inv
proof (rule rw_invE)
  assume q: "queue_ok (rw_wait_list (rwsem s)) (task s)" and a: "activity_ok (activity (rwsem s)) (task s)"
  let ?f = "(task s)(t := Holding Read)" and ?sem = "(rwsem s)\<lparr>activity := 1\<rparr>"
  have "t \<in> has (task s) Write" using t by (simp add: has_def)
  from activity_has(1) [OF a this] have fa: "activity_ok 1 ?f" by (simp add: activity_ok_def has_upd)
  have fq: "queue_ok (rw_wait_list ?sem) ?f" using queue_ok_upd [OF q, of t "Holding Read"] t by simp
  show ?thesis
  proof (cases "rw_wait_list (rwsem s) = []")
    case True
    with up have "sem = ?sem" "ts = []" by (auto simp: downgrade_write_def)
    then show ?thesis using fq fa True by (simp add: rw_inv_def head_ok_def)
  next
    case False
    with up have "rwsem_do_wake ?sem False = (sem, ts)" by (simp add: downgrade_write_def)
    from rwsem_do_wake_inv [OF fq _ _ _ this] fa False show ?thesis by simp
  qed
qed

lemma rw_run_inv:
  assumes "rw_inv s" "task s t = Granted m"
  shows "rw_inv (s\<lparr>task := (task s)(t := Holding m)\<rparr>)"
  using assms(1)
proof (rule rw_invE)
  assume q: "queue_ok (rw_wait_list (rwsem s)) (task s)" and a: "activity_ok (activity (rwsem s)) (task s)"
    and h: "head_ok (rwsem s)"
  have "has ((task s)(t := Holding m)) m' = has (task s) m'" for m'
    using assms(2) by (auto simp: has_def)
  then show ?thesis
    using queue_ok_upd [OF q, of t "Holding m"] a h assms(2) by (simp add: rw_inv_def activity_ok_def)
qed

lemma rw_inv_step:
  assumes inv: "rw_inv s" and "rw_step s s'"
  shows "rw_inv s'"
  using assms(2)
proof cases
  case (rw_down_read t sem ok)
  then show ?thesis
    using grant_read_inv [OF inv, of t] enqueue_inv [OF inv, of t Read]
    by (auto simp: down_read_def split: if_splits)
next
  case (rw_down_write t sem ok)
  then show ?thesis
    using grant_write_inv [OF inv, of t] enqueue_inv [OF inv, of t Write]
    by (auto simp: down_write_def split: if_splits)
next
  case (rw_try_read t sem ok)
  moreover have "(task s)(t := Idle) = task s" using rw_try_read by auto
  ultimately show ?thesis
    using grant_read_inv [OF inv, of t] inv by (auto simp: down_read_trylock_def split: if_splits)
next
  case (rw_try_write t sem ok)
  moreover have "(task s)(t := Idle) = task s" using rw_try_write by auto
  ultimately show ?thesis
    using grant_write_inv [OF inv, of t] inv by (auto simp: down_write_trylock_def split: if_splits)
qed (auto intro: up_read_inv [OF inv] up_write_inv [OF inv] downgrade_write_inv [OF inv] rw_run_inv [OF inv])

interpretation rwsems: invariant_system rw_init rw_step rw_inv
proof
  show "rw_inv s" if "rw_init s" for s
    using that
    by (simp add: rw_init_def rw_inv_def queue_ok_def activity_ok_def head_ok_def has_def init_rwsem_def)
qed (rule rw_inv_step)

section \<open>Queue order\<close>

text \<open>A wake-up takes tasks off the front of the queue only.\<close>

lemma rwsem_do_wake_order:
  "rwsem_do_wake sem ww = (sem', ts) \<Longrightarrow>
     \<exists>front. rw_wait_list sem = front @ rw_wait_list sem' \<and> ts = map waiter_task front"
  by (auto simp: rwsem_do_wake_def split: list.splits if_splits prod.splits
      simp del: wake_readers.simps elim!: wake_readers_split)

lemma unlock_order:
  "up_read sem = (sem', ts) \<or> up_write sem = (sem', ts) \<or> downgrade_write sem = (sem', ts) \<Longrightarrow>
     \<exists>front. rw_wait_list sem = front @ rw_wait_list sem' \<and> ts = map waiter_task front"
  using rwsem_do_wake_order [of "sem\<lparr>activity := 0\<rparr>" True sem' ts]
    rwsem_do_wake_order [of "sem\<lparr>activity := 1\<rparr>" False sem' ts]
  by (auto simp: up_read_def up_write_def downgrade_write_def rwsem_wake_one_writer_def Let_def
      split: if_splits list.splits)

lemma unblocked_by_wake:
  assumes q: "queue_ok ws f" and ts: "set ts \<subseteq> waiter_task ` set ws" and t: "\<nexists>m. f t = Blocked m"
  shows "{u. (\<exists>m. f u = Blocked m) \<and> (\<nexists>m. wake ts (f(t := x)) u = Blocked m)} = set ts"
proof -
  have "grant y = Blocked m \<longleftrightarrow> False" for y m by (cases y) auto
  moreover have "\<exists>m. f u = Blocked m" if "u \<in> set ts" for u
  proof -
    from that ts obtain w where "w \<in> set ws" "u = waiter_task w" by auto
    with q show ?thesis by (auto simp: queue_ok_def)
  qed
  ultimately show ?thesis using t by (auto simp: wake_def)
qed

section \<open>Properties\<close>

text \<open>
  C4. In every interleaving of the locking, trylock, unlocking and downgrading calls, a task
  that holds the lock for writing (or has been granted it) excludes every other holder, and
  the \<open>activity\<close> field is -1 then and the number of readers otherwise.
\<close>

theorem rwsem_exclusion:
  assumes "reach rw_init rw_step s" and "t \<in> has (task s) Write"
  shows "has (task s) Write = {t} \<and> has (task s) Read = {} \<and> activity (rwsem s) = -1"
proof -
  have "activity_ok (activity (rwsem s)) (task s)"
    using rwsems.reach_inv [OF assms(1)] by (simp add: rw_inv_def)
  from activity_has(1) [OF this assms(2)] show ?thesis by simp
qed

theorem rwsem_exclusion_witness:
  "\<exists>s. reach rw_init rw_step s \<and> 3 \<in> has (task s) Write \<and> task s 4 = Blocked Read
     \<and> has (task s) Read = {}"
proof -
  let ?s0 = "\<lparr>rwsem = init_rwsem, task = (\<lambda>_. Idle)\<rparr>"
  let ?s1 = "\<lparr>rwsem = \<lparr>activity = -1, rw_wait_list = []\<rparr>, task = (\<lambda>_. Idle)(3 := Holding Write)\<rparr>"
  let ?s2 = "\<lparr>rwsem = \<lparr>activity = -1, rw_wait_list = [\<lparr>waiter_task = 4, waiter_flags = RWSEM_WAITING_FOR_READ\<rparr>]\<rparr>,
    task = (\<lambda>_. Idle)(3 := Holding Write, 4 := Blocked Read)\<rparr>"
  have "reach rw_init rw_step ?s0" by (rule reach_init) (simp add: rw_init_def)
  moreover have "rw_step ?s0 ?s1"
    using rw_down_write [of ?s0 3 "\<lparr>activity = -1, rw_wait_list = []\<rparr>" True]
    by (simp add: down_write_def init_rwsem_def)
  moreover have "rw_step ?s1 ?s2"
    using rw_down_read [of ?s1 4 "rwsem ?s2" False] by (simp add: down_read_def enqueue_def)
  ultimately have r: "reach rw_init rw_step ?s2" by (blast intro: reach_step)
  from rwsem_exclusion [OF r, of 3] r show ?thesis
    by (intro exI [of _ ?s2]) (simp add: has_def)
qed

text \<open>
  C21. No wake-up is lost: whenever a task is blocked, some other task holds the lock or has been
  granted it, so its unlock is still to come; the first in the queue is then a writer unless a
  writer holds the lock. Every blocked task is in the queue exactly once with its own mode.
\<close>

theorem rwsem_no_lost_wakeup:
  assumes "reach rw_init rw_step s" and "task s t = Blocked m"
  shows "has (task s) Read \<union> has (task s) Write \<noteq> {}
     \<and> \<lparr>waiter_task = t, waiter_flags = mode_flags m\<rparr> \<in> set (rw_wait_list (rwsem s))
     \<and> distinct (map waiter_task (rw_wait_list (rwsem s)))
     \<and> (has (task s) Write = {} \<longrightarrow> waiter_flags (hd (rw_wait_list (rwsem s))) = RWSEM_WAITING_FOR_WRITE)"
proof -
  from rwsems.reach_inv [OF assms(1)] have q: "queue_ok (rw_wait_list (rwsem s)) (task s)"
      and a: "activity_ok (activity (rwsem s)) (task s)" and h: "head_ok (rwsem s)"
    by (simp_all add: rw_inv_def)
  from q assms(2) obtain w where w: "w \<in> set (rw_wait_list (rwsem s))" "waiter_task w = t"
    by (auto simp: queue_ok_def)
  with q assms(2) have "waiter_flags w = mode_flags m" by (auto simp: queue_ok_def)
  with w have "w = \<lparr>waiter_task = t, waiter_flags = mode_flags m\<rparr>" by simp
  moreover have "rw_wait_list (rwsem s) \<noteq> []" using w by auto
  with h have busy: "activity (rwsem s) \<noteq> 0" and first: "activity (rwsem s) > 0 \<longrightarrow>
      waiter_flags (hd (rw_wait_list (rwsem s))) = RWSEM_WAITING_FOR_WRITE"
    by (simp_all add: head_ok_def)
  moreover have "has (task s) Read \<union> has (task s) Write \<noteq> {}"
    using a busy by (auto simp: activity_ok_def split: if_splits)
  moreover have "activity (rwsem s) > 0" if "has (task s) Write = {}"
    using a busy that by (auto simp: activity_ok_def split: if_splits)
  ultimately show ?thesis using q w by (auto simp: queue_ok_def)
qed

theorem rwsem_no_lost_wakeup_witness:
  "\<exists>s. reach rw_init rw_step s \<and> task s 4 = Blocked Write \<and> has (task s) Read \<union> has (task s) Write \<noteq> {}"
proof -
  let ?s0 = "\<lparr>rwsem = init_rwsem, task = (\<lambda>_. Idle)\<rparr>"
  let ?s1 = "\<lparr>rwsem = \<lparr>activity = 1, rw_wait_list = []\<rparr>, task = (\<lambda>_. Idle)(3 := Holding Read)\<rparr>"
  let ?s2 = "\<lparr>rwsem = \<lparr>activity = 1, rw_wait_list = [\<lparr>waiter_task = 4, waiter_flags = RWSEM_WAITING_FOR_WRITE\<rparr>]\<rparr>,
    task = (\<lambda>_. Idle)(3 := Holding Read, 4 := Blocked Write)\<rparr>"
  have "reach rw_init rw_step ?s0" by (rule reach_init) (simp add: rw_init_def)
  moreover have "rw_step ?s0 ?s1"
    using rw_down_read [of ?s0 3 "\<lparr>activity = 1, rw_wait_list = []\<rparr>" True]
    by (simp add: down_read_def init_rwsem_def)
  moreover have "rw_step ?s1 ?s2"
    using rw_down_write [of ?s1 4 "rwsem ?s2" False] by (simp add: down_write_def enqueue_def)
  ultimately have r: "reach rw_init rw_step ?s2" by (blast intro: reach_step)
  from rwsem_no_lost_wakeup [OF r, of 4 Write] r show ?thesis by (intro exI [of _ ?s2]) simp
qed

text \<open>
  The lock is fair: a step from any state either leaves the queue as it is, adds the calling
  task at its end, or takes tasks off its front, and the tasks taken off are exactly the blocked
  tasks that the step grants the lock.
\<close>

theorem rwsem_fifo:
  assumes "reach rw_init rw_step s" and "rw_step s s'"
  shows "\<exists>front. (rw_wait_list (rwsem s) = front @ rw_wait_list (rwsem s')
       \<or> front = [] \<and> (\<exists>w. rw_wait_list (rwsem s') = rw_wait_list (rwsem s) @ [w]))
     \<and> {t. (\<exists>m. task s t = Blocked m) \<and> (\<nexists>m. task s' t = Blocked m)} = waiter_task ` set front"
proof -
  have q: "queue_ok (rw_wait_list (rwsem s)) (task s)"
    using rwsems.reach_inv [OF assms(1)] by (simp add: rw_inv_def)
  have unlock: ?thesis if "rw_wait_list (rwsem s) = front @ rw_wait_list sem" "ts = map waiter_task front"
      "\<nexists>m. task s t = Blocked m" "s' = \<lparr>rwsem = sem, task = wake ts ((task s)(t := x))\<rparr>"
    for front sem ts t x
    using that unblocked_by_wake [OF q, of ts t x] by (intro exI [of _ front]) auto
  from assms(2) show ?thesis
  proof cases
    case (rw_down_read t sem ok)
    then show ?thesis by (intro exI [of _ "[]"]) (auto simp: down_read_def enqueue_def split: if_splits)
  next
    case (rw_down_write t sem ok)
    then show ?thesis by (intro exI [of _ "[]"]) (auto simp: down_write_def enqueue_def split: if_splits)
  next
    case (rw_try_read t sem ok)
    then show ?thesis by (intro exI [of _ "[]"]) (auto simp: down_read_trylock_def split: if_splits)
  next
    case (rw_try_write t sem ok)
    then show ?thesis by (intro exI [of _ "[]"]) (auto simp: down_write_trylock_def split: if_splits)
  next
    case (rw_run t m)
    then show ?thesis by (intro exI [of _ "[]"]) (auto split: if_splits)
  next
    case (rw_up_read t sem ts)
    then show ?thesis using unlock_order [of "rwsem s" sem ts] unlock by force
  next
    case (rw_up_write t sem ts)
    then show ?thesis using unlock_order [of "rwsem s" sem ts] unlock by force
  next
    case (rw_downgrade t sem ts)
    then show ?thesis using unlock_order [of "rwsem s" sem ts] unlock by force
  qed
qed

theorem rwsem_fifo_witness:
  "\<exists>s s'. reach rw_init rw_step s \<and> rw_step s s'
     \<and> {t. (\<exists>m. task s t = Blocked m) \<and> (\<nexists>m. task s' t = Blocked m)} = {4}"
proof -
  let ?w = "\<lparr>waiter_task = 4, waiter_flags = RWSEM_WAITING_FOR_READ\<rparr>"
  let ?s0 = "\<lparr>rwsem = init_rwsem, task = (\<lambda>_. Idle)\<rparr>"
  let ?s1 = "\<lparr>rwsem = \<lparr>activity = -1, rw_wait_list = []\<rparr>, task = (\<lambda>_. Idle)(3 := Holding Write)\<rparr>"
  let ?s2 = "\<lparr>rwsem = \<lparr>activity = -1, rw_wait_list = [?w]\<rparr>,
    task = (\<lambda>_. Idle)(3 := Holding Write, 4 := Blocked Read)\<rparr>"
  let ?s3 = "\<lparr>rwsem = \<lparr>activity = 1, rw_wait_list = []\<rparr>, task = wake [4] ((task ?s2)(3 := Idle))\<rparr>"
  have "reach rw_init rw_step ?s0" by (rule reach_init) (simp add: rw_init_def)
  moreover have "rw_step ?s0 ?s1"
    using rw_down_write [of ?s0 3 "\<lparr>activity = -1, rw_wait_list = []\<rparr>" True]
    by (simp add: down_write_def init_rwsem_def)
  moreover have "rw_step ?s1 ?s2"
    using rw_down_read [of ?s1 4 "rwsem ?s2" False] by (simp add: down_read_def enqueue_def)
  ultimately have r: "reach rw_init rw_step ?s2" by (blast intro: reach_step)
  have st: "rw_step ?s2 ?s3"
    by (rule rw_up_write) (simp_all add: up_write_def rwsem_do_wake_def)
  from rwsem_fifo [OF r st] obtain front where
    front: "rw_wait_list (rwsem ?s2) = front @ rw_wait_list (rwsem ?s3)
        \<or> front = [] \<and> (\<exists>w. rw_wait_list (rwsem ?s3) = rw_wait_list (rwsem ?s2) @ [w])"
      and f: "{t. (\<exists>m. task ?s2 t = Blocked m) \<and> (\<nexists>m. task ?s3 t = Blocked m)} = waiter_task ` set front"
    by blast
  from front have "front = [?w]" by simp
  with f have "{t. (\<exists>m. task ?s2 t = Blocked m) \<and> (\<nexists>m. task ?s3 t = Blocked m)} = {4}"
    by simp
  with r st show ?thesis by blast
qed

end
