(* ===== verification/Skbuff.thy ===== *)
theory Skbuff
  imports Kernel_Prelude
begin

text \<open>
  Packet buffers as the socket filter reads them: \<^verbatim>\<open>skb_copy_bits\<close> of \<^verbatim>\<open>net/core/skbuff.c\<close> and
  \<^verbatim>\<open>skb_header_pointer\<close> of \<^verbatim>\<open>include/linux/skbuff.h\<close>. A buffer has a linear part, page fragments and
  a list of further buffers; the pointers of the C structure into the linear part are offsets
  from \<^verbatim>\<open>skb->head\<close>. A read outside the memory it addresses is an outcome of its own.
\<close>

section \<open>Data\<close>

record frag =
  page :: "u8 list"
  page_offset :: nat
  frag_size :: nat

datatype sk_buff = Skb
  (linear: "u8 list")        \<comment> \<open>the memory from \<^verbatim>\<open>head\<close> to \<^verbatim>\<open>end\<close>\<close>
  (data_off: nat)            \<comment> \<open>\<^verbatim>\<open>data - head\<close>\<close>
  (network_off: nat)         \<comment> \<open>\<^verbatim>\<open>skb_network_header() - head\<close>\<close>
  (mac_off: nat)             \<comment> \<open>\<^verbatim>\<open>skb_mac_header() - head\<close>\<close>
  (skb_len: nat)
  (data_len: nat)
  (frags: "frag list")
  (frag_list: "sk_buff list")
  (protocol: u16)
  (pkt_type: u8)
  (dev_ifindex: "u32 option") \<comment> \<open>the interface index of \<^verbatim>\<open>skb->dev\<close>, if it is set\<close>
  (cloned: bool)             \<comment> \<open>\<^verbatim>\<open>skb_cloned()\<close>: the data is shared with another buffer\<close>
  (shared: bool)             \<comment> \<open>\<^verbatim>\<open>skb_shared()\<close>: the buffer itself has another owner\<close>

definition skb_headlen :: "sk_buff \<Rightarrow> int" where
  "skb_headlen s = int (skb_len s) - int (data_len s)"

text \<open>\<^verbatim>\<open>skb_tail_pointer() - head\<close>\<close>

definition tail_off :: "sk_buff \<Rightarrow> int" where
  "tail_off s = int (data_off s) + skb_headlen s"

definition skb_is_nonlinear :: "sk_buff \<Rightarrow> bool" where
  "skb_is_nonlinear s \<longleftrightarrow> data_len s \<noteq> 0"

text \<open>Bytes \<open>i\<close> up to \<open>i + n\<close> of a piece of memory, if it has them.\<close>

definition slice :: "u8 list \<Rightarrow> int \<Rightarrow> int \<Rightarrow> u8 list option" where
  "slice m i n = (if 0 \<le> i \<and> 0 \<le> n \<and> i + n \<le> int (length m) then Some (take (nat n) (drop (nat i) m)) else None)"

datatype copy_result = Copied "u8 list" | CopyFault | OutOfMemory

section \<open>Copying bytes out of a buffer\<close>

text \<open>
  The loop over the page fragments: either the copy ends here (\<open>Inl\<close>) or the walk goes on with
  the new start, offset, remaining length and bytes so far.
\<close>

fun copy_frags :: "frag list \<Rightarrow> int \<Rightarrow> int \<Rightarrow> int \<Rightarrow> u8 list
    \<Rightarrow> copy_result + (int \<times> int \<times> int \<times> u8 list)" where
  "copy_frags [] start offset len acc = Inr (start, offset, len, acc)"
| "copy_frags (f # fs) start offset len acc =
     (let end' = start + int (frag_size f); avail = end' - offset in
      if avail > 0 then
        let copy = (if avail > len then len else avail) in
        case slice (page f) (int (page_offset f) + offset - start) copy of
          None \<Rightarrow> Inl OutOfMemory
        | Some bs \<Rightarrow>
            if len - copy = 0 then Inl (Copied (acc @ bs))
            else copy_frags fs end' (offset + copy) (len - copy) (acc @ bs)
      else copy_frags fs end' offset len acc)"

fun skb_copy_bits :: "sk_buff \<Rightarrow> int \<Rightarrow> int \<Rightarrow> copy_result"
and copy_walk :: "sk_buff list \<Rightarrow> int \<Rightarrow> int \<Rightarrow> int \<Rightarrow> u8 list \<Rightarrow> copy_result" where
  "skb_copy_bits (Skb lin data nw mac slen dlen frs fl proto pt dev cl sh) offset len =
     (let start = int slen - int dlen; avail = start - offset in
      if offset > int slen - len then CopyFault
      else if avail > 0 then
        let copy = (if avail > len then len else avail) in
        case slice lin (int data + offset) copy of
          None \<Rightarrow> OutOfMemory
        | Some bs \<Rightarrow>
            if len - copy = 0 then Copied bs
            else case copy_frags frs start (offset + copy) (len - copy) bs of
                Inl r \<Rightarrow> r
              | Inr (start', offset', len', acc) \<Rightarrow> copy_walk fl start' offset' len' acc
      else case copy_frags frs start offset len [] of
          Inl r \<Rightarrow> r
        | Inr (start', offset', len', acc) \<Rightarrow> copy_walk fl start' offset' len' acc)"
| "copy_walk [] start offset len acc = (if len = 0 then Copied acc else CopyFault)"
| "copy_walk (s # ss) start offset len acc =
     (let end' = start + int (skb_len s); avail = end' - offset in
      if avail > 0 then
        let copy = (if avail > len then len else avail) in
        case skb_copy_bits s (offset - start) copy of
          CopyFault \<Rightarrow> CopyFault
        | OutOfMemory \<Rightarrow> OutOfMemory
        | Copied bs \<Rightarrow>
            if len - copy = 0 then Copied (acc @ bs)
            else copy_walk ss end' (offset + copy) (len - copy) (acc @ bs)
      else copy_walk ss end' offset len acc)"

text \<open>\<^verbatim>\<open>skb_header_pointer\<close>, with the bytes the returned pointer gives access to: the packet's own
  memory when the linear part has them, a copy otherwise.\<close>

definition skb_header_pointer :: "sk_buff \<Rightarrow> int \<Rightarrow> int \<Rightarrow> copy_result" where
  "skb_header_pointer s offset len =
     (if skb_headlen s - offset \<ge> len then
        (case slice (linear s) (int (data_off s) + offset) len of
           None \<Rightarrow> OutOfMemory | Some bs \<Rightarrow> Copied bs)
      else skb_copy_bits s offset len)"

section \<open>Growing and cutting a buffer\<close>

text \<open>The buffer with new linear memory, data pointer and length.\<close>

definition with_linear :: "sk_buff \<Rightarrow> u8 list \<Rightarrow> nat \<Rightarrow> nat \<Rightarrow> sk_buff" where
  "with_linear s lin data len = Skb lin data (network_off s) (mac_off s) len (data_len s) (frags s)
     (frag_list s) (protocol s) (pkt_type s) (dev_ifindex s) (cloned s) (shared s)"

definition skb_tailroom :: "sk_buff \<Rightarrow> int" where
  "skb_tailroom s = (if skb_is_nonlinear s then 0 else int (length (linear s)) - tail_off s)"

text \<open>\<^verbatim>\<open>skb_put\<close>: the offset of the new room and the longer buffer; \<^verbatim>\<open>SKB_LINEAR_ASSERT\<close> and
  \<^verbatim>\<open>skb_over_panic\<close> are \<^const>\<open>None\<close>.\<close>

definition skb_put :: "sk_buff \<Rightarrow> nat \<Rightarrow> (int \<times> sk_buff) option" where
  "skb_put s n =
     (if skb_is_nonlinear s then None
      else if tail_off s + int n > int (length (linear s)) then None
      else Some (tail_off s, with_linear s (linear s) (data_off s) (skb_len s + n)))"

definition skb_push :: "sk_buff \<Rightarrow> nat \<Rightarrow> (nat \<times> sk_buff) option" where
  "skb_push s n =
     (if data_off s < n then None
      else Some (data_off s - n, with_linear s (linear s) (data_off s - n) (skb_len s + n)))"

text \<open>\<^verbatim>\<open>skb_pull\<close> returns no pointer (\<open>Inl ()\<close>) when the buffer is shorter, and hits the
  \<^verbatim>\<open>BUG_ON\<close> of \<^verbatim>\<open>__skb_pull\<close> (\<^const>\<open>None\<close>) when the linear part is.\<close>

definition skb_pull :: "sk_buff \<Rightarrow> nat \<Rightarrow> (unit + nat \<times> sk_buff) option" where
  "skb_pull s n =
     (if n > skb_len s then Some (Inl ())
      else if skb_len s - n < data_len s then None
      else Some (Inr (data_off s + n, with_linear s (linear s) (data_off s + n) (skb_len s - n))))"


fun skb_clone :: "sk_buff \<Rightarrow> sk_buff" where
  "skb_clone (Skb lin data nw mac slen dlen frs fl proto pt dev cl sh) =
     Skb lin data nw mac slen dlen frs fl proto pt dev True False"

lemma size_skb_clone [termination_simp]: "size (skb_clone s) = size s"
  by (cases s) simp


section \<open>Well-formed buffers and their bytes\<close>

definition frag_bytes :: "frag \<Rightarrow> u8 list" where
  "frag_bytes f = take (frag_size f) (drop (page_offset f) (page f))"

definition frag_ok :: "frag \<Rightarrow> bool" where
  "frag_ok f \<longleftrightarrow> page_offset f + frag_size f \<le> length (page f)"

fun skb_ok :: "sk_buff \<Rightarrow> bool" where
  "skb_ok (Skb lin data nw mac slen dlen frs fl proto pt dev cl sh) \<longleftrightarrow>
     dlen \<le> slen \<and> data + (slen - dlen) \<le> length lin \<and> slen < 2 ^ 31 \<and> length lin < 2 ^ 31
     \<and> nw \<le> length lin \<and> mac \<le> length lin
     \<and> list_all frag_ok frs \<and> list_all skb_ok fl
     \<and> dlen = sum_list (map frag_size frs) + sum_list (map skb_len fl)"

text \<open>The packet as one sequence of bytes.\<close>

fun skb_bytes :: "sk_buff \<Rightarrow> u8 list" where
  "skb_bytes (Skb lin data nw mac slen dlen frs fl proto pt dev cl sh) =
     take (slen - dlen) (drop data lin) @ concat (map frag_bytes frs) @ concat (map skb_bytes fl)"

lemma length_frag_bytes: "frag_ok f \<Longrightarrow> length (frag_bytes f) = frag_size f"
  by (simp add: frag_bytes_def frag_ok_def)

lemma length_skb_bytes: "skb_ok s \<Longrightarrow> length (skb_bytes s) = skb_len s"
proof (induction s rule: skb_bytes.induct)
  case (1 lin data nw mac slen dlen frs fl proto pt dev cl sh)
  have "sum_list (map length (map frag_bytes frs)) = sum_list (map frag_size frs)"
    using "1.prems" by (auto simp: length_frag_bytes list_all_iff intro!: arg_cong [where f = sum_list])
  moreover have "sum_list (map length (map skb_bytes fl)) = sum_list (map skb_len fl)"
    using 1 by (auto simp: list_all_iff intro!: arg_cong [where f = sum_list])
  ultimately show ?case using "1.prems" by (auto simp: length_concat)
qed


text \<open>
  The contract of a walk over consecutive segments whose bytes are \<open>bs\<close>, the first of them at
  offset \<open>start\<close> of the packet: \<open>len\<close> bytes from \<open>offset\<close> on, appended to what was copied before.
\<close>

definition window :: "u8 list \<Rightarrow> int \<Rightarrow> int \<Rightarrow> int \<Rightarrow> u8 list" where
  "window bs start offset len = take (nat len) (drop (nat (offset - start)) bs)"

lemma slice_in:
  "\<lbrakk>0 \<le> i; 0 \<le> n; i + n \<le> int (length m)\<rbrakk> \<Longrightarrow> slice m i n = Some (window m 0 i n)"
  by (simp add: slice_def window_def)

lemma slice_sub:
  assumes "0 \<le> i" "0 \<le> n" "i + n \<le> int l" "b + l \<le> length m"
  shows "slice m (int b + i) n = Some (window (take l (drop b m)) 0 i n)"
proof -
  have "nat (int b + i) = b + nat i" using assms by simp
  moreover have "nat i + nat n \<le> l" using assms by linarith
  ultimately show ?thesis using assms
    by (simp add: slice_def window_def drop_take add.commute min_absorb1 le_diff_conv2)
qed

lemma window_append_left:
  "\<lbrakk>0 < n; start \<le> i; i + n \<le> start + int (length bs)\<rbrakk> \<Longrightarrow> window (bs @ cs) start i n = window bs start i n"
  by (simp add: window_def)

lemma window_append_right:
  "\<lbrakk>start + int (length bs) \<le> i\<rbrakk>
   \<Longrightarrow> window (bs @ cs) start i n = window cs (start + int (length bs)) i n"
proof -
  assume a: "start + int (length bs) \<le> i"
  then have "nat (i - start) - length bs = nat (i - (start + int (length bs)))"
    and "length bs \<le> nat (i - start)" by linarith+
  then show ?thesis by (simp add: window_def)
qed

lemma window_split:
  assumes "start \<le> i" "i < start + int (length bs)" "start + int (length bs) \<le> i + n"
  shows "window (bs @ cs) start i n = window bs start i (start + int (length bs) - i)
    @ window cs (start + int (length bs)) (start + int (length bs)) (n - (start + int (length bs) - i))"
proof -
  have "nat n - (length bs - nat (i - start)) = nat (n - (start + int (length bs) - i))"
    and "nat (start + int (length bs) - i) = length bs - nat (i - start)"
    and "length bs - nat (i - start) \<le> nat n" "nat (i - start) - length bs = 0"
    using assms by linarith+
  then show ?thesis by (simp add: window_def)
qed

lemma window_shift: "window bs start i n = window bs 0 (i - start) n"
  by (simp add: window_def)

text \<open>Where a walk stands after segments with the bytes \<open>bs\<close>: done, part of the bytes copied, or
  nothing copied yet.\<close>

definition walk_to :: "u8 list \<Rightarrow> int \<Rightarrow> int \<Rightarrow> int \<Rightarrow> u8 list
    \<Rightarrow> copy_result + (int \<times> int \<times> int \<times> u8 list)" where
  "walk_to bs start offset len acc =
    (let e = start + int (length bs) in
     if offset + len \<le> e then Inl (Copied (acc @ window bs start offset len))
     else if offset < e then Inr (e, e, len - (e - offset), acc @ window bs start offset (e - offset))
     else Inr (e, offset, len, acc))"

lemma walk_to_before:
  assumes "start + int (length b) \<le> offset" "0 < len"
  shows "walk_to (b @ c) start offset len acc = walk_to c (start + int (length b)) offset len acc"
  using assms by (simp add: walk_to_def Let_def window_append_right algebra_simps)

lemma walk_to_within:
  assumes "start \<le> offset" "0 < len" "offset + len \<le> start + int (length b)"
  shows "walk_to (b @ c) start offset len acc = Inl (Copied (acc @ window b start offset len))"
  using assms by (simp add: walk_to_def Let_def window_append_left)

lemma walk_to_across:
  assumes "start \<le> offset" and e: "e = start + int (length b)" and "offset < e" "e < offset + len"
  shows "walk_to (b @ c) start offset len acc
    = walk_to c e e (len - (e - offset)) (acc @ window b start offset (e - offset))"
proof -
  let ?w = "window b start offset (e - offset)"
  have w: "window (b @ c) start offset n = ?w @ window c e e (n - (e - offset))"
    if "e \<le> offset + n" for n
    using window_split [of start offset b n c] that assms by simp
  have z: "window c e e 0 = []" by (simp add: window_def)
  consider "offset + len \<le> e + int (length c)" | "c \<noteq> []" "e + int (length c) < offset + len"
    | "c = []" by fastforce
  then show ?thesis
  proof cases
    case 1
    then show ?thesis using assms w [of len] by (simp add: walk_to_def Let_def)
  next
    case 2
    then show ?thesis using assms w [of "e + int (length c) - offset"]
      by (simp add: walk_to_def Let_def add.assoc)
  next
    case 3
    then show ?thesis using assms w [of "e - offset"] by (simp add: walk_to_def Let_def)
  qed
qed

lemma copy_frags_walk:
  assumes "list_all frag_ok frs" "start \<le> offset" "0 < len"
  shows "copy_frags frs start offset len acc = walk_to (concat (map frag_bytes frs)) start offset len acc"
  using assms
proof (induction frs arbitrary: start offset len acc)
  case Nil
  then show ?case by (simp add: walk_to_def)
next
  case (Cons f fs)
  let ?b = "frag_bytes f" and ?c = "concat (map frag_bytes fs)"
  let ?e = "start + int (frag_size f)"
  have len_b: "length ?b = frag_size f" and pf: "page_offset f + frag_size f \<le> length (page f)"
    using Cons.prems by (simp_all add: length_frag_bytes frag_ok_def)
  have sl: "slice (page f) (int (page_offset f) + offset - start) n = Some (window ?b start offset n)"
    if "0 \<le> n" "offset + n \<le> ?e" for n
    using slice_sub [of "offset - start" n "frag_size f" "page_offset f" "page f"] that Cons.prems pf
    by (simp add: frag_bytes_def window_shift [of _ start] algebra_simps)
  consider "?e \<le> offset" | "offset < ?e" "offset + len \<le> ?e" | "offset < ?e" "?e < offset + len"
    by linarith
  then show ?case
  proof cases
    case 1
    then show ?thesis using Cons.IH [of ?e offset len acc] Cons.prems len_b
      by (simp add: walk_to_before)
  next
    case 2
    then have "(if ?e - offset > len then len else ?e - offset) = len" by simp
    then show ?thesis using sl [of len] Cons.prems len_b 2
      by (simp only: copy_frags.simps Let_def) (simp add: walk_to_within)
  next
    case 3
    have copy: "(if ?e - offset > len then len else ?e - offset) = ?e - offset" using 3 by simp
    have "copy_frags (f # fs) start offset len acc
        = copy_frags fs ?e ?e (len - (?e - offset)) (acc @ window ?b start offset (?e - offset))"
      using sl [of "?e - offset"] 3 by (simp only: copy_frags.simps Let_def copy) simp
    then show ?thesis
      using Cons.IH [of ?e ?e "len - (?e - offset)"] Cons.prems len_b 3
        walk_to_across [of start offset ?e ?b len ?c acc]
      by simp
  qed
qed

text \<open>The same for the list of further buffers, given that each of them is copied correctly.\<close>

lemma copy_walk_walk:
  assumes "\<And>s i n. \<lbrakk>s \<in> set fl; 0 \<le> i; 0 < n; i + n \<le> int (skb_len s)\<rbrakk>
      \<Longrightarrow> skb_copy_bits s i n = Copied (window (skb_bytes s) 0 i n)"
    and "list_all skb_ok fl" "start \<le> offset" "0 < len"
  shows "copy_walk fl start offset len acc =
    (case walk_to (concat (map skb_bytes fl)) start offset len acc of Inl r \<Rightarrow> r | Inr _ \<Rightarrow> CopyFault)"
  using assms
proof (induction fl arbitrary: start offset len acc)
  case Nil
  then show ?case by (simp add: walk_to_def)
next
  case (Cons s ss)
  let ?b = "skb_bytes s" and ?c = "concat (map skb_bytes ss)"
  let ?e = "start + int (skb_len s)"
  have len_b: "length ?b = skb_len s" using Cons.prems by (simp add: length_skb_bytes)
  have sl: "skb_copy_bits s (offset - start) n = Copied (window ?b start offset n)"
    if "0 < n" "offset + n \<le> ?e" for n
    using Cons.prems(1) [of s "offset - start" n] Cons.prems that by (simp add: window_shift [of _ start])
  have IH: "copy_walk ss start offset len acc =
      (case walk_to ?c start offset len acc of Inl r \<Rightarrow> r | Inr _ \<Rightarrow> CopyFault)"
    if "start \<le> offset" "0 < len" for start offset len acc
    using Cons.IH [of start offset len acc] Cons.prems that by simp
  consider "?e \<le> offset" | "offset < ?e" "offset + len \<le> ?e" | "offset < ?e" "?e < offset + len"
    by linarith
  then show ?case
  proof cases
    case 1
    then show ?thesis using IH [of ?e offset len acc] Cons.prems len_b
      by (simp add: walk_to_before)
  next
    case 2
    then have "(if ?e - offset > len then len else ?e - offset) = len" by simp
    then show ?thesis using sl [of len] Cons.prems len_b 2
      by (simp only: copy_walk.simps Let_def) (simp add: walk_to_within)
  next
    case 3
    have copy: "(if ?e - offset > len then len else ?e - offset) = ?e - offset" using 3 by simp
    have "copy_walk (s # ss) start offset len acc
        = copy_walk ss ?e ?e (len - (?e - offset)) (acc @ window ?b start offset (?e - offset))"
      using sl [of "?e - offset"] 3 by (simp only: copy_walk.simps Let_def copy) simp
    then show ?thesis
      using IH [of ?e ?e "len - (?e - offset)"] Cons.prems len_b 3
        walk_to_across [of start offset ?e ?b len ?c acc]
      by simp
  qed
qed

lemma walk_to_append:
  assumes "start \<le> offset" "0 < len"
  shows "walk_to (b @ c) start offset len acc =
    (case walk_to b start offset len acc of Inl r \<Rightarrow> Inl r
     | Inr (start', offset', len', acc') \<Rightarrow> walk_to c start' offset' len' acc')"
proof -
  let ?e = "start + int (length b)"
  consider "?e \<le> offset" | "offset + len \<le> ?e" | "offset < ?e" "?e < offset + len"
    by linarith
  then show ?thesis
  proof cases
    case 1
    then show ?thesis using assms by (simp add: walk_to_before) (simp add: walk_to_def)
  next
    case 2
    then show ?thesis using assms by (simp add: walk_to_within) (simp add: walk_to_def)
  next
    case 3
    then have "walk_to b start offset len acc
        = Inr (?e, ?e, len - (?e - offset), acc @ window b start offset (?e - offset))"
      by (simp add: walk_to_def Let_def)
    then show ?thesis using assms 3 walk_to_across [of start offset ?e b len c acc] by simp
  qed
qed

lemma walk_to_continues:
  assumes "walk_to b start offset len acc = Inr (start', offset', len', acc')" "start \<le> offset" "0 < len"
  shows "start' \<le> offset'" "0 < len'"
  using assms by (auto simp: walk_to_def Let_def split: if_splits)

lemma skb_copy_bits_bytes:
  assumes "skb_ok s" "0 \<le> offset" "0 < len"
  shows "skb_copy_bits s offset len =
    (if offset + len \<le> int (skb_len s) then Copied (window (skb_bytes s) 0 offset len) else CopyFault)"
  using assms
proof (induction s arbitrary: offset len rule: skb_bytes.induct)
  case (1 lin data nw mac slen dlen frs fl proto pt dev cl sh)
  let ?s = "Skb lin data nw mac slen dlen frs fl proto pt dev cl sh"
  let ?b = "take (slen - dlen) (drop data lin)" and ?f = "concat (map frag_bytes frs)"
  let ?l = "concat (map skb_bytes fl)" and ?st = "int slen - int dlen"
  have lin: "dlen \<le> slen" "data + (slen - dlen) \<le> length lin"
    and len_b: "int (length ?b) = ?st" and fr: "list_all frag_ok frs" and fl: "list_all skb_ok fl"
    using "1.prems"(1) by auto
  have rest: "(case copy_frags frs start off n acc of Inl r \<Rightarrow> r
        | Inr (start', off', n', acc') \<Rightarrow> copy_walk fl start' off' n' acc')
      = (case walk_to (?f @ ?l) start off n acc of Inl r \<Rightarrow> r | Inr _ \<Rightarrow> CopyFault)"
    if "start \<le> off" "0 < n" for start off n acc
  proof -
    have IH: "skb_copy_bits s' i m = Copied (window (skb_bytes s') 0 i m)"
      if "s' \<in> set fl" "0 \<le> i" "0 < m" "i + m \<le> int (skb_len s')" for s' i m
      using "1.IH" [of s' i m] that fl by (simp add: list_all_iff)
    show ?thesis
    proof (cases "walk_to ?f start off n acc")
      case (Inr w)
      then obtain a b c d where w: "walk_to ?f start off n acc = Inr (a, b, c, d)" by (cases w) auto
      with walk_to_continues [OF w that] copy_walk_walk [OF IH fl] show ?thesis
        by (simp add: copy_frags_walk fr that walk_to_append)
    qed (simp add: copy_frags_walk fr that walk_to_append)
  qed
  show ?case
  proof (cases "offset + len \<le> int slen")
    case True
    have sl: "slice lin (int data + offset) n = Some (window ?b 0 offset n)"
      if "0 \<le> n" "offset + n \<le> ?st" for n
      using slice_sub [of offset n "slen - dlen" data lin] that lin "1.prems"(2) by (simp add: of_nat_diff)
    consider "?st \<le> offset" | "offset < ?st" "offset + len \<le> ?st" | "offset < ?st" "?st < offset + len"
      by linarith
    then have "skb_copy_bits ?s offset len
      = (case walk_to (?b @ ?f @ ?l) 0 offset len [] of Inl r \<Rightarrow> r | Inr _ \<Rightarrow> CopyFault)"
    proof cases
      case 1
      then show ?thesis using True "1.prems" len_b rest [of ?st offset len]
        walk_to_before [of 0 ?b offset len "?f @ ?l" "[]"] by simp
    next
      case 2
      then have copy: "(if ?st - offset > len then len else ?st - offset) = len" by simp
      show ?thesis using True "1.prems" len_b sl [of len] 2
        walk_to_within [of 0 offset len ?b "?f @ ?l" "[]"]
        by (simp only: skb_copy_bits.simps Let_def copy) simp
    next
      case 3
      then have copy: "(if ?st - offset > len then len else ?st - offset) = ?st - offset" by simp
      show ?thesis using True "1.prems" len_b sl [of "?st - offset"] 3
          rest [of ?st ?st "len - (?st - offset)" "window ?b 0 offset (?st - offset)"]
          walk_to_across [of 0 offset ?st ?b len "?f @ ?l" "[]"]
        by (simp only: skb_copy_bits.simps Let_def copy) simp
    qed
    also have "\<dots> = Copied (window (skb_bytes ?s) 0 offset len)"
      using True length_skb_bytes [OF "1.prems"(1)] by (simp add: walk_to_def)
    finally show ?thesis using True by simp
  qed simp
qed

section \<open>Cutting keeps the bytes before the new end\<close>

lemma skb_clone_simps [simp]:
  "skb_bytes (skb_clone s) = skb_bytes s" "skb_ok (skb_clone s) = skb_ok s" "skb_len (skb_clone s) = skb_len s"
  by (cases s; simp)+
















lemma skb_header_pointer_window:
  assumes "skb_ok s" "0 \<le> offset" "0 < len"
  shows "skb_header_pointer s offset len =
    (if offset + len \<le> int (skb_len s)
     then Copied (take (nat len) (drop (nat offset) (skb_bytes s))) else CopyFault)"
proof (cases "skb_headlen s - offset \<ge> len")
  case True
  obtain lin data nw mac slen dlen frs fl proto pt dev cl sh
    where s: "s = Skb lin data nw mac slen dlen frs fl proto pt dev cl sh" by (cases s)
  let ?b = "take (slen - dlen) (drop data lin)"
  have ok: "dlen \<le> slen" "data + (slen - dlen) \<le> length lin" using assms(1) by (auto simp: s)
  have "slice lin (int data + offset) len = Some (window ?b 0 offset len)"
    using True assms ok slice_sub [of offset len "slen - dlen" data lin]
    by (simp add: s skb_headlen_def of_nat_diff)
  moreover have "window (skb_bytes s) 0 offset len = window ?b 0 offset len"
    using True assms ok by (simp add: s skb_headlen_def window_append_left)
  ultimately show ?thesis using True assms ok
    by (simp add: s skb_header_pointer_def skb_headlen_def window_def)
next
  case False
  then show ?thesis using assms by (simp add: skb_header_pointer_def skb_copy_bits_bytes window_def)
qed

section \<open>Properties\<close>

definition example_frag :: frag where
  "example_frag = \<lparr>page = [0, 0, 5, 6, 7, 8, 9, 77], page_offset = 2, frag_size = 5\<rparr>"

definition example_skb :: "sk_buff list \<Rightarrow> nat \<Rightarrow> sk_buff" where
  "example_skb fl n = Skb [99, 99, 1, 2, 3, 4, 88] 2 2 0 (4 + 5 + n) (5 + n)
     [example_frag] fl 8 0 (Some 3) False False"

lemmas example_skb_simps = example_skb_def example_frag_def frag_ok_def frag_bytes_def

text \<open>
  C13. Reading a header of a packet, wherever its bytes lie: for a well-formed buffer,
  \<^verbatim>\<open>skb_header_pointer\<close> (and \<^verbatim>\<open>skb_copy_bits\<close> below it) gives access to exactly the bytes
  \<open>offset .. offset + len\<close> of the packet seen as one sequence, whether they are in the linear part,
  in page fragments, in further buffers or across several of them, reports failure exactly when the
  packet is too short, and touches no memory outside the packet.
\<close>

theorem skb_header_pointer_bytes:
  assumes "skb_ok s" "0 \<le> offset" "0 < len"
  shows "skb_header_pointer s offset len =
    (if offset + len \<le> int (skb_len s)
     then Copied (take (nat len) (drop (nat offset) (skb_bytes s))) else CopyFault)"
  using assms by (rule skb_header_pointer_window)

theorem skb_header_pointer_bytes_witness:
  "skb_header_pointer (example_skb [example_skb [] 0] 9) 3 12
    = Copied [4, 5, 6, 7, 8, 9, 1, 2, 3, 4, 5, 6]"
proof -
  let ?s = "example_skb [example_skb [] 0] 9"
  have "skb_ok ?s" by (simp add: example_skb_simps)
  from skb_header_pointer_bytes [OF this, of 3 12] show ?thesis
    by (simp add: example_skb_simps)
qed



end
