(* ===== verification/Nlattr.thy ===== *)
theory Nlattr
  imports Skbuff
begin

text \<open>
  Netlink attributes (\<^verbatim>\<open>lib/nlattr.c\<close>, \<^verbatim>\<open>include/net/netlink.h\<close>): a stream of records, each with a
  16-bit length and type in front of its payload, padded to four bytes. An attribute is an offset
  into the memory that holds it; a read outside that memory is \<^const>\<open>None\<close>. The machine is little
  endian.
\<close>

section \<open>Attributes\<close>

definition get_u16 :: "u8 list \<Rightarrow> int \<Rightarrow> u16 option" where
  "get_u16 m a = map_option (\<lambda>bs. ucast (bs ! 0) OR push_bit 8 (ucast (bs ! 1))) (slice m a 2)"

definition NLA_ALIGN :: "int \<Rightarrow> int" where
  "NLA_ALIGN len = (len + 4 - 1) AND NOT (4 - 1)"

definition NLA_HDRLEN :: int where
  "NLA_HDRLEN = NLA_ALIGN 4"

definition NLA_TYPE_MASK :: u16 where
  "NLA_TYPE_MASK = NOT (push_bit 15 1 OR push_bit 14 1)"

definition nla_attr_size :: "int \<Rightarrow> int" where
  "nla_attr_size payload = NLA_HDRLEN + payload"

definition nla_total_size :: "int \<Rightarrow> int" where
  "nla_total_size payload = NLA_ALIGN (nla_attr_size payload)"

definition nla_padlen :: "int \<Rightarrow> int" where
  "nla_padlen payload = nla_total_size payload - nla_attr_size payload"

definition nla_type :: "u8 list \<Rightarrow> int \<Rightarrow> int option" where
  "nla_type m a = map_option (\<lambda>t. uint (t AND NLA_TYPE_MASK)) (get_u16 m (a + 2))"

definition nla_data :: "int \<Rightarrow> int" where
  "nla_data a = a + NLA_HDRLEN"

definition nla_len :: "u8 list \<Rightarrow> int \<Rightarrow> int option" where
  "nla_len m a = map_option (\<lambda>l. uint l - NLA_HDRLEN) (get_u16 m a)"

definition nla_ok :: "u8 list \<Rightarrow> int \<Rightarrow> int \<Rightarrow> bool option" where
  "nla_ok m a remaining =
     (if remaining \<ge> 4 then map_option (\<lambda>l. uint l \<ge> 4 \<and> uint l \<le> remaining) (get_u16 m a)
      else Some False)"

definition nla_next :: "u8 list \<Rightarrow> int \<Rightarrow> int \<Rightarrow> (int \<times> int) option" where
  "nla_next m a remaining =
     map_option (\<lambda>l. let totlen = NLA_ALIGN (uint l) in (a + totlen, remaining - totlen)) (get_u16 m a)"

lemma NLA_ALIGN_eq: "NLA_ALIGN len = (len + 3) div 4 * 4"
proof -
  have "x AND NOT 3 = x div 4 * 4" for x :: int
  proof -
    have "Suc (Suc (n - 2)) = n" if "\<not> n < 2" for n using that by arith
    then have "x AND NOT (mask 2) = push_bit 2 (drop_bit 2 x)"
      by (intro bit_eqI) (auto simp: bit_simps)
    then show ?thesis by (simp add: push_bit_eq_mult drop_bit_eq_div mask_eq_exp_minus_1)
  qed
  then show ?thesis by (simp add: NLA_ALIGN_def)
qed

lemma NLA_HDRLEN_eq [simp]: "NLA_HDRLEN = 4"
  by (simp add: NLA_HDRLEN_def NLA_ALIGN_eq)

lemma NLA_ALIGN_bounds: "len \<le> NLA_ALIGN len" "NLA_ALIGN len < len + 4"
  by (simp_all add: NLA_ALIGN_eq)

section \<open>Walking a stream\<close>

text \<open>
  The loop of \<^verbatim>\<open>nla_for_each_attr\<close>: the body either leaves it (\<open>Inl\<close>) or goes on with a new state
  (\<open>Inr\<close>); at the end of the stream the loop gives the state and the bytes that remain.
\<close>

lemma nla_next_decreases:
  assumes "nla_ok m a rem = Some True" "nla_next m a rem = Some (a', rem')"
  shows "nat rem' < nat rem"
proof -
  from assms obtain l where "get_u16 m a = Some l" "4 \<le> uint l" "4 \<le> rem"
      and r: "rem' = rem - NLA_ALIGN (uint l)"
    by (auto simp: nla_ok_def nla_next_def Let_def split: if_splits)
  then show ?thesis using NLA_ALIGN_bounds(1) [of "uint l"] by linarith
qed

function nla_for_each_attr :: "(int \<Rightarrow> 's \<Rightarrow> ('r + 's) option) \<Rightarrow> u8 list \<Rightarrow> int \<Rightarrow> int \<Rightarrow> 's
    \<Rightarrow> ('r + 's \<times> int) option" where
  "nla_for_each_attr body m a rem s =
     (case nla_ok m a rem of
        None \<Rightarrow> None
      | Some False \<Rightarrow> Some (Inr (s, rem))
      | Some True \<Rightarrow>
          (case body a s of
             None \<Rightarrow> None
           | Some (Inl r) \<Rightarrow> Some (Inl r)
           | Some (Inr s') \<Rightarrow>
               (case nla_next m a rem of
                  None \<Rightarrow> None
                | Some (a', rem') \<Rightarrow> nla_for_each_attr body m a' rem' s')))"
  by pat_completeness auto
termination
  by (relation "measure (\<lambda>(body, m, a, rem, s). nat rem)") (auto dest: nla_next_decreases)

declare nla_for_each_attr.simps [simp del]

text \<open>\<^verbatim>\<open>nla_find\<close> and \<^verbatim>\<open>nla_find_nested\<close>: the attribute found, if any.\<close>

definition nla_find :: "u8 list \<Rightarrow> int \<Rightarrow> int \<Rightarrow> int \<Rightarrow> int option option" where
  "nla_find m head len attrtype =
     map_option (case_sum Some (\<lambda>_. None))
       (nla_for_each_attr (\<lambda>nla _. map_option (\<lambda>t. if t = attrtype then Inl nla else Inr ()) (nla_type m nla))
          m head len ())"

definition nla_find_nested :: "u8 list \<Rightarrow> int \<Rightarrow> int \<Rightarrow> int option option" where
  "nla_find_nested m nla attrtype = Option.bind (nla_len m nla) (\<lambda>len. nla_find m (nla_data nla) len attrtype)"

section \<open>Validation and parsing\<close>

definition NLA_UNSPEC :: nat where "NLA_UNSPEC = 0"
definition NLA_U8 :: nat where "NLA_U8 = 1"
definition NLA_U16 :: nat where "NLA_U16 = 2"
definition NLA_U32 :: nat where "NLA_U32 = 3"
definition NLA_U64 :: nat where "NLA_U64 = 4"
definition NLA_STRING :: nat where "NLA_STRING = 5"
definition NLA_FLAG :: nat where "NLA_FLAG = 6"
definition NLA_MSECS :: nat where "NLA_MSECS = 7"
definition NLA_NESTED :: nat where "NLA_NESTED = 8"
definition NLA_NESTED_COMPAT :: nat where "NLA_NESTED_COMPAT = 9"
definition NLA_NUL_STRING :: nat where "NLA_NUL_STRING = 10"
definition NLA_BINARY :: nat where "NLA_BINARY = 11"
definition NLA_TYPE_MAX :: nat where "NLA_TYPE_MAX = 11"

lemmas nla_kind_defs = NLA_UNSPEC_def NLA_U8_def NLA_U16_def NLA_U32_def NLA_U64_def NLA_STRING_def
  NLA_FLAG_def NLA_MSECS_def NLA_NESTED_def NLA_NESTED_COMPAT_def NLA_NUL_STRING_def NLA_BINARY_def
  NLA_TYPE_MAX_def

record nla_policy =
  pol_type :: nat
  pol_len :: nat

definition nla_attr_minlen :: "nat \<Rightarrow> int" where
  "nla_attr_minlen t =
     (if t = NLA_U8 then 1 else if t = NLA_U16 then 2 else if t = NLA_U32 then 4
      else if t = NLA_U64 then 8 else if t = NLA_NESTED then NLA_HDRLEN else 0)"

text \<open>The result 0, an error number, or the \<^verbatim>\<open>BUG_ON\<close>.\<close>

datatype nla_status = Valid | Invalid errno | BadPolicy

definition validate_string :: "u8 list \<Rightarrow> int \<Rightarrow> nla_policy \<Rightarrow> int \<Rightarrow> nla_status option" where
  "validate_string m nla pt attrlen =
     (if attrlen < 1 then Some (Invalid ERANGE)
      else if pol_len pt \<noteq> 0 then
        Option.bind (slice m (nla_data nla + attrlen - 1) 1) (\<lambda>last.
          let attrlen = (if last ! 0 = 0 then attrlen - 1 else attrlen) in
          Some (if attrlen > int (pol_len pt) then Invalid ERANGE else Valid))
      else Some Valid)"

definition validate_nul_string :: "u8 list \<Rightarrow> int \<Rightarrow> nla_policy \<Rightarrow> int \<Rightarrow> nla_status option" where
  "validate_nul_string m nla pt attrlen =
     (let minlen = (if pol_len pt \<noteq> 0 then min attrlen (int (pol_len pt) + 1) else attrlen) in
      if minlen = 0 then Some (Invalid EINVAL)
      else Option.bind (slice m (nla_data nla) minlen) (\<lambda>bs.
        if 0 \<notin> set bs then Some (Invalid EINVAL) else validate_string m nla pt attrlen))"

definition validate_nested_compat :: "u8 list \<Rightarrow> int \<Rightarrow> nla_policy \<Rightarrow> int \<Rightarrow> nla_status option" where
  "validate_nested_compat m nla pt attrlen =
     (let aligned = NLA_ALIGN (int (pol_len pt)) in
      if attrlen < int (pol_len pt) then Some (Invalid ERANGE)
      else if attrlen < aligned then Some Valid
      else if attrlen < aligned + NLA_HDRLEN then Some (Invalid ERANGE)
      else Option.bind (nla_len m (nla_data nla + aligned)) (\<lambda>inner.
        Some (if attrlen < aligned + NLA_HDRLEN + inner then Invalid ERANGE else Valid)))"

definition validate_minlen :: "nla_policy \<Rightarrow> int \<Rightarrow> nla_status" where
  "validate_minlen pt attrlen =
     (let minlen = (if pol_len pt \<noteq> 0 then int (pol_len pt)
                    else if pol_type pt \<noteq> NLA_UNSPEC then nla_attr_minlen (pol_type pt) else 0) in
      if attrlen < minlen then Invalid ERANGE else Valid)"

definition validate_nla :: "u8 list \<Rightarrow> int \<Rightarrow> int \<Rightarrow> nla_policy list \<Rightarrow> nla_status option" where
  "validate_nla m nla maxtype policy =
     Option.bind (nla_len m nla) (\<lambda>attrlen. Option.bind (nla_type m nla) (\<lambda>type.
       if type \<le> 0 \<or> type > maxtype then Some Valid
       else if type \<ge> int (length policy) then None
       else let pt = policy ! nat type in
         if pol_type pt > NLA_TYPE_MAX then Some BadPolicy
         else if pol_type pt = NLA_FLAG then Some (if attrlen > 0 then Invalid ERANGE else Valid)
         else if pol_type pt = NLA_NUL_STRING then validate_nul_string m nla pt attrlen
         else if pol_type pt = NLA_STRING then validate_string m nla pt attrlen
         else if pol_type pt = NLA_BINARY then
           Some (if pol_len pt \<noteq> 0 \<and> attrlen > int (pol_len pt) then Invalid ERANGE else Valid)
         else if pol_type pt = NLA_NESTED_COMPAT then validate_nested_compat m nla pt attrlen
         else if pol_type pt = NLA_NESTED \<and> attrlen = 0 then Some Valid
         else Some (validate_minlen pt attrlen)))"

definition nla_validate :: "u8 list \<Rightarrow> int \<Rightarrow> int \<Rightarrow> int \<Rightarrow> nla_policy list \<Rightarrow> nla_status option" where
  "nla_validate m head len maxtype policy =
     map_option (case_sum id (\<lambda>_. Valid))
       (nla_for_each_attr (\<lambda>nla _. map_option (\<lambda>err. if err = Valid then Inr () else Inl err)
          (validate_nla m nla maxtype policy)) m head len ())"

text \<open>The loop of \<^verbatim>\<open>nla_policy_len\<close> does not advance its pointer into the array.\<close>

primrec nla_policy_len_loop :: "nla_policy \<Rightarrow> nat \<Rightarrow> int \<Rightarrow> int" where
  "nla_policy_len_loop p 0 len = len"
| "nla_policy_len_loop p (Suc n) len =
     nla_policy_len_loop p n
       (if pol_len p \<noteq> 0 then len + nla_total_size (int (pol_len p))
        else if nla_attr_minlen (pol_type p) \<noteq> 0 then len + nla_total_size (nla_attr_minlen (pol_type p))
        else len)"

definition nla_policy_len :: "nla_policy list \<Rightarrow> nat \<Rightarrow> int" where
  "nla_policy_len p n = (if n = 0 then 0 else nla_policy_len_loop (p ! 0) n 0)"

text \<open>\<^verbatim>\<open>nla_parse\<close> with the table \<open>tb\<close> it fills; the policy may be absent.\<close>

definition nla_parse_body :: "u8 list \<Rightarrow> int \<Rightarrow> nla_policy list option \<Rightarrow> int \<Rightarrow> int option list
    \<Rightarrow> (nla_status + int option list) option" where
  "nla_parse_body m maxtype policy nla tb =
     Option.bind (nla_type m nla) (\<lambda>type.
       if type > 0 \<and> type \<le> maxtype then
         case policy of
           None \<Rightarrow> Some (Inr (tb[nat type := Some nla]))
         | Some pol \<Rightarrow>
             map_option (\<lambda>err. if err = Valid then Inr (tb[nat type := Some nla]) else Inl err)
               (validate_nla m nla maxtype pol)
       else Some (Inr tb))"

definition nla_parse :: "nat \<Rightarrow> u8 list \<Rightarrow> int \<Rightarrow> int \<Rightarrow> nla_policy list option
    \<Rightarrow> (nla_status + int option list) option" where
  "nla_parse maxtype m head len policy =
     map_option (case_sum Inl (\<lambda>(tb, rem). Inr tb))
       (nla_for_each_attr (nla_parse_body m (int maxtype) policy) m head len (replicate (maxtype + 1) None))"

section \<open>Reading payloads\<close>

definition nla_payload :: "u8 list \<Rightarrow> int \<Rightarrow> u8 list option" where
  "nla_payload m nla = Option.bind (nla_len m nla) (\<lambda>len. slice m (nla_data nla) len)"

text \<open>\<^verbatim>\<open>nla_strlcpy\<close>: the new contents of the destination and the result.\<close>

definition nla_strlcpy :: "u8 list \<Rightarrow> u8 list \<Rightarrow> int \<Rightarrow> (u8 list \<times> nat) option" where
  "nla_strlcpy dst m nla =
     Option.bind (nla_payload m nla) (\<lambda>src.
       let srclen = (if length src > 0 \<and> src ! (length src - 1) = 0 then length src - 1 else length src);
           dstsize = length dst in
       if dstsize > 0 then
         let len = (if srclen \<ge> dstsize then dstsize - 1 else srclen) in
         map_option (\<lambda>d. (d, srclen)) (memcpy (replicate dstsize 0) 0 src 0 len)
       else Some (dst, srclen))"

definition nla_memcpy :: "u8 list \<Rightarrow> u8 list \<Rightarrow> int \<Rightarrow> nat \<Rightarrow> (u8 list \<times> nat) option" where
  "nla_memcpy dest m src count =
     Option.bind (nla_payload m src) (\<lambda>bs.
       let minlen = min count (length bs) in
       map_option (\<lambda>d. (d, minlen)) (memcpy dest 0 bs 0 minlen))"

fun memcmp :: "u8 list \<Rightarrow> u8 list \<Rightarrow> int" where
  "memcmp (x # xs) (y # ys) = (if x \<noteq> y then uint x - uint y else memcmp xs ys)"
| "memcmp _ _ = 0"

definition nla_memcmp :: "u8 list \<Rightarrow> int \<Rightarrow> u8 list \<Rightarrow> int option" where
  "nla_memcmp m nla data =
     Option.bind (nla_len m nla) (\<lambda>len.
       let d = len - int (length data) in
       if d = 0 then map_option (\<lambda>bs. memcmp bs data) (slice m (nla_data nla) len) else Some d)"

text \<open>The string is given with its terminating zero, as it lies in memory.\<close>

definition nla_strcmp :: "u8 list \<Rightarrow> int \<Rightarrow> u8 list \<Rightarrow> int option" where
  "nla_strcmp m nla str =
     (let len = length (takeWhile (\<lambda>b. b \<noteq> 0) str) + 1 in nla_memcmp m nla (take len str))"

section \<open>Adding attributes to a message\<close>

definition le16 :: "u16 \<Rightarrow> u8 list" where
  "le16 v = [ucast v, ucast (drop_bit 8 v)]"

definition store :: "sk_buff \<Rightarrow> int \<Rightarrow> u8 list \<Rightarrow> sk_buff option" where
  "store s a bs =
     (if a < 0 then None
      else map_option (\<lambda>lin. with_linear s lin (data_off s) (skb_len s))
             (memcpy (linear s) (nat a) bs 0 (length bs)))"

definition as_unsigned :: "int \<Rightarrow> nat" where
  "as_unsigned n = nat (n mod 2 ^ 32)"

definition nla_reserve_raw :: "sk_buff \<Rightarrow> u16 \<Rightarrow> int \<Rightarrow> (int \<times> sk_buff) option" where
  "nla_reserve_raw s attrtype attrlen =
     Option.bind (skb_put s (as_unsigned (nla_total_size attrlen))) (\<lambda>(nla, s).
     Option.bind (store s (nla + 2) (le16 attrtype)) (\<lambda>s.
     let len = of_int (nla_attr_size attrlen) in
     Option.bind (store s nla (le16 len)) (\<lambda>s.
     Option.bind (store s (nla + uint len) (replicate (nat (nla_padlen attrlen)) 0)) (\<lambda>s.
     Some (nla, s)))))"

definition nla_reserve_nohdr_raw :: "sk_buff \<Rightarrow> int \<Rightarrow> (int \<times> sk_buff) option" where
  "nla_reserve_nohdr_raw s attrlen =
     Option.bind (skb_put s (as_unsigned (NLA_ALIGN attrlen))) (\<lambda>(start, s).
     Option.bind (store s start (replicate (as_unsigned (NLA_ALIGN attrlen)) 0)) (\<lambda>s. Some (start, s)))"

text \<open>The checked variants: \<open>Inl\<close> when the tailroom is not enough (no pointer, or \<^verbatim>\<open>-EMSGSIZE\<close>).\<close>

definition nla_reserve :: "sk_buff \<Rightarrow> u16 \<Rightarrow> int \<Rightarrow> (unit + int \<times> sk_buff) option" where
  "nla_reserve s attrtype attrlen =
     (if skb_tailroom s < nla_total_size attrlen then Some (Inl ())
      else map_option Inr (nla_reserve_raw s attrtype attrlen))"

definition nla_reserve_nohdr :: "sk_buff \<Rightarrow> int \<Rightarrow> (unit + int \<times> sk_buff) option" where
  "nla_reserve_nohdr s attrlen =
     (if skb_tailroom s < NLA_ALIGN attrlen then Some (Inl ())
      else map_option Inr (nla_reserve_nohdr_raw s attrlen))"

definition nla_put_raw :: "sk_buff \<Rightarrow> u16 \<Rightarrow> u8 list \<Rightarrow> sk_buff option" where
  "nla_put_raw s attrtype data =
     Option.bind (nla_reserve_raw s attrtype (int (length data))) (\<lambda>(nla, s). store s (nla_data nla) data)"

definition nla_put_nohdr_raw :: "sk_buff \<Rightarrow> u8 list \<Rightarrow> sk_buff option" where
  "nla_put_nohdr_raw s data =
     Option.bind (nla_reserve_nohdr_raw s (int (length data))) (\<lambda>(start, s). store s start data)"

definition nla_put :: "sk_buff \<Rightarrow> u16 \<Rightarrow> u8 list \<Rightarrow> (errno + sk_buff) option" where
  "nla_put s attrtype data =
     (if skb_tailroom s < nla_total_size (int (length data)) then Some (Inl EMSGSIZE)
      else map_option Inr (nla_put_raw s attrtype data))"

definition nla_put_nohdr :: "sk_buff \<Rightarrow> u8 list \<Rightarrow> (errno + sk_buff) option" where
  "nla_put_nohdr s data =
     (if skb_tailroom s < NLA_ALIGN (int (length data)) then Some (Inl EMSGSIZE)
      else map_option Inr (nla_put_nohdr_raw s data))"

definition nla_append :: "sk_buff \<Rightarrow> u8 list \<Rightarrow> (errno + sk_buff) option" where
  "nla_append s data =
     (if skb_tailroom s < NLA_ALIGN (int (length data)) then Some (Inl EMSGSIZE)
      else map_option Inr (Option.bind (skb_put s (length data)) (\<lambda>(a, s). store s a data)))"

section \<open>The walk stays inside the stream\<close>

text \<open>An attribute that lies within the stream \<open>head .. head + len\<close>.\<close>

definition attr_in :: "u8 list \<Rightarrow> int \<Rightarrow> int \<Rightarrow> int \<Rightarrow> bool" where
  "attr_in m lo hi a \<longleftrightarrow> (\<exists>l. get_u16 m a = Some l \<and> 4 \<le> uint l \<and> lo \<le> a \<and> a + uint l \<le> hi)"

lemma get_u16_in: "\<lbrakk>0 \<le> a; a + 2 \<le> int (length m)\<rbrakk> \<Longrightarrow> \<exists>l. get_u16 m a = Some l"
  by (simp add: get_u16_def slice_def)

lemma nla_len_in: "\<lbrakk>0 \<le> a; a + 2 \<le> int (length m)\<rbrakk> \<Longrightarrow> \<exists>n. nla_len m a = Some n \<and> - 4 \<le> n"
  using get_u16_in [of a m] by (auto simp: nla_len_def)

text \<open>
  Rule for the loop: a body that never fails on attributes inside the stream and keeps an invariant
  makes a loop that never fails and ends with the invariant, after visiting only such attributes.
\<close>

lemma nla_for_each_attr_rule:
  assumes "0 \<le> lo" "lo \<le> a" "a + rem \<le> hi" "hi \<le> int (length m)" "I s"
    and body: "\<And>a s. \<lbrakk>attr_in m lo hi a; I s\<rbrakk> \<Longrightarrow>
      case body a s of None \<Rightarrow> False | Some (Inl r) \<Rightarrow> Q r | Some (Inr s') \<Rightarrow> I s'"
  shows "case nla_for_each_attr body m a rem s of None \<Rightarrow> False | Some (Inl r) \<Rightarrow> Q r | Some (Inr (s', _)) \<Rightarrow> I s'"
  using assms
proof (induction body m a rem s rule: nla_for_each_attr.induct)
  case (1 body m a rem s)
  show ?case
  proof (cases "rem \<ge> 4")
    case False
    then show ?thesis using "1.prems"
      by (subst nla_for_each_attr.simps) (simp add: nla_ok_def)
  next
    case True
    with "1.prems" get_u16_in [of a m] obtain l where l: "get_u16 m a = Some l" by auto
    show ?thesis
    proof (cases "uint l \<ge> 4 \<and> uint l \<le> rem")
      case False
      then show ?thesis using l True "1.prems"
        by (subst nla_for_each_attr.simps) (auto simp: nla_ok_def)
    next
      case ok: True
      have at: "attr_in m lo hi a" using l ok "1.prems" by (auto simp: attr_in_def)
      have okk: "nla_ok m a rem = Some True" using l ok True by (simp add: nla_ok_def)
      have nx: "nla_next m a rem = Some (a + NLA_ALIGN (uint l), rem - NLA_ALIGN (uint l))"
        using l by (simp add: nla_next_def Let_def)
      have "case nla_for_each_attr body m (a + NLA_ALIGN (uint l)) (rem - NLA_ALIGN (uint l)) s' of
            None \<Rightarrow> False | Some (Inl r) \<Rightarrow> Q r | Some (Inr (s', _)) \<Rightarrow> I s'"
        if "body a s = Some (Inr s')" "I s'" for s'
        using "1.IH" [OF okk _ that(1) _ nx refl] that "1.prems" NLA_ALIGN_bounds(1) [of "uint l"] ok by simp
      with at okk nx "1.prems"(6) [OF at "1.prems"(5)] show ?thesis
        by (subst nla_for_each_attr.simps) (auto split: option.splits sum.splits)
    qed
  qed
qed

section \<open>What validation guarantees\<close>

lemma attr_in_facts:
  assumes "attr_in m lo hi a" "0 \<le> lo" "hi \<le> int (length m)"
  obtains n t where "nla_len m a = Some n" "nla_type m a = Some t" "0 \<le> n" "0 \<le> a" "a + 4 + n \<le> hi"
    "0 \<le> t" "lo \<le> a"
proof -
  from assms obtain l where l: "get_u16 m a = Some l" "4 \<le> uint l" "lo \<le> a" "a + uint l \<le> hi"
    by (auto simp: attr_in_def)
  moreover from l assms get_u16_in [of "a + 2" m] obtain t where "get_u16 m (a + 2) = Some t" by auto
  ultimately show thesis using assms(2)
    by (intro that [of "uint l - 4" "uint (t AND NLA_TYPE_MASK)"]) (auto simp: nla_len_def nla_type_def)
qed

lemma slice_exists: "\<lbrakk>0 \<le> a; 0 \<le> n; a + n \<le> int (length m)\<rbrakk> \<Longrightarrow> \<exists>bs. slice m a n = Some bs"
  by (simp add: slice_def)

lemma validate_string_defined:
  "\<lbrakk>0 \<le> a; 0 \<le> n; a + 4 + n \<le> int (length m)\<rbrakk> \<Longrightarrow>
    \<exists>r. validate_string m a pt n = Some r \<and> r \<noteq> BadPolicy"
  using slice_exists [of "a + 4 + n - 1" 1 m] by (auto simp: validate_string_def nla_data_def Let_def)

lemma validate_nul_string_defined:
  assumes "0 \<le> a" "0 \<le> n" "a + 4 + n \<le> int (length m)"
  shows "\<exists>r. validate_nul_string m a pt n = Some r \<and> r \<noteq> BadPolicy"
proof -
  let ?k = "if pol_len pt \<noteq> 0 then min n (int (pol_len pt) + 1) else n"
  have "0 \<le> ?k" "?k \<le> n" using assms(2) by auto
  then have "0 \<le> a + 4" "a + 4 + ?k \<le> int (length m)" using assms by linarith+
  with \<open>0 \<le> ?k\<close> obtain bs where "slice m (a + 4) ?k = Some bs" using slice_exists by blast
  moreover obtain r where "validate_string m a pt n = Some r" "r \<noteq> BadPolicy"
    using validate_string_defined [OF assms] by auto
  ultimately show ?thesis
    by (simp only: validate_nul_string_def Let_def nla_data_def NLA_HDRLEN_eq) simp
qed

lemma validate_nested_compat_defined:
  "\<lbrakk>0 \<le> a; 0 \<le> n; a + 4 + n \<le> int (length m)\<rbrakk> \<Longrightarrow>
    \<exists>r. validate_nested_compat m a pt n = Some r \<and> r \<noteq> BadPolicy"
  using nla_len_in [of "a + 4 + NLA_ALIGN (int (pol_len pt))" m] NLA_ALIGN_bounds(1) [of "int (pol_len pt)"]
  by (auto simp: validate_nested_compat_def nla_data_def Let_def)

definition policy_ok :: "int \<Rightarrow> nla_policy list \<Rightarrow> bool" where
  "policy_ok maxtype policy \<longleftrightarrow> maxtype < int (length policy) \<and> (\<forall>p \<in> set policy. pol_type p \<le> NLA_TYPE_MAX)"

lemma validate_nla_defined:
  assumes "attr_in m lo hi a" "0 \<le> lo" "hi \<le> int (length m)" "policy_ok maxtype policy"
  shows "\<exists>r. validate_nla m a maxtype policy = Some r \<and> r \<noteq> BadPolicy"
proof -
  obtain n t where a: "nla_len m a = Some n" "nla_type m a = Some t" "0 \<le> n" "0 \<le> a" "a + 4 + n \<le> hi" "0 \<le> t"
    using attr_in_facts [OF assms(1-3)] by metis
  let ?pt = "policy ! nat t"
  have in_range: "t < int (length policy) \<and> pol_type ?pt \<le> NLA_TYPE_MAX" if "t \<le> maxtype"
  proof -
    have "t < int (length policy)" using assms(4) that by (simp add: policy_ok_def)
    moreover from this a(6) have "?pt \<in> set policy" by simp
    ultimately show ?thesis using assms(4) by (simp add: policy_ok_def)
  qed
  have end_in: "a + 4 + n \<le> int (length m)" using a(5) assms(3) by simp
  note bounds = a(4) a(3) end_in
  obtain r1 where "validate_string m a ?pt n = Some r1" "r1 \<noteq> BadPolicy"
    using validate_string_defined [OF bounds] by blast
  moreover obtain r2 where "validate_nul_string m a ?pt n = Some r2" "r2 \<noteq> BadPolicy"
    using validate_nul_string_defined [OF bounds] by blast
  moreover obtain r3 where "validate_nested_compat m a ?pt n = Some r3" "r3 \<noteq> BadPolicy"
    using validate_nested_compat_defined [OF bounds] by blast
  moreover have "validate_minlen ?pt n \<noteq> BadPolicy" by (simp add: validate_minlen_def Let_def)
  moreover have branch: "\<exists>r. (if c then x else y) = Some r \<and> r \<noteq> BadPolicy"
    if "c \<Longrightarrow> \<exists>r. x = Some r \<and> r \<noteq> BadPolicy" "\<not> c \<Longrightarrow> \<exists>r. y = Some r \<and> r \<noteq> BadPolicy" for c x y
    using that by simp
  ultimately show ?thesis using in_range
    by (simp only: validate_nla_def a(1,2) bind.simps Let_def) (intro branch; simp)
qed

text \<open>What a caller may rely on for a validated attribute of each kind of policy.\<close>

definition payload_conforms :: "nla_policy \<Rightarrow> u8 list \<Rightarrow> bool" where
  "payload_conforms pt bs \<longleftrightarrow>
     (pol_type pt = NLA_FLAG \<longrightarrow> bs = [])
     \<and> (pol_type pt \<in> {NLA_U8, NLA_U16, NLA_U32, NLA_U64} \<and> pol_len pt = 0
          \<longrightarrow> nla_attr_minlen (pol_type pt) \<le> int (length bs))
     \<and> (pol_type pt \<in> {NLA_UNSPEC, NLA_U8, NLA_U16, NLA_U32, NLA_U64, NLA_MSECS}
          \<longrightarrow> pol_len pt \<le> length bs)
     \<and> (pol_type pt = NLA_BINARY \<and> pol_len pt \<noteq> 0 \<longrightarrow> length bs \<le> pol_len pt)
     \<and> (pol_type pt = NLA_STRING \<longrightarrow> bs \<noteq> [] \<and> (pol_len pt \<noteq> 0 \<longrightarrow>
          length bs \<le> pol_len pt \<or> length bs = pol_len pt + 1 \<and> last bs = 0))
     \<and> (pol_type pt = NLA_NUL_STRING \<longrightarrow> 0 \<in> set bs \<and> (pol_len pt \<noteq> 0 \<longrightarrow>
          0 \<in> set (take (pol_len pt + 1) bs) \<and> length bs \<le> pol_len pt + 1))
     \<and> (pol_type pt = NLA_NESTED_COMPAT \<longrightarrow> pol_len pt \<le> length bs)"

lemma slice_eq_SomeD:
  "slice m a n = Some bs \<Longrightarrow> 0 \<le> a \<and> 0 \<le> n \<and> a + n \<le> int (length m) \<and> bs = take (nat n) (drop (nat a) m)
    \<and> int (length bs) = n"
  by (auto simp: slice_def split: if_splits)

lemma slice_last:
  assumes "slice m a n = Some bs" "1 \<le> n"
  shows "slice m (a + n - 1) 1 = Some [last bs]"
proof -
  from slice_eq_SomeD [OF assms(1)] have bs: "bs = take (nat n) (drop (nat a) m)" "0 \<le> a"
    "a + n \<le> int (length m)" "length bs = nat n" by auto
  have "last bs = m ! (nat a + (nat n - 1))" using bs assms(2) by (simp add: last_conv_nth)
  moreover have "take 1 (drop (nat (a + n - 1)) m) = [m ! nat (a + n - 1)]"
    using bs assms(2) by (simp add: take_Suc_conv_app_nth take_Suc hd_drop_conv_nth)
  moreover have "nat (a + n - 1) = nat a + (nat n - 1)" using bs assms(2) by linarith
  ultimately show ?thesis using bs assms(2) by (simp add: slice_def)
qed

lemma slice_prefix: "\<lbrakk>slice m a n = Some bs; 0 \<le> k; k \<le> n\<rbrakk> \<Longrightarrow> slice m a k = Some (take (nat k) bs)"
  by (auto simp: slice_def min_def split: if_splits)

lemma validate_string_conforms:
  assumes "validate_string m a pt n = Some Valid" "slice m (a + 4) n = Some bs"
  shows "bs \<noteq> [] \<and> (pol_len pt \<noteq> 0 \<longrightarrow> length bs \<le> pol_len pt \<or> length bs = pol_len pt + 1 \<and> last bs = 0)"
  using assms slice_last [OF assms(2)] slice_eq_SomeD [OF assms(2)]
  by (auto simp: validate_string_def nla_data_def Let_def split: if_splits)

lemma validate_nul_string_conforms:
  assumes "validate_nul_string m a pt n = Some Valid" "slice m (a + 4) n = Some bs"
  shows "0 \<in> set bs \<and> (pol_len pt \<noteq> 0 \<longrightarrow> 0 \<in> set (take (pol_len pt + 1) bs) \<and> length bs \<le> pol_len pt + 1)"
proof -
  have n: "0 \<le> n" "int (length bs) = n" using slice_eq_SomeD [OF assms(2)] by auto
  define k where "k = (if pol_len pt \<noteq> 0 then min n (int (pol_len pt) + 1) else n)"
  have k: "slice m (a + 4) k = Some (take (nat k) bs)"
    using n by (intro slice_prefix [OF assms(2)]) (auto simp: k_def)
  have "validate_nul_string m a pt n = (if k = 0 then Some (Invalid EINVAL)
      else Option.bind (slice m (a + 4) k)
        (\<lambda>bs. if 0 \<notin> set bs then Some (Invalid EINVAL) else validate_string m a pt n))"
    by (simp only: validate_nul_string_def Let_def nla_data_def NLA_HDRLEN_eq k_def)
  with k assms(1) have z: "0 \<in> set (take (nat k) bs)" and str: "validate_string m a pt n = Some Valid"
    by (auto split: if_splits)
  have "take (nat k) bs = take (pol_len pt + 1) bs" if "pol_len pt \<noteq> 0"
    using that n by (auto simp: k_def min_def nat_add_distrib)
  then show ?thesis using z validate_string_conforms [OF str assms(2)] by (auto dest: in_set_takeD)
qed

lemma validate_nla_conforms:
  assumes "validate_nla m a maxtype policy = Some Valid" "nla_len m a = Some n" "nla_type m a = Some t"
    "0 < t" "t \<le> maxtype" "slice m (a + 4) n = Some bs"
  shows "payload_conforms (policy ! nat t) bs"
proof -
  let ?pt = "policy ! nat t"
  have n: "int (length bs) = n" using slice_eq_SomeD [OF assms(6)] by auto
  have v: "pol_type ?pt = NLA_FLAG \<longrightarrow> n \<le> 0"
    "pol_type ?pt = NLA_NUL_STRING \<longrightarrow> validate_nul_string m a ?pt n = Some Valid"
    "pol_type ?pt = NLA_STRING \<longrightarrow> validate_string m a ?pt n = Some Valid"
    "pol_type ?pt = NLA_BINARY \<longrightarrow> pol_len ?pt \<noteq> 0 \<longrightarrow> n \<le> int (pol_len ?pt)"
    "pol_type ?pt = NLA_NESTED_COMPAT \<longrightarrow> validate_nested_compat m a ?pt n = Some Valid"
    "pol_type ?pt \<in> {NLA_UNSPEC, NLA_U8, NLA_U16, NLA_U32, NLA_U64, NLA_MSECS} \<longrightarrow> validate_minlen ?pt n = Valid"
    using assms(1-5) by (auto simp: validate_nla_def Let_def nla_kind_defs split: if_splits)
  have compat: "pol_len ?pt \<le> length bs" if "validate_nested_compat m a ?pt n = Some Valid"
    using that n by (auto simp: validate_nested_compat_def Let_def split: if_splits)
  have minlen: "pol_len ?pt \<le> length bs" if "validate_minlen ?pt n = Valid"
    using that n by (auto simp: validate_minlen_def Let_def split: if_splits)
  have fixed: "nla_attr_minlen (pol_type ?pt) \<le> int (length bs)"
    if "validate_minlen ?pt n = Valid" "pol_len ?pt = 0" "pol_type ?pt \<noteq> NLA_UNSPEC"
    using that n by (auto simp: validate_minlen_def Let_def split: if_splits)
  show ?thesis unfolding payload_conforms_def
  proof (intro conjI)
    show "pol_type ?pt = NLA_FLAG \<longrightarrow> bs = []" using v(1) n by auto
    show "pol_type ?pt \<in> {NLA_U8, NLA_U16, NLA_U32, NLA_U64} \<and> pol_len ?pt = 0
        \<longrightarrow> nla_attr_minlen (pol_type ?pt) \<le> int (length bs)"
      using v(6) fixed by (auto simp: nla_kind_defs)
    show "pol_type ?pt \<in> {NLA_UNSPEC, NLA_U8, NLA_U16, NLA_U32, NLA_U64, NLA_MSECS} \<longrightarrow> pol_len ?pt \<le> length bs"
      using v(6) minlen by blast
    show "pol_type ?pt = NLA_BINARY \<and> pol_len ?pt \<noteq> 0 \<longrightarrow> length bs \<le> pol_len ?pt" using v(4) n by auto
    show "pol_type ?pt = NLA_NESTED_COMPAT \<longrightarrow> pol_len ?pt \<le> length bs" using v(5) compat by blast
  qed (use v(2,3) validate_string_conforms [OF _ assms(6)] validate_nul_string_conforms [OF _ assms(6)] in blast)+
qed

section \<open>Parsing\<close>

text \<open>What the table holds at every moment of \<^verbatim>\<open>nla_parse\<close>.\<close>

definition table_ok :: "u8 list \<Rightarrow> int \<Rightarrow> int \<Rightarrow> nat \<Rightarrow> nla_policy list option \<Rightarrow> int option list \<Rightarrow> bool" where
  "table_ok m lo hi maxtype policy tb \<longleftrightarrow>
     length tb = maxtype + 1 \<and>
     (\<forall>i < length tb. \<forall>a. tb ! i = Some a \<longrightarrow>
        0 < i \<and> nla_type m a = Some (int i) \<and> attr_in m lo hi a \<and>
        (\<forall>pol. policy = Some pol \<longrightarrow> validate_nla m a (int maxtype) pol = Some Valid))"

lemma nla_parse_body_step:
  assumes "attr_in m lo hi a" "0 \<le> lo" "hi \<le> int (length m)" "table_ok m lo hi maxtype policy tb"
    "\<And>pol. policy = Some pol \<Longrightarrow> policy_ok (int maxtype) pol"
  shows "case nla_parse_body m (int maxtype) policy a tb of
      None \<Rightarrow> False | Some (Inl r) \<Rightarrow> (\<exists>e. r = Invalid e) | Some (Inr tb') \<Rightarrow> table_ok m lo hi maxtype policy tb'"
proof -
  obtain n t where t: "nla_type m a = Some t" "0 \<le> t"
    using attr_in_facts [OF assms(1-3)] by metis
  have upd: "table_ok m lo hi maxtype policy (tb[nat t := Some a])"
    if "0 < t" "\<And>pol. policy = Some pol \<Longrightarrow> validate_nla m a (int maxtype) pol = Some Valid"
  proof -
    have "tb[nat t := Some a] ! i = (if nat t = i then Some a else tb ! i)" if "i < length tb" for i
      using that by (simp add: nth_list_update)
    then show ?thesis using assms(1,4) t that by (auto simp: table_ok_def)
  qed
  show ?thesis
  proof (cases policy)
    case None
    then show ?thesis using t upd assms(4) by (simp add: nla_parse_body_def)
  next
    case (Some pol)
    then obtain r where r: "validate_nla m a (int maxtype) pol = Some r" "r \<noteq> BadPolicy"
      using validate_nla_defined [OF assms(1-3) assms(5)] by blast
    then show ?thesis using Some t upd assms(4) by (cases r) (simp_all add: nla_parse_body_def)
  qed
qed

lemma nla_parse_table:
  assumes "0 \<le> head" "head + len \<le> int (length m)"
    "\<And>pol. policy = Some pol \<Longrightarrow> policy_ok (int maxtype) pol"
  shows "case nla_parse maxtype m head len policy of
      None \<Rightarrow> False | Some (Inl r) \<Rightarrow> (\<exists>e. r = Invalid e)
    | Some (Inr tb) \<Rightarrow> table_ok m head (head + len) maxtype policy tb"
proof -
  let ?I = "table_ok m head (head + len) maxtype policy"
  have "?I (replicate (maxtype + 1) None)" by (auto simp: table_ok_def simp del: replicate_Suc)
  from nla_for_each_attr_rule [where I = ?I and Q = "\<lambda>r. \<exists>e. r = Invalid e"
      and body = "nla_parse_body m (int maxtype) policy", OF assms(1) order.refl order.refl assms(2) this]
    nla_parse_body_step [OF _ assms(1,2) _ assms(3)]
  show ?thesis by (auto simp: nla_parse_def split: option.splits sum.splits prod.splits)
qed

lemma attr_in_payload:
  assumes "attr_in m lo hi a" "0 \<le> lo" "hi \<le> int (length m)"
  obtains bs where "nla_payload m a = Some bs" "a + 4 + int (length bs) \<le> hi" "lo \<le> a"
    "nla_len m a = Some (int (length bs))" "slice m (a + 4) (int (length bs)) = Some bs"
proof -
  obtain n t where n: "nla_len m a = Some n" "0 \<le> n" "0 \<le> a" "a + 4 + n \<le> hi" "lo \<le> a"
    using attr_in_facts [OF assms] by metis
  obtain bs where bs: "slice m (a + 4) n = Some bs" using slice_exists [of "a + 4" n m] n assms(3) by auto
  with slice_eq_SomeD [OF bs] n show thesis by (intro that [of bs]) (auto simp: nla_payload_def nla_data_def)
qed

text \<open>
  C8. Parsing untrusted attributes: on any \<open>len\<close> bytes of memory, \<^verbatim>\<open>nla_parse\<close> terminates without
  reading outside them and without hitting the \<^verbatim>\<open>BUG_ON\<close>; it fails only with an error number; and
  when it succeeds, every entry of the table is an attribute of that type whose header and payload lie
  inside the stream and whose payload has the form its policy demands (integers long enough, strings
  short enough and terminated, flags empty).
\<close>

theorem nla_parse_safe:
  assumes "0 \<le> head" "head + len \<le> int (length m)" "policy_ok (int maxtype) policy"
  shows "case nla_parse maxtype m head len (Some policy) of
      None \<Rightarrow> False
    | Some (Inl r) \<Rightarrow> (\<exists>e. r = Invalid e)
    | Some (Inr tb) \<Rightarrow> length tb = maxtype + 1 \<and>
        (\<forall>i < length tb. \<forall>a. tb ! i = Some a \<longrightarrow>
           (\<exists>bs. nla_type m a = Some (int i) \<and> nla_payload m a = Some bs
              \<and> head \<le> a \<and> a + 4 + int (length bs) \<le> head + len \<and> payload_conforms (policy ! i) bs))"
proof -
  have "case nla_parse maxtype m head len (Some policy) of
      None \<Rightarrow> False | Some (Inl r) \<Rightarrow> (\<exists>e. r = Invalid e)
    | Some (Inr tb) \<Rightarrow> table_ok m head (head + len) maxtype (Some policy) tb"
    using nla_parse_table [OF assms(1,2)] assms(3) by blast
  moreover have "\<exists>bs. nla_payload m a = Some bs \<and> head \<le> a \<and> a + 4 + int (length bs) \<le> head + len
      \<and> payload_conforms (policy ! i) bs"
    if "0 < i" "i \<le> maxtype" "nla_type m a = Some (int i)" "attr_in m head (head + len) a"
      "validate_nla m a (int maxtype) policy = Some Valid" for i a
  proof -
    note at = that(4) and valid = that(5)
    obtain bs where "nla_payload m a = Some bs" "a + 4 + int (length bs) \<le> head + len" "head \<le> a"
      "nla_len m a = Some (int (length bs))" "slice m (a + 4) (int (length bs)) = Some bs"
      using attr_in_payload [OF at assms(1,2)] by metis
    with validate_nla_conforms [OF valid] that(1-3) show ?thesis by fastforce
  qed
  ultimately show ?thesis
    by (auto simp: table_ok_def split: option.splits sum.splits)
qed

definition example_policy :: "nla_policy list" where
  "example_policy = [\<lparr>pol_type = NLA_UNSPEC, pol_len = 0\<rparr>, \<lparr>pol_type = NLA_U16, pol_len = 0\<rparr>,
     \<lparr>pol_type = NLA_MSECS, pol_len = 0\<rparr>]"

theorem nla_parse_safe_witness:
  "policy_ok 2 example_policy
    \<and> (\<exists>tb. nla_parse 2 [9, 6, 0, 1, 0, 5, 4, 0, 0, 77] 1 8 (Some example_policy) = Some (Inr tb)
        \<and> length tb = 3 \<and> tb ! 1 = Some 1)"
proof -
  let ?m = "[9, 6, 0, 1, 0, 5, 4, 0, 0, 77] :: u8 list"
  have ok: "policy_ok (int 2) example_policy"
    by (simp add: policy_ok_def example_policy_def nla_kind_defs)
  have "nla_parse 2 ?m 1 8 (Some example_policy) = Some (Inr [None, Some 1, None])"
    by (simp add: nla_parse_def nla_for_each_attr.simps [of _ _ 1] nla_for_each_attr.simps [of _ _ 9]
        nla_ok_def nla_next_def get_u16_def slice_def nla_parse_body_def nla_type_def validate_nla_def
        nla_len_def NLA_TYPE_MASK_def NLA_ALIGN_eq example_policy_def nla_kind_defs validate_minlen_def
        nla_attr_minlen_def numeral_3_eq_3 Let_def)
  with nla_parse_safe [OF _ _ ok, of 1 8 ?m] ok show ?thesis by simp
qed

section \<open>Adding attributes and finding them again\<close>

text \<open>The bytes of one attribute: length, type, payload, padding.\<close>

definition enc_attr :: "u16 \<times> u8 list \<Rightarrow> u8 list" where
  "enc_attr x = le16 (of_nat (4 + length (snd x))) @ le16 (fst x) @ snd x
     @ replicate (nat (nla_padlen (int (length (snd x))))) 0"

lemma nla_sizes:
  "nla_attr_size (int n) = 4 + int n" "0 \<le> nla_padlen (int n)" "nla_padlen (int n) < 4"
  "nla_total_size (int n) = 4 + int n + nla_padlen (int n)"
  using NLA_ALIGN_bounds [of "4 + int n"]
  by (simp_all add: nla_attr_size_def nla_padlen_def nla_total_size_def)

lemma length_enc_attr: "int (length (enc_attr x)) = nla_total_size (int (length (snd x)))"
  by (simp add: enc_attr_def le16_def nla_sizes)

lemma length_le16 [simp]: "length (le16 v) = 2"
  by (simp add: le16_def)

lemma get_u16_le16: "get_u16 (p @ le16 v @ q) (int (length p)) = Some v"
proof -
  have "ucast (ucast v :: u8) OR push_bit 8 (ucast (ucast (drop_bit 8 v) :: u8)) = v"
    by (rule bit_word_eqI) (auto simp: bit_simps)
  then show ?thesis by (simp add: get_u16_def slice_def le16_def)
qed

lemma memcpy_mid: "length x = length bs \<Longrightarrow> memcpy (p @ x @ q) (length p) bs 0 (length bs) = Some (p @ bs @ q)"
  by (simp add: memcpy_def)

lemma store_mid:
  assumes "linear s = p @ x @ q" "length x = length bs" "a = int (length p)"
  shows "store s a bs = Some (with_linear s (p @ bs @ q) (data_off s) (skb_len s))"
  using assms memcpy_mid [of x bs p q] by (simp add: store_def)

lemma with_linear_simps [simp]:
  "linear (with_linear s l d n) = l" "data_off (with_linear s l d n) = d" "skb_len (with_linear s l d n) = n"
  "data_len (with_linear s l d n) = data_len s"
  "with_linear (with_linear s l d n) l' d' n' = with_linear s l' d' n'"
  by (simp_all add: with_linear_def)

lemma uint_of_nat_u16: "n < 65536 \<Longrightarrow> uint (of_nat n :: u16) = int n"
  by (simp only: unsigned_of_nat) (simp add: take_bit_nat_eq_self_iff)

text \<open>Filling the room behind the data: \<open>pre\<close> up to the old tail, the room, and what follows it.\<close>

lemma nla_put_raw_fills:
  assumes s: "linear s = pre @ room @ post" "tail_off s = int (length pre)" "data_len s = 0"
    and room: "length room = length (enc_attr (t, data))" and len: "length data \<le> 65531"
  shows "nla_put_raw s t data
    = Some (with_linear s (pre @ enc_attr (t, data) @ post) (data_off s) (skb_len s + length room))"
proof -
  let ?n = "length data" and ?pad = "nat (nla_padlen (int (length data)))"
  have total: "as_unsigned (nla_total_size (int ?n)) = length room"
    using length_enc_attr [of "(t, data)"] room nla_sizes [of ?n] len by (simp add: as_unsigned_def)
  have put: "skb_put s (length room)
      = Some (int (length pre), with_linear s (pre @ room @ post) (data_off s) (skb_len s + length room))"
    using s by (simp add: skb_put_def skb_is_nonlinear_def)
  define r1 where "r1 = take 2 room"
  define r2 where "r2 = take 2 (drop 2 room)"
  define r3 where "r3 = take ?n (drop 4 room)"
  define r4 where "r4 = drop (4 + ?n) room"
  have "room = take 2 room @ take 2 (drop 2 room) @ take ?n (drop 2 (drop 2 room)) @ drop ?n (drop 2 (drop 2 room))"
    by (simp only: append_take_drop_id)
  then have split: "room = r1 @ r2 @ r3 @ r4"
    by (simp add: r1_def r2_def r3_def r4_def add.commute)
  have lens: "length r1 = 2" "length r2 = 2" "length r3 = ?n" "length r4 = ?pad"
    using room by (auto simp: r1_def r2_def r3_def r4_def enc_attr_def)
  let ?l = "of_nat (4 + ?n) :: u16"
  have l: "of_int (nla_attr_size (int ?n)) = ?l" "uint ?l = 4 + int ?n" "uint (4 + of_nat ?n :: u16) = 4 + int ?n"
  proof -
    show "of_int (nla_attr_size (int ?n)) = ?l" by (simp add: nla_sizes)
    show "uint ?l = 4 + int ?n" "uint (4 + of_nat ?n :: u16) = 4 + int ?n"
      using uint_of_nat_u16 [of "4 + ?n"] len by simp_all
  qed
  let ?s1 = "with_linear s ((pre @ r1) @ le16 t @ (r3 @ r4 @ post)) (data_off s) (skb_len s + length room)"
  let ?s2 = "with_linear s (pre @ le16 ?l @ (le16 t @ r3 @ r4 @ post)) (data_off s) (skb_len s + length room)"
  let ?s3 = "with_linear s ((pre @ le16 ?l @ le16 t @ r3) @ replicate ?pad 0 @ post) (data_off s) (skb_len s + length room)"
  have "store (with_linear s (pre @ room @ post) (data_off s) (skb_len s + length room)) (int (length pre) + 2) (le16 t)
      = Some ?s1"
    by (subst store_mid [of _ "pre @ r1" r2 "r3 @ r4 @ post"]) (simp_all add: split lens)
  moreover have "store ?s1 (int (length pre)) (le16 ?l) = Some ?s2"
    by (subst store_mid [of _ pre r1 "le16 t @ r3 @ r4 @ post"]) (simp_all add: lens)
  moreover have "store ?s2 (int (length pre) + uint ?l) (replicate ?pad 0) = Some ?s3"
    by (subst store_mid [of _ "pre @ le16 ?l @ le16 t @ r3" r4 post]) (simp_all add: lens l)
  ultimately have "nla_reserve_raw s t (int ?n) = Some (int (length pre), ?s3)"
    by (simp add: nla_reserve_raw_def total put l Let_def)
  moreover have "store ?s3 (int (length pre) + 4) data
      = Some (with_linear s (pre @ enc_attr (t, data) @ post) (data_off s) (skb_len s + length room))"
    by (subst store_mid [of _ "pre @ le16 ?l @ le16 t" r3 "replicate ?pad 0 @ post"])
      (simp_all add: lens enc_attr_def)
  ultimately show ?thesis by (simp add: nla_put_raw_def nla_data_def)
qed

definition linear_ok :: "sk_buff \<Rightarrow> bool" where
  "linear_ok s \<longleftrightarrow> data_len s = 0 \<and> data_off s + skb_len s \<le> length (linear s)"

definition msg_bytes :: "sk_buff \<Rightarrow> u8 list" where
  "msg_bytes s = take (skb_len s) (drop (data_off s) (linear s))"

lemma nla_put_cases:
  assumes "linear_ok s" "length data \<le> 65531"
  shows "case nla_put s t data of
      None \<Rightarrow> False
    | Some (Inl e) \<Rightarrow> e = EMSGSIZE \<and> skb_tailroom s < int (length (enc_attr (t, data)))
    | Some (Inr s') \<Rightarrow> linear_ok s' \<and> msg_bytes s' = msg_bytes s @ enc_attr (t, data)
        \<and> skb_len s' = skb_len s + length (enc_attr (t, data))"
proof (cases "skb_tailroom s < nla_total_size (int (length data))")
  case True
  then show ?thesis using length_enc_attr [of "(t, data)"] by (simp add: nla_put_def)
next
  case False
  let ?n = "length (enc_attr (t, data))" and ?tail = "data_off s + skb_len s"
  let ?pre = "take ?tail (linear s)" and ?room = "take ?n (drop ?tail (linear s))"
  let ?post = "drop (?tail + ?n) (linear s)"
  have fits: "?tail + ?n \<le> length (linear s)"
    using False assms(1) length_enc_attr [of "(t, data)"]
    by (auto simp: linear_ok_def skb_tailroom_def skb_is_nonlinear_def tail_off_def skb_headlen_def)
  have "linear s = ?pre @ ?room @ ?post"
    by (metis add.commute append_take_drop_id drop_drop)
  from nla_put_raw_fills [OF this _ _ _ assms(2), of t] assms(1) fits
  have put: "nla_put_raw s t data = Some (with_linear s (?pre @ enc_attr (t, data) @ ?post) (data_off s) (skb_len s + ?n))"
    by (simp add: linear_ok_def tail_off_def skb_headlen_def min_absorb2)
  have "take (skb_len s + ?n) (drop (data_off s) (?pre @ enc_attr (t, data) @ ?post)) = msg_bytes s @ enc_attr (t, data)"
    using fits by (simp add: msg_bytes_def drop_take)
  then show ?thesis using False put fits assms(1)
    by (simp add: nla_put_def linear_ok_def msg_bytes_def)
qed

text \<open>Several attributes, one after the other.\<close>

fun nla_put_all :: "sk_buff \<Rightarrow> (u16 \<times> u8 list) list \<Rightarrow> (errno + sk_buff) option" where
  "nla_put_all s [] = Some (Inr s)"
| "nla_put_all s ((t, data) # xs) =
     (case nla_put s t data of
        None \<Rightarrow> None | Some (Inl e) \<Rightarrow> Some (Inl e) | Some (Inr s') \<Rightarrow> nla_put_all s' xs)"

definition enc_all :: "(u16 \<times> u8 list) list \<Rightarrow> u8 list" where
  "enc_all xs = concat (map enc_attr xs)"

lemma enc_all_simps [simp]: "enc_all [] = []" "enc_all (x # xs) = enc_attr x @ enc_all xs"
  by (simp_all add: enc_all_def)

lemma nla_put_all_bytes:
  assumes "linear_ok s" "nla_put_all s xs = Some (Inr s')" "\<forall>x \<in> set xs. length (snd x) \<le> 65531"
  shows "linear_ok s' \<and> msg_bytes s' = msg_bytes s @ enc_all xs \<and> skb_len s' = skb_len s + length (enc_all xs)"
  using assms
proof (induction s xs rule: nla_put_all.induct)
  case (2 s t data xs)
  then show ?case using nla_put_cases [of s data t] by (auto split: option.splits sum.splits)
qed simp

section \<open>Finding attributes in an encoded stream\<close>

lemma slice_mid: "slice (p @ x @ q) (int (length p)) (int (length x)) = Some x"
  by (simp add: slice_def)

lemma enc_attr_header:
  assumes "length (snd x) \<le> 65531"
  shows "get_u16 (p @ enc_attr x @ q) (int (length p)) = Some (of_nat (4 + length (snd x)))"
    "get_u16 (p @ enc_attr x @ q) (int (length p) + 2) = Some (fst x)"
    "nla_payload (p @ enc_attr x @ q) (int (length p)) = Some (snd x)"
proof -
  let ?l = "of_nat (4 + length (snd x)) :: u16" and ?pad = "replicate (nat (nla_padlen (int (length (snd x))))) (0 :: u8)"
  show l: "get_u16 (p @ enc_attr x @ q) (int (length p)) = Some ?l"
    using get_u16_le16 [of p ?l "le16 (fst x) @ snd x @ ?pad @ q"] by (simp add: enc_attr_def)
  show "get_u16 (p @ enc_attr x @ q) (int (length p) + 2) = Some (fst x)"
    using get_u16_le16 [of "p @ le16 ?l" "fst x" "snd x @ ?pad @ q"]
    by (simp add: enc_attr_def add.commute)
  have "uint ?l = 4 + int (length (snd x))" using uint_of_nat_u16 [of "4 + length (snd x)"] assms by simp
  then have "nla_len (p @ enc_attr x @ q) (int (length p)) = Some (int (length (snd x)))"
    using l by (simp add: nla_len_def)
  moreover have "slice (p @ enc_attr x @ q) (int (length p) + 4) (int (length (snd x))) = Some (snd x)"
    using slice_mid [of "p @ le16 ?l @ le16 (fst x)" "snd x" "?pad @ q"] by (simp add: enc_attr_def)
  ultimately show "nla_payload (p @ enc_attr x @ q) (int (length p)) = Some (snd x)"
    by (simp add: nla_payload_def nla_data_def)
qed

lemma nla_for_each_attr_Cons:
  assumes "length (snd x) \<le> 65531"
  shows "nla_for_each_attr body (p @ enc_all (x # xs) @ q) (int (length p)) (int (length (enc_all (x # xs)))) s =
    (case body (int (length p)) s of None \<Rightarrow> None | Some (Inl r) \<Rightarrow> Some (Inl r)
     | Some (Inr s') \<Rightarrow> nla_for_each_attr body ((p @ enc_attr x) @ enc_all xs @ q)
         (int (length (p @ enc_attr x))) (int (length (enc_all xs))) s')"
proof -
  let ?m = "p @ enc_all (x # xs) @ q" and ?n = "length (snd x)"
  have l: "get_u16 ?m (int (length p)) = Some (of_nat (4 + ?n))"
    using enc_attr_header(1) [OF assms, of p "enc_all xs @ q"] by simp
  have u: "uint (of_nat (4 + ?n) :: u16) = 4 + int ?n" using uint_of_nat_u16 [of "4 + ?n"] assms by simp
  have al: "NLA_ALIGN (4 + int ?n) = int (length (enc_attr x))"
    using length_enc_attr [of x] by (simp add: nla_total_size_def nla_attr_size_def)
  have "nla_ok ?m (int (length p)) (int (length (enc_all (x # xs)))) = Some True"
    using l u NLA_ALIGN_bounds(1) [of "4 + int ?n"] al by (simp add: nla_ok_def del: of_nat_add)
  moreover have "nla_next ?m (int (length p)) (int (length (enc_all (x # xs))))
      = Some (int (length (p @ enc_attr x)), int (length (enc_all xs)))"
    using l u al by (simp add: nla_next_def Let_def del: of_nat_add)
  ultimately show ?thesis
    by (subst nla_for_each_attr.simps) (simp split: option.splits sum.splits)
qed

lemma nla_find_stream:
  assumes "\<forall>x \<in> set xs. length (snd x) \<le> 65531 \<and> fst x AND NLA_TYPE_MASK = fst x"
  shows "case map_of xs t of
      None \<Rightarrow> nla_find (p @ enc_all xs @ q) (int (length p)) (int (length (enc_all xs))) (uint t) = Some None
    | Some data \<Rightarrow> \<exists>a. nla_find (p @ enc_all xs @ q) (int (length p)) (int (length (enc_all xs))) (uint t)
        = Some (Some a) \<and> nla_payload (p @ enc_all xs @ q) a = Some data"
  using assms
proof (induction xs arbitrary: p)
  case Nil
  then show ?case by (simp add: nla_find_def nla_for_each_attr.simps nla_ok_def)
next
  case (Cons x xs)
  obtain t' data where x: "x = (t', data)" by (cases x)
  have hdr: "length (snd x) \<le> 65531" "t' AND NLA_TYPE_MASK = t'" using Cons.prems x by auto
  have ty: "nla_type (p @ enc_all (x # xs) @ q) (int (length p)) = Some (uint t')"
    using enc_attr_header(2) [OF hdr(1), of p "enc_all xs @ q"] hdr(2) by (simp add: nla_type_def x)
  have pay: "nla_payload (p @ enc_all (x # xs) @ q) (int (length p)) = Some data"
    using enc_attr_header(3) [OF hdr(1), of p "enc_all xs @ q"] by (simp add: x)
  show ?case
  proof (cases "t' = t")
    case True
    then have "nla_find (p @ enc_all (x # xs) @ q) (int (length p)) (int (length (enc_all (x # xs)))) (uint t)
        = Some (Some (int (length p)))"
      unfolding nla_find_def nla_for_each_attr_Cons [OF hdr(1)] using ty by simp
    then show ?thesis using True pay x by simp
  next
    case False
    then have "nla_find (p @ enc_all (x # xs) @ q) (int (length p)) (int (length (enc_all (x # xs)))) (uint t)
        = nla_find ((p @ enc_attr x) @ enc_all xs @ q) (int (length (p @ enc_attr x))) (int (length (enc_all xs))) (uint t)"
      unfolding nla_find_def nla_for_each_attr_Cons [OF hdr(1)] using ty by (simp add: word_uint_eq_iff)
    then show ?thesis using Cons.IH [of "p @ enc_attr x"] Cons.prems False x by (simp split: option.splits)
  qed
qed

text \<open>
  C27. Round trip: attributes added to a message with \<^verbatim>\<open>nla_put\<close> are found again. For every type,
  \<^verbatim>\<open>nla_find\<close> over the added bytes returns the first attribute put with that type, with exactly the
  payload that was given, and none when there was no such attribute.
\<close>

theorem nla_put_find:
  assumes "linear_ok s" "nla_put_all s xs = Some (Inr s')"
    and "\<forall>x \<in> set xs. length (snd x) \<le> 65531 \<and> fst x AND NLA_TYPE_MASK = fst x"
  shows "case map_of xs t of
      None \<Rightarrow> nla_find (msg_bytes s') (int (skb_len s)) (int (skb_len s') - int (skb_len s)) (uint t) = Some None
    | Some data \<Rightarrow>
        \<exists>a. nla_find (msg_bytes s') (int (skb_len s)) (int (skb_len s') - int (skb_len s)) (uint t) = Some (Some a)
          \<and> nla_payload (msg_bytes s') a = Some data"
proof -
  have "length (msg_bytes s) = skb_len s" using assms(1) by (auto simp: msg_bytes_def linear_ok_def)
  then show ?thesis
    using nla_find_stream [OF assms(3), where t = t and p = "msg_bytes s" and q = "[]"] nla_put_all_bytes [OF assms(1,2)] assms(3)
    by (auto split: option.splits)
qed

definition example_msg :: sk_buff where
  "example_msg = Skb (replicate 30 7) 1 0 0 2 0 [] [] 0 0 None False False"

theorem nla_put_find_witness:
  "\<exists>s' a. nla_put_all example_msg [(1, [5]), (2, [8, 9]), (1, [6])] = Some (Inr s')
     \<and> nla_find (msg_bytes s') 2 (int (skb_len s') - 2) 1 = Some (Some a) \<and> nla_payload (msg_bytes s') a = Some [5]"
proof -
  let ?xs = "[(1, [5]), (2, [8, 9]), (1, [6])] :: (u16 \<times> u8 list) list"
  have ok: "linear_ok example_msg" by (simp add: linear_ok_def example_msg_def)
  have small: "\<forall>x \<in> set ?xs. length (snd x) \<le> 65531 \<and> fst x AND NLA_TYPE_MASK = fst x"
    by (simp add: NLA_TYPE_MASK_def)
  obtain s' where s': "nla_put_all example_msg ?xs = Some (Inr s')"
    by (simp add: nla_put_def skb_tailroom_def nla_put_raw_def nla_reserve_raw_def skb_put_def store_def
        example_msg_def skb_is_nonlinear_def tail_off_def skb_headlen_def with_linear_def as_unsigned_def
        nla_total_size_def nla_attr_size_def nla_padlen_def NLA_ALIGN_eq nla_data_def memcpy_def le16_def)
  have "skb_len example_msg = 2" by (simp add: example_msg_def)
  with nla_put_find [OF ok s' small, of 1] s' show ?thesis by simp
qed

section \<open>Policies\<close>

lemma nla_policy_len_loop_eq:
  "nla_policy_len_loop p n len = len + int n * (if pol_len p \<noteq> 0 then nla_total_size (int (pol_len p))
     else if nla_attr_minlen (pol_type p) \<noteq> 0 then nla_total_size (nla_attr_minlen (pol_type p)) else 0)"
  by (induction n arbitrary: len) (auto simp: algebra_simps)

text \<open>
  \<^verbatim>\<open>nla_policy_len\<close> is meant to add up the sizes of all entries of a policy. Its loop never
  advances the pointer into the array, so that the result is the size of the first entry times the
  number of entries, whatever the other entries are.
\<close>

theorem nla_policy_len_first_entry:
  "nla_policy_len (p # ps) n = int n * (if pol_len p \<noteq> 0 then nla_total_size (int (pol_len p))
     else if nla_attr_minlen (pol_type p) \<noteq> 0 then nla_total_size (nla_attr_minlen (pol_type p)) else 0)"
  by (simp add: nla_policy_len_def nla_policy_len_loop_eq)

text \<open>
  The table of minimal lengths has no entry for \<^verbatim>\<open>NLA_MSECS\<close>, whose getter reads eight bytes: a
  policy that declares an attribute as \<^verbatim>\<open>NLA_MSECS\<close> accepts it with any payload, an empty one
  included, at the very end of a message.
\<close>

theorem nla_msecs_unchecked:
  "validate_nla ([4, 0, 2, 0] :: u8 list) 0 2 example_policy = Some Valid
    \<and> slice ([4, 0, 2, 0] :: u8 list) (nla_data 0) 8 = None
    \<and> validate_minlen \<lparr>pol_type = NLA_MSECS, pol_len = 0\<rparr> (int n) = Valid"
  by (simp add: validate_nla_def nla_len_def nla_type_def get_u16_def slice_def NLA_TYPE_MASK_def nla_data_def
      example_policy_def nla_kind_defs validate_minlen_def nla_attr_minlen_def Let_def)

end
