(* ===== verification/Socket_Filter.thy ===== *)
theory Socket_Filter
  imports Nlattr
begin

text \<open>
  The socket filter (\<^verbatim>\<open>net/core/filter.c\<close>, \<^verbatim>\<open>include/linux/filter.h\<close>): programs of a small machine that
  user space attaches to a socket. \<^verbatim>\<open>sk_chk_filter\<close> decides which programs may be attached,
  \<^verbatim>\<open>sk_run_filter\<close> runs them on every packet inside the kernel. The machine has an accumulator, an index
  register and sixteen words of scratch memory, which start with whatever the stack holds.
\<close>

section \<open>Instructions\<close>

record sock_filter =
  code :: u16
  jt :: u8
  jf :: u8
  k :: u32

definition BPF_LD :: u16 where "BPF_LD = 0x00"
definition BPF_LDX :: u16 where "BPF_LDX = 0x01"
definition BPF_ST :: u16 where "BPF_ST = 0x02"
definition BPF_STX :: u16 where "BPF_STX = 0x03"
definition BPF_ALU :: u16 where "BPF_ALU = 0x04"
definition BPF_JMP :: u16 where "BPF_JMP = 0x05"
definition BPF_RET :: u16 where "BPF_RET = 0x06"
definition BPF_MISC :: u16 where "BPF_MISC = 0x07"
definition BPF_W :: u16 where "BPF_W = 0x00"
definition BPF_H :: u16 where "BPF_H = 0x08"
definition BPF_B :: u16 where "BPF_B = 0x10"
definition BPF_IMM :: u16 where "BPF_IMM = 0x00"
definition BPF_ABS :: u16 where "BPF_ABS = 0x20"
definition BPF_IND :: u16 where "BPF_IND = 0x40"
definition BPF_MEM :: u16 where "BPF_MEM = 0x60"
definition BPF_LEN :: u16 where "BPF_LEN = 0x80"
definition BPF_MSH :: u16 where "BPF_MSH = 0xa0"
definition BPF_ADD :: u16 where "BPF_ADD = 0x00"
definition BPF_SUB :: u16 where "BPF_SUB = 0x10"
definition BPF_MUL :: u16 where "BPF_MUL = 0x20"
definition BPF_DIV :: u16 where "BPF_DIV = 0x30"
definition BPF_OR :: u16 where "BPF_OR = 0x40"
definition BPF_AND :: u16 where "BPF_AND = 0x50"
definition BPF_LSH :: u16 where "BPF_LSH = 0x60"
definition BPF_RSH :: u16 where "BPF_RSH = 0x70"
definition BPF_NEG :: u16 where "BPF_NEG = 0x80"
definition BPF_JA :: u16 where "BPF_JA = 0x00"
definition BPF_JEQ :: u16 where "BPF_JEQ = 0x10"
definition BPF_JGT :: u16 where "BPF_JGT = 0x20"
definition BPF_JGE :: u16 where "BPF_JGE = 0x30"
definition BPF_JSET :: u16 where "BPF_JSET = 0x40"
definition BPF_K :: u16 where "BPF_K = 0x00"
definition BPF_X :: u16 where "BPF_X = 0x08"
definition BPF_A :: u16 where "BPF_A = 0x10"
definition BPF_TAX :: u16 where "BPF_TAX = 0x00"
definition BPF_TXA :: u16 where "BPF_TXA = 0x80"
definition BPF_CLASS :: "u16 \<Rightarrow> u16" where "BPF_CLASS c = c AND 0x07"
definition BPF_MAXINSNS :: nat where "BPF_MAXINSNS = 4096"
definition BPF_MEMWORDS :: nat where "BPF_MEMWORDS = 16"

lemmas bpf_consts = BPF_LD_def BPF_LDX_def BPF_ST_def BPF_STX_def BPF_ALU_def BPF_JMP_def BPF_RET_def
  BPF_MISC_def BPF_W_def BPF_H_def BPF_B_def BPF_IMM_def BPF_ABS_def BPF_IND_def BPF_MEM_def BPF_LEN_def
  BPF_MSH_def BPF_ADD_def BPF_SUB_def BPF_MUL_def BPF_DIV_def BPF_OR_def BPF_AND_def BPF_LSH_def
  BPF_RSH_def BPF_NEG_def BPF_JA_def BPF_JEQ_def BPF_JGT_def BPF_JGE_def BPF_JSET_def BPF_K_def
  BPF_X_def BPF_A_def BPF_TAX_def BPF_TXA_def

definition SKF_AD_OFF :: int where "SKF_AD_OFF = - 0x1000"
definition SKF_AD_PROTOCOL :: int where "SKF_AD_PROTOCOL = 0"
definition SKF_AD_PKTTYPE :: int where "SKF_AD_PKTTYPE = 4"
definition SKF_AD_IFINDEX :: int where "SKF_AD_IFINDEX = 8"
definition SKF_AD_NLATTR :: int where "SKF_AD_NLATTR = 12"
definition SKF_AD_NLATTR_NEST :: int where "SKF_AD_NLATTR_NEST = 16"
definition SKF_NET_OFF :: int where "SKF_NET_OFF = - 0x100000"
definition SKF_LL_OFF :: int where "SKF_LL_OFF = - 0x200000"

lemmas skf_consts = SKF_AD_OFF_def SKF_AD_PROTOCOL_def SKF_AD_PKTTYPE_def SKF_AD_IFINDEX_def
  SKF_AD_NLATTR_def SKF_AD_NLATTR_NEST_def SKF_NET_OFF_def SKF_LL_OFF_def

text \<open>The labels of the two \<^verbatim>\<open>switch\<close> statements over \<^verbatim>\<open>fentry->code\<close>: both have the same labels.\<close>

datatype alu = Add | Sub | Mul | Div | And | Or | Lsh | Rsh
datatype cond = Jgt | Jge | Jeq | Jset
datatype source = SrcK | SrcX
datatype width = W | H | B

datatype opcode =
    Alu alu source | Neg | Ja | Jump cond source
  | LdAbs width | LdInd width | LdLen | LdImm | LdMem
  | LdxLen | LdxMsh | LdxImm | LdxMem
  | Tax | Txa | RetK | RetA | St | Stx

definition alu_labels :: "(u16 \<times> opcode) list" where
  "alu_labels =
     [(BPF_ALU OR BPF_ADD OR BPF_X, Alu Add SrcX), (BPF_ALU OR BPF_ADD OR BPF_K, Alu Add SrcK),
      (BPF_ALU OR BPF_SUB OR BPF_X, Alu Sub SrcX), (BPF_ALU OR BPF_SUB OR BPF_K, Alu Sub SrcK),
      (BPF_ALU OR BPF_MUL OR BPF_X, Alu Mul SrcX), (BPF_ALU OR BPF_MUL OR BPF_K, Alu Mul SrcK),
      (BPF_ALU OR BPF_DIV OR BPF_X, Alu Div SrcX), (BPF_ALU OR BPF_DIV OR BPF_K, Alu Div SrcK),
      (BPF_ALU OR BPF_AND OR BPF_X, Alu And SrcX), (BPF_ALU OR BPF_AND OR BPF_K, Alu And SrcK),
      (BPF_ALU OR BPF_OR OR BPF_X, Alu Or SrcX), (BPF_ALU OR BPF_OR OR BPF_K, Alu Or SrcK),
      (BPF_ALU OR BPF_LSH OR BPF_X, Alu Lsh SrcX), (BPF_ALU OR BPF_LSH OR BPF_K, Alu Lsh SrcK),
      (BPF_ALU OR BPF_RSH OR BPF_X, Alu Rsh SrcX), (BPF_ALU OR BPF_RSH OR BPF_K, Alu Rsh SrcK),
      (BPF_ALU OR BPF_NEG, Neg)]"

definition jmp_labels :: "(u16 \<times> opcode) list" where
  "jmp_labels =
     [(BPF_JMP OR BPF_JA, Ja),
      (BPF_JMP OR BPF_JGT OR BPF_K, Jump Jgt SrcK), (BPF_JMP OR BPF_JGE OR BPF_K, Jump Jge SrcK),
      (BPF_JMP OR BPF_JEQ OR BPF_K, Jump Jeq SrcK), (BPF_JMP OR BPF_JSET OR BPF_K, Jump Jset SrcK),
      (BPF_JMP OR BPF_JGT OR BPF_X, Jump Jgt SrcX), (BPF_JMP OR BPF_JGE OR BPF_X, Jump Jge SrcX),
      (BPF_JMP OR BPF_JEQ OR BPF_X, Jump Jeq SrcX), (BPF_JMP OR BPF_JSET OR BPF_X, Jump Jset SrcX)]"

definition other_labels :: "(u16 \<times> opcode) list" where
  "other_labels =
     [(BPF_LD OR BPF_W OR BPF_ABS, LdAbs W), (BPF_LD OR BPF_H OR BPF_ABS, LdAbs H),
      (BPF_LD OR BPF_B OR BPF_ABS, LdAbs B), (BPF_LD OR BPF_W OR BPF_LEN, LdLen),
      (BPF_LDX OR BPF_W OR BPF_LEN, LdxLen), (BPF_LD OR BPF_W OR BPF_IND, LdInd W),
      (BPF_LD OR BPF_H OR BPF_IND, LdInd H), (BPF_LD OR BPF_B OR BPF_IND, LdInd B),
      (BPF_LDX OR BPF_B OR BPF_MSH, LdxMsh), (BPF_LD OR BPF_IMM, LdImm), (BPF_LDX OR BPF_IMM, LdxImm),
      (BPF_LD OR BPF_MEM, LdMem), (BPF_LDX OR BPF_MEM, LdxMem), (BPF_MISC OR BPF_TAX, Tax),
      (BPF_MISC OR BPF_TXA, Txa), (BPF_RET OR BPF_K, RetK), (BPF_RET OR BPF_A, RetA),
      (BPF_ST, St), (BPF_STX, Stx)]"

definition decode :: "u16 \<Rightarrow> opcode option" where
  "decode c = map_of (alu_labels @ jmp_labels @ other_labels) c"

section \<open>Loads\<close>

definition load_pointer_slow :: "sk_buff \<Rightarrow> int \<Rightarrow> int option" where
  "load_pointer_slow s off =
     (let ptr = (if off \<ge> SKF_NET_OFF then Some (int (network_off s) + off - SKF_NET_OFF)
                 else if off \<ge> SKF_LL_OFF then Some (int (mac_off s) + off - SKF_LL_OFF) else None) in
      case ptr of None \<Rightarrow> None | Some p \<Rightarrow> if 0 \<le> p \<and> p < tail_off s then Some p else None)"

text \<open>\<^verbatim>\<open>load_pointer\<close> and the read of \<open>n\<close> bytes at the pointer it returns (none for \<^const>\<open>CopyFault\<close>).\<close>

definition load_pointer :: "sk_buff \<Rightarrow> int \<Rightarrow> int \<Rightarrow> copy_result" where
  "load_pointer s off n =
     (if off \<ge> 0 then skb_header_pointer s off n
      else if off \<ge> SKF_AD_OFF then CopyFault
      else case load_pointer_slow s off of
          None \<Rightarrow> CopyFault
        | Some p \<Rightarrow> (case slice (linear s) p n of None \<Rightarrow> OutOfMemory | Some bs \<Rightarrow> Copied bs))"

fun width_bytes :: "width \<Rightarrow> int" where
  "width_bytes W = 4" | "width_bytes H = 2" | "width_bytes B = 1"

text \<open>\<^verbatim>\<open>get_unaligned_be32\<close>, \<^verbatim>\<open>get_unaligned_be16\<close> and the plain byte.\<close>

definition get_be :: "u8 list \<Rightarrow> u32" where
  "get_be bs = foldl (\<lambda>v b. push_bit 8 v OR ucast b) 0 bs"

definition ntohs :: "u16 \<Rightarrow> u16" where
  "ntohs v = push_bit 8 v OR drop_bit 8 v"

section \<open>The machine\<close>

record bpf =
  A :: u32
  X :: u32
  mem :: "u32 list"

datatype trap =
    DivZero | BadMem | BadPc | PacketRead
  | HeaderOverread | NullDev | NlattrRead | NestRead

text \<open>What one instruction leads to: the next one, a jump by an offset, the end of the run, the
  \<^verbatim>\<open>WARN_ON\<close> on an unknown code, or an access the C program has no right to make.\<close>

datatype outcome = Next bpf | Jmp u32 | Returned u32 | Warned | Trap trap

definition operand :: "source \<Rightarrow> sock_filter \<Rightarrow> bpf \<Rightarrow> u32" where
  "operand src f st = (case src of SrcK \<Rightarrow> k f | SrcX \<Rightarrow> X st)"

text \<open>Shifts take their amount from the low byte of a register, as the processor does; C leaves
  amounts of 32 and more open.\<close>

definition shift_amount :: "u32 \<Rightarrow> nat" where
  "shift_amount v = unat (v AND 0xff)"

definition exec_alu :: "alu \<Rightarrow> source \<Rightarrow> sock_filter \<Rightarrow> bpf \<Rightarrow> outcome" where
  "exec_alu op src f st =
     (let v = operand src f st in
      case op of
        Add \<Rightarrow> Next (st\<lparr>A := A st + v\<rparr>)
      | Sub \<Rightarrow> Next (st\<lparr>A := A st - v\<rparr>)
      | Mul \<Rightarrow> Next (st\<lparr>A := A st * v\<rparr>)
      | Div \<Rightarrow> if v = 0 then (case src of SrcX \<Rightarrow> Returned 0 | SrcK \<Rightarrow> Trap DivZero)
               else Next (st\<lparr>A := A st div v\<rparr>)
      | And \<Rightarrow> Next (st\<lparr>A := A st AND v\<rparr>)
      | Or \<Rightarrow> Next (st\<lparr>A := A st OR v\<rparr>)
      | Lsh \<Rightarrow> Next (st\<lparr>A := push_bit (shift_amount v) (A st)\<rparr>)
      | Rsh \<Rightarrow> Next (st\<lparr>A := drop_bit (shift_amount v) (A st)\<rparr>))"

definition exec_jump :: "cond \<Rightarrow> source \<Rightarrow> sock_filter \<Rightarrow> bpf \<Rightarrow> outcome" where
  "exec_jump c src f st =
     (let v = operand src f st;
          b = (case c of Jgt \<Rightarrow> A st > v | Jge \<Rightarrow> A st \<ge> v | Jeq \<Rightarrow> A st = v | Jset \<Rightarrow> A st AND v \<noteq> 0) in
      Jmp (if b then ucast (jt f) else ucast (jf f)))"

text \<open>The second \<^verbatim>\<open>switch\<close>: ancillary data. The address of \<^verbatim>\<open>skb->data[A]\<close> is computed modulo
  \<open>2 ^ 32\<close>, relative to the start of the buffer.\<close>

definition data_addr :: "sk_buff \<Rightarrow> u32 \<Rightarrow> int" where
  "data_addr s a = uint (of_nat (data_off s) + a)"

definition exec_nlattr :: "sk_buff \<Rightarrow> bpf \<Rightarrow> outcome" where
  "exec_nlattr s st =
     (if skb_is_nonlinear s then Returned 0
      else if A st > of_nat (skb_len s) - 4 then Returned 0
      else case nla_find (linear s) (data_addr s (A st)) (sint (of_nat (skb_len s) - A st)) (sint (X st)) of
          None \<Rightarrow> Trap NlattrRead
        | Some None \<Rightarrow> Next (st\<lparr>A := 0\<rparr>)
        | Some (Some nla) \<Rightarrow> Next (st\<lparr>A := of_int (nla - int (data_off s))\<rparr>))"

definition exec_nlattr_nest :: "sk_buff \<Rightarrow> bpf \<Rightarrow> outcome" where
  "exec_nlattr_nest s st =
     (if skb_is_nonlinear s then Returned 0
      else if A st > of_nat (skb_len s) - 4 then Returned 0
      else case get_u16 (linear s) (data_addr s (A st)) of
          None \<Rightarrow> Trap NestRead
        | Some len \<Rightarrow>
            if (ucast len :: u32) > A st - of_nat (skb_len s) then Returned 0
            else case nla_find_nested (linear s) (data_addr s (A st)) (sint (X st)) of
                None \<Rightarrow> Trap NestRead
              | Some None \<Rightarrow> Next (st\<lparr>A := 0\<rparr>)
              | Some (Some nla) \<Rightarrow> Next (st\<lparr>A := of_int (nla - int (data_off s))\<rparr>))"

definition exec_ancillary :: "sk_buff \<Rightarrow> int \<Rightarrow> bpf \<Rightarrow> outcome" where
  "exec_ancillary s off st =
     (let which = off - SKF_AD_OFF in
      if which = SKF_AD_PROTOCOL then Next (st\<lparr>A := ucast (ntohs (protocol s))\<rparr>)
      else if which = SKF_AD_PKTTYPE then Next (st\<lparr>A := ucast (pkt_type s)\<rparr>)
      else if which = SKF_AD_IFINDEX then
        (case dev_ifindex s of None \<Rightarrow> Trap NullDev | Some i \<Rightarrow> Next (st\<lparr>A := i\<rparr>))
      else if which = SKF_AD_NLATTR then exec_nlattr s st
      else if which = SKF_AD_NLATTR_NEST then exec_nlattr_nest s st
      else Returned 0)"

definition read_trap :: "int \<Rightarrow> trap" where
  "read_trap off = (if off \<ge> 0 then PacketRead else HeaderOverread)"

definition exec_load :: "sk_buff \<Rightarrow> width \<Rightarrow> int \<Rightarrow> bpf \<Rightarrow> outcome" where
  "exec_load s w off st =
     (case load_pointer s off (width_bytes w) of
        Copied bs \<Rightarrow> Next (st\<lparr>A := get_be bs\<rparr>)
      | CopyFault \<Rightarrow> exec_ancillary s off st
      | OutOfMemory \<Rightarrow> Trap (read_trap off))"

definition exec_msh :: "sk_buff \<Rightarrow> int \<Rightarrow> bpf \<Rightarrow> outcome" where
  "exec_msh s off st =
     (case load_pointer s off 1 of
        Copied bs \<Rightarrow> Next (st\<lparr>X := push_bit 2 (ucast (bs ! 0 AND 0xf))\<rparr>)
      | CopyFault \<Rightarrow> Returned 0
      | OutOfMemory \<Rightarrow> Trap (read_trap off))"

definition mem_index :: "sock_filter \<Rightarrow> bpf \<Rightarrow> (nat \<Rightarrow> outcome) \<Rightarrow> outcome" where
  "mem_index f st go = (if unat (k f) < length (mem st) then go (unat (k f)) else Trap BadMem)"

definition exec :: "sk_buff \<Rightarrow> sock_filter \<Rightarrow> bpf \<Rightarrow> outcome" where
  "exec s f st =
     (case decode (code f) of
        None \<Rightarrow> Warned
      | Some (Alu op src) \<Rightarrow> exec_alu op src f st
      | Some Neg \<Rightarrow> Next (st\<lparr>A := - A st\<rparr>)
      | Some Ja \<Rightarrow> Jmp (k f)
      | Some (Jump c src) \<Rightarrow> exec_jump c src f st
      | Some (LdAbs w) \<Rightarrow> exec_load s w (sint (k f)) st
      | Some (LdInd w) \<Rightarrow> exec_load s w (sint (X st + k f)) st
      | Some LdLen \<Rightarrow> Next (st\<lparr>A := of_nat (skb_len s)\<rparr>)
      | Some LdxLen \<Rightarrow> Next (st\<lparr>X := of_nat (skb_len s)\<rparr>)
      | Some LdxMsh \<Rightarrow> exec_msh s (sint (k f)) st
      | Some LdImm \<Rightarrow> Next (st\<lparr>A := k f\<rparr>)
      | Some LdxImm \<Rightarrow> Next (st\<lparr>X := k f\<rparr>)
      | Some LdMem \<Rightarrow> mem_index f st (\<lambda>i. Next (st\<lparr>A := mem st ! i\<rparr>))
      | Some LdxMem \<Rightarrow> mem_index f st (\<lambda>i. Next (st\<lparr>X := mem st ! i\<rparr>))
      | Some Tax \<Rightarrow> Next (st\<lparr>X := A st\<rparr>)
      | Some Txa \<Rightarrow> Next (st\<lparr>A := X st\<rparr>)
      | Some RetK \<Rightarrow> Returned (k f)
      | Some RetA \<Rightarrow> Returned (A st)
      | Some St \<Rightarrow> mem_index f st (\<lambda>i. Next (st\<lparr>mem := (mem st)[i := A st]\<rparr>))
      | Some Stx \<Rightarrow> mem_index f st (\<lambda>i. Next (st\<lparr>mem := (mem st)[i := X st]\<rparr>)))"

text \<open>The loop. \<^verbatim>\<open>pc\<close> is a signed integer to which jump offsets are added modulo \<open>2 ^ 32\<close>; an
  unchecked program may loop for ever, hence the fuel.\<close>

fun run_loop :: "nat \<Rightarrow> sk_buff \<Rightarrow> sock_filter list \<Rightarrow> int \<Rightarrow> bpf \<Rightarrow> outcome option" where
  "run_loop 0 s prog pc st = None"
| "run_loop (Suc fuel) s prog pc st =
     (if pc \<ge> int (length prog) then Some (Returned 0)
      else if pc < 0 then Some (Trap BadPc)
      else case exec s (prog ! nat pc) st of
          Next st' \<Rightarrow> run_loop fuel s prog (pc + 1) st'
        | Jmp off \<Rightarrow> run_loop fuel s prog (sint (of_int pc + off) + 1) st
        | stop \<Rightarrow> Some stop)"

definition sk_run_filter :: "nat \<Rightarrow> u32 list \<Rightarrow> sk_buff \<Rightarrow> sock_filter list \<Rightarrow> outcome option" where
  "sk_run_filter fuel stack s prog = run_loop fuel s prog 0 \<lparr>A = 0, X = 0, mem = stack\<rparr>"

section \<open>The checker\<close>

definition chk_insn :: "nat \<Rightarrow> nat \<Rightarrow> sock_filter \<Rightarrow> bool" where
  "chk_insn flen pc f =
     (case decode (code f) of
        None \<Rightarrow> False
      | Some (Alu Div SrcK) \<Rightarrow> k f \<noteq> 0
      | Some LdMem \<Rightarrow> unat (k f) < BPF_MEMWORDS
      | Some LdxMem \<Rightarrow> unat (k f) < BPF_MEMWORDS
      | Some St \<Rightarrow> unat (k f) < BPF_MEMWORDS
      | Some Stx \<Rightarrow> unat (k f) < BPF_MEMWORDS
      | Some Ja \<Rightarrow> k f < of_nat (flen - pc - 1)
      | Some (Jump c src) \<Rightarrow> pc + unat (jt f) + 1 < flen \<and> pc + unat (jf f) + 1 < flen
      | Some _ \<Rightarrow> True)"

fun chk_loop :: "nat \<Rightarrow> nat \<Rightarrow> sock_filter list \<Rightarrow> bool" where
  "chk_loop flen pc [] = True"
| "chk_loop flen pc (f # fs) = (chk_insn flen pc f \<and> chk_loop flen (pc + 1) fs)"

definition sk_chk_filter :: "sock_filter list \<Rightarrow> errno option" where
  "sk_chk_filter prog =
     (let flen = length prog in
      if flen = 0 \<or> flen > BPF_MAXINSNS then Some EINVAL
      else if \<not> chk_loop flen 0 prog then Some EINVAL
      else if BPF_CLASS (code (prog ! (flen - 1))) = BPF_RET then None else Some EINVAL)"

section \<open>Attaching filters to sockets\<close>














section \<open>What the checker guarantees\<close>

lemma decode_in_labels: "decode c = Some op \<Longrightarrow> (c, op) \<in> set (alu_labels @ jmp_labels @ other_labels)"
  unfolding decode_def by (rule map_of_SomeD)

lemma decode_ret:
  assumes "decode c = Some op" "BPF_CLASS c = BPF_RET"
  shows "op = RetK \<or> op = RetA"
  using decode_in_labels [OF assms(1)] assms(2)
  by (auto simp: alu_labels_def jmp_labels_def other_labels_def bpf_consts BPF_CLASS_def)

text \<open>Traps that a checked program can still run into, all of them in accesses outside the packet.\<close>

definition residual :: "trap set" where
  "residual = {HeaderOverread, NullDev, NlattrRead, NestRead}"

definition stays :: "nat \<Rightarrow> nat \<Rightarrow> outcome \<Rightarrow> bool" where
  "stays flen pc r = (case r of
       Next st \<Rightarrow> length (mem st) = BPF_MEMWORDS
     | Jmp off \<Rightarrow> pc + unat off + 1 < flen
     | Returned _ \<Rightarrow> True
     | Warned \<Rightarrow> False
     | Trap t \<Rightarrow> t \<in> residual)"

lemma exec_nlattr_stays: "length (mem st) = BPF_MEMWORDS \<Longrightarrow> stays flen pc (exec_nlattr s st)"
  by (auto simp: exec_nlattr_def stays_def residual_def split: option.splits)

lemma exec_nlattr_nest_stays: "length (mem st) = BPF_MEMWORDS \<Longrightarrow> stays flen pc (exec_nlattr_nest s st)"
  by (auto simp: exec_nlattr_nest_def stays_def residual_def split: option.splits)

lemma exec_ancillary_stays: "length (mem st) = BPF_MEMWORDS \<Longrightarrow> stays flen pc (exec_ancillary s off st)"
  using exec_nlattr_stays exec_nlattr_nest_stays
  by (auto simp: exec_ancillary_def Let_def stays_def residual_def split: option.splits)

lemma load_pointer_packet:
  assumes "skb_ok s" "0 \<le> off" "0 < n"
  shows "load_pointer s off n = (if off + n \<le> int (skb_len s)
     then Copied (take (nat n) (drop (nat off) (skb_bytes s))) else CopyFault)"
  using assms by (simp add: load_pointer_def skb_header_pointer_window)

lemma load_pointer_negative: "off < 0 \<Longrightarrow> load_pointer s off n = OutOfMemory \<Longrightarrow> read_trap off \<in> residual"
  by (simp add: read_trap_def residual_def)

lemma exec_load_stays:
  assumes "skb_ok s" "length (mem st) = BPF_MEMWORDS"
  shows "stays flen pc (exec_load s w off st)"
proof (cases "0 \<le> off")
  case True
  have "0 < width_bytes w" by (cases w) simp_all
  with True assms show ?thesis
    using exec_ancillary_stays [OF assms(2)] by (auto simp: exec_load_def load_pointer_packet stays_def)
next
  case False
  then show ?thesis
    using exec_ancillary_stays [OF assms(2)] assms(2) load_pointer_negative [of off s "width_bytes w"]
    by (auto simp: exec_load_def stays_def split: copy_result.splits)
qed

lemma exec_msh_stays:
  assumes "skb_ok s" "length (mem st) = BPF_MEMWORDS"
  shows "stays flen pc (exec_msh s off st)"
proof (cases "0 \<le> off")
  case True
  with assms show ?thesis by (auto simp: exec_msh_def load_pointer_packet stays_def)
next
  case False
  then show ?thesis using assms(2) load_pointer_negative [of off s 1]
    by (auto simp: exec_msh_def stays_def split: copy_result.splits)
qed

lemma exec_alu_stays:
  assumes "length (mem st) = BPF_MEMWORDS" "\<not> (op = Div \<and> src = SrcK \<and> k f = 0)"
  shows "stays flen pc (exec_alu op src f st)"
  using assms by (cases op; cases src) (auto simp: exec_alu_def operand_def stays_def Let_def)

lemma mem_index_stays:
  assumes "unat (k f) < BPF_MEMWORDS" "length (mem st) = BPF_MEMWORDS"
    "\<And>i. stays flen pc (go i)"
  shows "stays flen pc (mem_index f st go)"
  using assms by (simp add: mem_index_def)

lemma exec_checked:
  assumes "chk_insn flen pc f" "skb_ok s" and m: "length (mem st) = BPF_MEMWORDS" and "pc < flen" "flen \<le> BPF_MAXINSNS"
  shows "stays flen pc (exec s f st)"
proof -
  from assms(1) obtain op where op: "decode (code f) = Some op" by (auto simp: chk_insn_def split: option.splits)
  have ja: "pc + unat (k f) + 1 < flen" if "k f < of_nat (flen - pc - 1)"
  proof -
    have "unat (of_nat (flen - pc - 1) :: u32) = flen - pc - 1"
      using assms(5) by (intro unat_of_nat_small) (simp add: BPF_MAXINSNS_def)
    with that show ?thesis by (simp add: word_less_nat_alt)
  qed
  show ?thesis
  proof (cases op)
    case (Alu a src)
    then show ?thesis using assms(1) op exec_alu_stays [OF m]
      by (auto simp: exec_def chk_insn_def split: alu.splits source.splits)
  next
    case (Jump c src)
    then show ?thesis using assms(1) op
      by (auto simp: exec_def chk_insn_def exec_jump_def Let_def stays_def unat_ucast_up)
  qed (use assms(1) op m exec_load_stays [OF assms(2) m] exec_msh_stays [OF assms(2) m] ja in
    \<open>auto simp: exec_def chk_insn_def stays_def intro!: mem_index_stays [OF _ m, unfolded stays_def]\<close>)
qed

lemma chk_loop_nth: "chk_loop flen pc fs \<longleftrightarrow> (\<forall>i < length fs. chk_insn flen (pc + i) (fs ! i))"
  by (induction fs arbitrary: pc) (auto simp: nth_Cons less_Suc_eq_0_disj split: nat.splits)

lemma sk_chk_filter_accepts:
  "sk_chk_filter prog = None \<longleftrightarrow>
     0 < length prog \<and> length prog \<le> BPF_MAXINSNS
     \<and> (\<forall>i < length prog. chk_insn (length prog) i (prog ! i))
     \<and> BPF_CLASS (code (last prog)) = BPF_RET"
  by (auto simp: sk_chk_filter_def Let_def chk_loop_nth last_conv_nth split: if_splits)

lemma exec_last:
  assumes "sk_chk_filter prog = None"
  shows "\<exists>v. exec s (prog ! (length prog - 1)) st = Returned v"
proof -
  from assms have "chk_insn (length prog) (length prog - 1) (last prog)" "BPF_CLASS (code (last prog)) = BPF_RET"
      "prog \<noteq> []"
    by (auto simp: sk_chk_filter_accepts last_conv_nth)
  moreover from this obtain op where "decode (code (last prog)) = Some op"
    by (auto simp: chk_insn_def split: option.splits)
  ultimately show ?thesis using decode_ret [of "code (last prog)" op] by (auto simp: exec_def last_conv_nth)
qed

lemma pc_jump:
  assumes "pc + unat off + 1 < flen" "flen \<le> BPF_MAXINSNS"
  shows "sint (of_int (int pc) + off :: u32) + 1 = int (pc + unat off + 1)"
proof -
  have "unat (of_nat pc + off :: u32) = pc + unat off"
    using assms by (simp add: unat_word_ariths unat_of_nat_small BPF_MAXINSNS_def)
  moreover from this have "sint (of_nat pc + off :: u32) = int (unat (of_nat pc + off :: u32))"
    using assms by (intro sint_small) (simp add: BPF_MAXINSNS_def)
  ultimately show ?thesis by simp
qed

definition finished :: "outcome \<Rightarrow> bool" where
  "finished r \<longleftrightarrow> (\<exists>v. r = Returned v) \<or> (\<exists>t \<in> residual. r = Trap t)"

lemma run_loop_checked:
  assumes chk: "sk_chk_filter prog = None" and "skb_ok s"
    and "pc < length prog" "length (mem st) = BPF_MEMWORDS" "length prog \<le> pc + fuel"
  shows "\<exists>r. run_loop fuel s prog (int pc) st = Some r \<and> finished r"
  using assms(3-5)
proof (induction fuel arbitrary: pc st)
  case 0
  then show ?case by simp
next
  case (Suc fuel)
  let ?r = "exec s (prog ! pc) st"
  have stays: "stays (length prog) pc ?r"
    using chk Suc.prems assms(2) by (intro exec_checked) (auto simp: sk_chk_filter_accepts)
  have le: "length prog \<le> BPF_MAXINSNS" using chk by (simp add: sk_chk_filter_accepts)
  have unf: "run_loop (Suc fuel) s prog (int pc) st =
      (case ?r of Next st' \<Rightarrow> run_loop fuel s prog (int (pc + 1)) st'
       | Jmp off \<Rightarrow> run_loop fuel s prog (sint (of_int (int pc) + off) + 1) st | stop \<Rightarrow> Some stop)"
    using Suc.prems(1) by (cases ?r) (simp_all add: add.commute)
  show ?case
  proof (cases ?r)
    case (Next st')
    have "pc + 1 < length prog"
      using exec_last [OF chk, of s st] Next Suc.prems(1) by (cases "pc = length prog - 1") auto
    with Suc.IH [of "pc + 1" st'] Next stays Suc.prems show ?thesis unfolding unf by (simp add: stays_def)
  next
    case (Jmp off)
    then have next_pc: "pc + unat off + 1 < length prog" using stays by (simp add: stays_def)
    with Suc.IH [of "pc + unat off + 1" st] Suc.prems show ?thesis
      unfolding unf Jmp outcome.case pc_jump [OF next_pc le] by simp
  qed (use stays unf in \<open>auto simp: finished_def stays_def\<close>)
qed

text \<open>Where a trap comes from.\<close>

lemma run_loop_trap:
  assumes "run_loop fuel s prog pc st = Some (Trap t)"
  shows "t = BadPc \<or> (\<exists>f \<in> set prog. \<exists>st. exec s f st = Trap t)"
  using assms
proof (induction fuel arbitrary: pc st)
  case (Suc fuel)
  show ?case
  proof (cases "0 \<le> pc \<and> pc < int (length prog)")
    case True
    then have "nat pc < length prog" by linarith
    then have "prog ! nat pc \<in> set prog" by (rule nth_mem)
    then show ?thesis using Suc True by (cases "exec s (prog ! nat pc) st") auto
  qed (use Suc.prems in \<open>auto split: if_splits\<close>)
qed simp

lemma nla_find_defined:
  assumes "0 \<le> head" "head + len \<le> int (length m)"
  shows "\<exists>r. nla_find m head len t = Some r"
proof -
  let ?body = "\<lambda>nla _. map_option (\<lambda>t'. if t' = t then Inl nla else Inr ()) (nla_type m nla)"
  have "case ?body a s of None \<Rightarrow> False | Some (Inl r) \<Rightarrow> True | Some (Inr s') \<Rightarrow> True"
    if "attr_in m head (head + len) a" for a and s :: unit
    using attr_in_facts [OF that assms] by (auto split: option.splits)
  from nla_for_each_attr_rule [where I = "\<lambda>_. True" and Q = "\<lambda>_. True" and body = ?body and s = "()",
      OF assms(1) order.refl order.refl assms(2) TrueI this]
  show ?thesis by (auto simp: nla_find_def split: option.splits)
qed

text \<open>In a packet of at least four bytes the bound on \<^verbatim>\<open>A\<close> does what it should.\<close>

lemma linear_bounds:
  assumes "skb_ok s" "\<not> skb_is_nonlinear s"
  shows "skb_len s < 2 ^ 31" "data_off s + skb_len s \<le> length (linear s)" "length (linear s) < 2 ^ 31"
proof -
  obtain lin data nw mac slen dlen frs fl proto pt dev cl sh
    where s: "s = Skb lin data nw mac slen dlen frs fl proto pt dev cl sh" by (cases s)
  from assms(1) have "data + (slen - dlen) \<le> length lin" "slen < 2 ^ 31" "length lin < 2 ^ 31"
    unfolding s skb_ok.simps by blast+
  moreover have "dlen = 0" using assms(2) unfolding s by (simp add: skb_is_nonlinear_def)
  ultimately show "skb_len s < 2 ^ 31" "data_off s + skb_len s \<le> length (linear s)" "length (linear s) < 2 ^ 31"
    unfolding s by simp_all
qed

lemma nlattr_bounds:
  assumes "skb_ok s" "\<not> skb_is_nonlinear s" "4 \<le> skb_len s" "\<not> a > of_nat (skb_len s) - 4"
  shows "data_addr s a = int (data_off s) + int (unat a)" "unat a + 4 \<le> skb_len s"
    "sint (of_nat (skb_len s) - a) = int (skb_len s) - int (unat a)"
proof -
  note ok = linear_bounds [OF assms(1,2)]
  have len: "unat (of_nat (skb_len s) :: u32) = skb_len s" using ok by (intro unat_of_nat_small) simp
  have off: "unat (of_nat (data_off s) :: u32) = data_off s" using ok by (intro unat_of_nat_small) simp
  have "unat (of_nat (skb_len s) - 4 :: u32) = skb_len s - 4"
    using assms(3) len by (subst unat_sub) (simp_all add: word_le_nat_alt)
  then show a: "unat a + 4 \<le> skb_len s" using assms(3,4) by (simp add: word_less_nat_alt)
  have "unat (of_nat (data_off s) + a) = data_off s + unat a"
    using a ok off by (subst unat_add_lem [THEN iffD1]) simp_all
  then have "int (unat (of_nat (data_off s) + a)) = int (data_off s) + int (unat a)" by (simp only: of_nat_add)
  then show "data_addr s a = int (data_off s) + int (unat a)" by (simp add: data_addr_def)
  have d: "unat (of_nat (skb_len s) - a) = skb_len s - unat a"
    using a len by (subst unat_sub) (simp_all add: word_le_nat_alt)
  then have "sint (of_nat (skb_len s) - a) = int (unat (of_nat (skb_len s) - a))"
    using ok by (intro sint_small) linarith
  also have "\<dots> = int (skb_len s) - int (unat a)" unfolding d using a by (simp only: of_nat_diff)
  finally show "sint (of_nat (skb_len s) - a) = int (skb_len s) - int (unat a)" .
qed

lemma exec_nlattr_safe:
  assumes "skb_ok s" "4 \<le> skb_len s"
  shows "exec_nlattr s st \<noteq> Trap t"
proof (cases "skb_is_nonlinear s \<or> A st > of_nat (skb_len s) - 4")
  case False
  note b = nlattr_bounds [OF assms(1) _ assms(2), of "A st"] linear_bounds [OF assms(1)]
  from False b have "\<exists>r. nla_find (linear s) (data_addr s (A st)) (sint (of_nat (skb_len s) - A st)) (sint (X st)) = Some r"
    by (intro nla_find_defined) auto
  then show ?thesis by (auto simp: exec_nlattr_def split: option.splits)
qed (auto simp: exec_nlattr_def)

lemma exec_trap_cases:
  assumes "exec s f st = Trap t" "t \<in> residual" and s: "skb_ok s"
    and dev: "dev_ifindex s \<noteq> None" and len: "4 \<le> skb_len s" and room: "tail_off s + 3 \<le> int (length (linear s))"
  shows "t = NestRead"
proof -
  have anc: "exec_ancillary s off st = Trap t \<Longrightarrow> t = NestRead" for off
    using dev exec_nlattr_safe [OF s len]
    by (auto simp: exec_ancillary_def exec_nlattr_nest_def Let_def split: if_splits option.splits)
  have lp: "load_pointer s off n \<noteq> OutOfMemory" if "0 < n" "n \<le> 4" for off n
  proof (cases "0 \<le> off")
    case True
    then show ?thesis using that s by (simp add: load_pointer_packet)
  next
    case False
    have "\<exists>bs. slice (linear s) p n = Some bs" if "load_pointer_slow s off = Some p" for p
      using that room \<open>0 < n\<close> \<open>n \<le> 4\<close>
      by (intro slice_exists) (auto simp: load_pointer_slow_def Let_def split: option.splits if_splits)
    then show ?thesis using False by (auto simp: load_pointer_def split: option.splits)
  qed
  have w: "0 < width_bytes w \<and> width_bytes w \<le> 4" for w by (cases w) simp_all
  have "exec_load s w off st = Trap t \<Longrightarrow> t = NestRead" for w off
    using anc lp [of "width_bytes w" off] w [of w] by (auto simp: exec_load_def split: copy_result.splits)
  moreover have "exec_msh s off st \<noteq> Trap t" for off
    using lp [of 1 off] by (auto simp: exec_msh_def split: copy_result.splits)
  moreover have "exec_alu op src f st = Trap t \<Longrightarrow> t = DivZero" for op src
    by (auto simp: exec_alu_def Let_def split: alu.splits source.splits if_splits)
  moreover have "mem_index f st (\<lambda>i. Next (g i)) = Trap t \<Longrightarrow> t = BadMem" for g
    by (auto simp: mem_index_def split: if_splits)
  moreover from assms(1) obtain op where "decode (code f) = Some op" by (auto simp: exec_def split: option.splits)
  ultimately show ?thesis using assms(1,2)
    by (cases op) (auto simp: exec_def exec_jump_def Let_def residual_def)
qed

text \<open>A load whose offset is negative as a C int: ancillary data, or relative to a header.\<close>

definition negative_load :: "sock_filter \<Rightarrow> bpf \<Rightarrow> bool" where
  "negative_load f st \<longleftrightarrow> (case decode (code f) of
       Some (LdAbs w) \<Rightarrow> sint (k f) < 0 | Some (LdInd w) \<Rightarrow> sint (X st + k f) < 0 | Some LdxMsh \<Rightarrow> sint (k f) < 0 | _ \<Rightarrow> False)"

section \<open>Filters that look at the packet only\<close>

definition plain :: "sock_filter \<Rightarrow> bool" where
  "plain f \<longleftrightarrow> (case decode (code f) of
       Some (LdInd w) \<Rightarrow> False | Some (LdAbs w) \<Rightarrow> 0 \<le> sint (k f) | Some LdxMsh \<Rightarrow> 0 \<le> sint (k f) | _ \<Rightarrow> True)"

lemma exec_load_packet:
  assumes "skb_ok s" "0 \<le> off"
  shows "exec_load s w off st =
    (if off + width_bytes w \<le> int (length (skb_bytes s))
     then Next (st\<lparr>A := get_be (take (nat (width_bytes w)) (drop (nat off) (skb_bytes s)))\<rparr>) else Returned 0)"
proof -
  have "0 < width_bytes w" by (cases w) simp_all
  moreover have "exec_ancillary s off st = Returned 0"
    using assms(2) by (simp add: exec_ancillary_def skf_consts)
  ultimately show ?thesis using assms by (simp add: exec_load_def load_pointer_packet length_skb_bytes)
qed

lemma exec_msh_packet:
  assumes "skb_ok s" "0 \<le> off"
  shows "exec_msh s off st =
    (if off + 1 \<le> int (length (skb_bytes s))
     then Next (st\<lparr>X := push_bit 2 (ucast (take 1 (drop (nat off) (skb_bytes s)) ! 0 AND 0xf))\<rparr>) else Returned 0)"
  using assms by (simp add: exec_msh_def load_pointer_packet length_skb_bytes)

lemma exec_residual_negative:
  assumes "skb_ok s" "exec s f st = Trap t" "t \<in> residual"
  shows "negative_load f st"
proof -
  from assms(2) obtain op where op: "decode (code f) = Some op" by (auto simp: exec_def split: option.splits)
  have "mem_index f st (\<lambda>i. Next (g i)) = Trap t \<Longrightarrow> t = BadMem" for g
    by (auto simp: mem_index_def split: if_splits)
  moreover have "exec_alu a src f st = Trap t \<Longrightarrow> t = DivZero" for a src
    by (auto simp: exec_alu_def Let_def split: alu.splits source.splits if_splits)
  moreover have "sint v < 0" if "exec_load s w (sint v) st = Trap t" for w and v :: u32
    using that exec_load_packet [OF assms(1), of "sint v" w st] by (cases "0 \<le> sint v") (auto split: if_splits)
  moreover have "sint v < 0" if "exec_msh s (sint v) st = Trap t" for v :: u32
    using that exec_msh_packet [OF assms(1), of "sint v" st] by (cases "0 \<le> sint v") (auto split: if_splits)
  ultimately show ?thesis using assms(2,3) op
    by (cases op) (auto simp: exec_def negative_load_def exec_jump_def Let_def residual_def)
qed

lemma plain_not_negative: "plain f \<Longrightarrow> \<not> negative_load f st"
  by (auto simp: plain_def negative_load_def split: option.splits opcode.splits)

text \<open>The words of scratch memory a program loads, and two memories that agree on them.\<close>

definition scratch_loads :: "sock_filter list \<Rightarrow> nat set" where
  "scratch_loads prog = {unat (k f) |f. f \<in> set prog \<and> (decode (code f) = Some LdMem \<or> decode (code f) = Some LdxMem)}"

definition same_run :: "nat set \<Rightarrow> bpf \<Rightarrow> bpf \<Rightarrow> bool" where
  "same_run R st1 st2 \<longleftrightarrow> A st1 = A st2 \<and> X st1 = X st2 \<and> length (mem st1) = length (mem st2) \<and> (\<forall>i \<in> R. mem st1 ! i = mem st2 ! i)"

definition same_outcome :: "nat set \<Rightarrow> outcome \<Rightarrow> outcome \<Rightarrow> bool" where
  "same_outcome R r1 r2 \<longleftrightarrow> (case (r1, r2) of (Next st1, Next st2) \<Rightarrow> same_run R st1 st2 | _ \<Rightarrow> r1 = r2)"

lemma same_outcome_refl: "r1 = r2 \<Longrightarrow> same_outcome R r1 r2"
  by (cases r2) (auto simp: same_outcome_def same_run_def)

lemma exec_plain:
  assumes "skb_ok s1" "skb_ok s2" "skb_bytes s1 = skb_bytes s2" "plain f" "f \<in> set prog" and st: "same_run (scratch_loads prog) st1 st2"
  shows "same_outcome (scratch_loads prog) (exec s1 f st1) (exec s2 f st2)"
proof (cases "decode (code f)")
  case (Some op)
  have len: "skb_len s1 = skb_len s2" using assms(1-3) by (metis length_skb_bytes)
  have mem: "mem st1 ! unat (k f) = mem st2 ! unat (k f)" if "op = LdMem \<or> op = LdxMem"
    using st that Some assms(5) by (auto simp: same_run_def scratch_loads_def)
  have store: "same_outcome (scratch_loads prog) (mem_index f st1 (\<lambda>i. Next (st1\<lparr>mem := (mem st1)[i := v]\<rparr>)))
      (mem_index f st2 (\<lambda>i. Next (st2\<lparr>mem := (mem st2)[i := v]\<rparr>)))" for v
    using st by (auto simp: mem_index_def same_outcome_def same_run_def nth_list_update)
  show ?thesis using assms(1-4) st len mem store Some
    by (cases op) (auto simp: exec_def plain_def exec_load_packet exec_msh_packet exec_alu_def exec_jump_def operand_def
      mem_index_def same_outcome_def same_run_def Let_def split: alu.splits source.splits cond.splits)
qed (simp add: exec_def same_outcome_def)

lemma run_loop_plain:
  assumes "skb_ok s1" "skb_ok s2" "skb_bytes s1 = skb_bytes s2" "\<forall>f \<in> set prog. plain f"
  shows "same_run (scratch_loads prog) st1 st2 \<Longrightarrow> run_loop fuel s1 prog pc st1 = Some (Returned v) \<Longrightarrow>
    run_loop fuel s2 prog pc st2 = Some (Returned v)"
proof (induction fuel arbitrary: pc st1 st2)
  case (Suc fuel)
  show ?case
  proof (cases "0 \<le> pc \<and> pc < int (length prog)")
    case True
    then have "nat pc < length prog" by linarith
    then have f: "prog ! nat pc \<in> set prog" by (rule nth_mem)
    then have "plain (prog ! nat pc)" using assms(4) by blast
    from exec_plain [OF assms(1-3) this f Suc.prems(1)] show ?thesis
      using Suc.prems Suc.IH True
      by (cases "exec s1 (prog ! nat pc) st1"; cases "exec s2 (prog ! nat pc) st2") (auto simp: same_outcome_def)
  qed (use Suc.prems in auto)
qed simp

section \<open>Sockets\<close>





section \<open>Properties\<close>

definition example_prog :: "sock_filter list" where
  "example_prog =
     [\<lparr>code = BPF_LD OR BPF_B OR BPF_ABS, jt = 0, jf = 0, k = 5\<rparr>,
      \<lparr>code = BPF_JMP OR BPF_JEQ OR BPF_K, jt = 0, jf = 1, k = 6\<rparr>,
      \<lparr>code = BPF_RET OR BPF_K, jt = 0, jf = 0, k = 96\<rparr>,
      \<lparr>code = BPF_RET OR BPF_K, jt = 0, jf = 0, k = 0\<rparr>]"

lemmas decode_simps = decode_def alu_labels_def jmp_labels_def other_labels_def bpf_consts BPF_CLASS_def

lemma example_prog_accepted: "sk_chk_filter example_prog = None"
  by (simp add: sk_chk_filter_def chk_insn_def decode_simps example_prog_def BPF_MAXINSNS_def)



text \<open>
  C22. The remaining accesses depend on the packet: with an interface set, at least four bytes of data
  and three bytes of room behind the linear part, a checked program returns a verdict or reads outside
  the packet through the nested-attribute extension, and does nothing else.
\<close>

theorem sk_run_filter_residual:
  assumes "sk_chk_filter prog = None" "skb_ok s" "length stack = BPF_MEMWORDS" "length prog \<le> fuel"
    and "dev_ifindex s \<noteq> None" "4 \<le> skb_len s" "tail_off s + 3 \<le> int (length (linear s))"
  shows "(\<exists>v. sk_run_filter fuel stack s prog = Some (Returned v))
    \<or> sk_run_filter fuel stack s prog = Some (Trap NestRead)"
proof -
  have "0 < length prog" using assms(1) by (simp add: sk_chk_filter_accepts)
  then obtain r where r: "sk_run_filter fuel stack s prog = Some r" "finished r"
    using run_loop_checked [OF assms(1,2), of 0 "\<lparr>A = 0, X = 0, mem = stack\<rparr>" fuel] assms(3,4)
    by (auto simp: sk_run_filter_def)
  have "t = NestRead" if "r = Trap t" for t
  proof -
    have "t \<in> residual" using r(2) that by (auto simp: finished_def)
    moreover have "t = BadPc \<or> (\<exists>f st. exec s f st = Trap t)"
      using run_loop_trap [of fuel s prog 0 "\<lparr>A = 0, X = 0, mem = stack\<rparr>" t] r(1) that
      by (auto simp: sk_run_filter_def)
    ultimately show ?thesis using exec_trap_cases [OF _ _ assms(2,5,6,7)] by (auto simp: residual_def)
  qed
  with r show ?thesis by (auto simp: finished_def)
qed

definition example_frame :: sk_buff where
  "example_frame = Skb [1, 2, 3, 4, 5, 6, 7, 8, 9, 10, 0, 0, 0, 0] 0 0 0 10 0 [] [] 8 0 (Some 3) False False"

lemma example_frame_ok: "skb_ok example_frame"
  by (simp add: example_frame_def)

theorem sk_run_filter_residual_witness:
  "sk_chk_filter example_prog = None \<and> skb_ok example_frame
    \<and> (\<exists>r. sk_run_filter 4 (replicate 16 0) example_frame example_prog = Some r)"
proof -
  have fuel: "length example_prog \<le> 4" by (simp add: example_prog_def)
  from sk_run_filter_residual [OF example_prog_accepted example_frame_ok _ fuel, of "replicate 16 0"]
    example_prog_accepted example_frame_ok
  show ?thesis
    by (auto simp: BPF_MEMWORDS_def example_frame_def tail_off_def skb_headlen_def simp del: skb_ok.simps)
qed

text \<open>
  C23. A checked program without negative or indexed offsets always returns a verdict, and that verdict depends on
  the packet's bytes and on the initial content of the scratch words the program loads, and on nothing else: on two
  packets with the same bytes, however they are spread over linear memory, page fragments and further buffers, and on two
  scratch memories that agree on the loaded words, it is the same. A program that loads no scratch word is thus
  a function of the packet's bytes alone.
\<close>

theorem sk_run_filter_plain:
  assumes "sk_chk_filter prog = None" "\<forall>f \<in> set prog. plain f" "length prog \<le> fuel"
    and "length stack1 = BPF_MEMWORDS" "length stack2 = BPF_MEMWORDS" "\<forall>i \<in> scratch_loads prog. stack1 ! i = stack2 ! i"
    and "skb_ok s1" "skb_ok s2" "skb_bytes s1 = skb_bytes s2"
  shows "\<exists>v. sk_run_filter fuel stack1 s1 prog = Some (Returned v)
    \<and> sk_run_filter fuel stack2 s2 prog = Some (Returned v)"
proof -
  have "0 < length prog" using assms(1) by (simp add: sk_chk_filter_accepts)
  then obtain r where r: "sk_run_filter fuel stack1 s1 prog = Some r" "finished r"
    using run_loop_checked [OF assms(1,7), of 0 "\<lparr>A = 0, X = 0, mem = stack1\<rparr>" fuel] assms(3,4)
    by (auto simp: sk_run_filter_def)
  have "t \<notin> residual" if t: "r = Trap t" for t
    using run_loop_trap [of fuel s1 prog 0 _ t] r(1) t exec_residual_negative [OF assms(7)] plain_not_negative assms(2)
    by (fastforce simp: sk_run_filter_def residual_def)
  then obtain v where v: "r = Returned v" using r(2) by (auto simp: finished_def)
  have "same_run (scratch_loads prog) \<lparr>A = 0, X = 0, mem = stack1\<rparr> \<lparr>A = 0, X = 0, mem = stack2\<rparr>"
    using assms(4-6) by (simp add: same_run_def)
  from run_loop_plain [OF assms(7-9,2) this] show ?thesis using r(1) v by (auto simp: sk_run_filter_def)
qed

theorem sk_run_filter_plain_witness:
  "list_all plain example_prog
    \<and> (\<exists>v. sk_run_filter 4 (replicate 16 0) (example_skb [] 0) example_prog = Some (Returned v)
        \<and> sk_run_filter 4 (replicate 16 7)
            (Skb [1, 2, 3, 4, 5, 6, 7, 8, 9] 0 0 0 9 0 [] [] 8 0 None False False) example_prog = Some (Returned v))"
proof -
  let ?s = "Skb [1, 2, 3, 4, 5, 6, 7, 8, 9] 0 0 0 9 0 [] [] 8 0 None False False"
  have "list_all plain example_prog" by (simp add: example_prog_def plain_def decode_simps)
  moreover from this have "\<forall>f \<in> set example_prog. plain f" by (simp add: list_all_iff)
  moreover have "scratch_loads example_prog = {}" by (auto simp: scratch_loads_def example_prog_def decode_simps)
  moreover have "skb_ok (example_skb [] 0)" "skb_ok ?s" "skb_bytes (example_skb [] 0) = skb_bytes ?s"
    by (simp_all add: example_skb_simps)
  moreover have "length example_prog \<le> 4" by (simp add: example_prog_def)
  ultimately show ?thesis
    using sk_run_filter_plain [OF example_prog_accepted, of 4 "replicate 16 0" "replicate 16 7" "example_skb [] 0" ?s]
    by (simp add: BPF_MEMWORDS_def del: skb_ok.simps skb_bytes.simps)
qed

text \<open>A program that asks for ancillary data with \<open>a\<close> in the accumulator and 1 in the index register.\<close>

definition ancillary_prog :: "u32 \<Rightarrow> u32 \<Rightarrow> sock_filter list" where
  "ancillary_prog a off =
     [\<lparr>code = BPF_LD OR BPF_IMM, jt = 0, jf = 0, k = a\<rparr>,
      \<lparr>code = BPF_LDX OR BPF_IMM, jt = 0, jf = 0, k = 1\<rparr>,
      \<lparr>code = BPF_LD OR BPF_W OR BPF_ABS, jt = 0, jf = 0, k = off\<rparr>,
      \<lparr>code = BPF_RET OR BPF_A, jt = 0, jf = 0, k = 0\<rparr>]"

lemma ancillary_prog_accepted: "sk_chk_filter (ancillary_prog a off) = None"
  by (simp add: sk_chk_filter_def chk_insn_def decode_simps ancillary_prog_def BPF_MAXINSNS_def)

lemma ancillary_prog_run:
  "sk_run_filter (Suc (Suc (Suc (Suc n)))) stack s (ancillary_prog a off) =
    (case exec_load s W (sint off) \<lparr>A = a, X = 1, mem = stack\<rparr> of
       Next st \<Rightarrow> Some (Returned (A st))
     | Jmp off' \<Rightarrow> run_loop (Suc n) s (ancillary_prog a off) (sint (2 + off') + 1) \<lparr>A = a, X = 1, mem = stack\<rparr>
     | stop \<Rightarrow> Some stop)"
  by (simp add: sk_run_filter_def ancillary_prog_def exec_def decode_simps split: outcome.splits)

definition short_frame :: "u8 list \<Rightarrow> sk_buff" where
  "short_frame bs = Skb bs 0 0 0 (length bs) 0 [] [] 8 0 (Some 3) False False"

text \<open>
  C39. Two tests of the netlink extension fail to bound what they should. In a packet of fewer than four
  bytes \<^verbatim>\<open>skb->len - sizeof(struct nlattr)\<close> wraps around, so that an accepted program makes \<^verbatim>\<open>nla_find\<close>
  start at an address of its choice; and \<^verbatim>\<open>nla->nla_len > A - skb->len\<close>, which has the operands of its
  subtraction exchanged, never holds, so that an accepted program makes \<^verbatim>\<open>nla_find_nested\<close> run past the
  end of the packet.
\<close>

theorem sk_run_filter_netlink_overread:
  "sk_chk_filter (ancillary_prog 0xfffffff0 (of_int (SKF_AD_OFF + SKF_AD_NLATTR))) = None
    \<and> skb_ok (short_frame [1, 2, 3])
    \<and> sk_run_filter 4 stack (short_frame [1, 2, 3]) (ancillary_prog 0xfffffff0 (of_int (SKF_AD_OFF + SKF_AD_NLATTR)))
        = Some (Trap NlattrRead)
    \<and> sk_chk_filter (ancillary_prog 0 (of_int (SKF_AD_OFF + SKF_AD_NLATTR_NEST))) = None
    \<and> skb_ok (short_frame [255, 255, 0, 0, 4, 0, 0, 0])
    \<and> sk_run_filter 4 stack (short_frame [255, 255, 0, 0, 4, 0, 0, 0])
        (ancillary_prog 0 (of_int (SKF_AD_OFF + SKF_AD_NLATTR_NEST))) = Some (Trap NestRead)"
proof -
  let ?st = "\<lparr>A = 0xfffffff0, X = 1, mem = stack\<rparr>" and ?st' = "\<lparr>A = 0, X = 1, mem = stack\<rparr>"
  let ?s = "short_frame [1, 2, 3]" and ?s' = "short_frame [255, 255, 0, 0, 4, 0, 0, 0]"
  have "sint (of_int (SKF_AD_OFF + SKF_AD_NLATTR) :: u32) = SKF_AD_OFF + SKF_AD_NLATTR"
    "sint (of_int (SKF_AD_OFF + SKF_AD_NLATTR_NEST) :: u32) = SKF_AD_OFF + SKF_AD_NLATTR_NEST"
    by (simp_all add: skf_consts)
  moreover have "exec_load ?s W (SKF_AD_OFF + SKF_AD_NLATTR) ?st = exec_nlattr ?s ?st"
    "exec_load ?s' W (SKF_AD_OFF + SKF_AD_NLATTR_NEST) ?st' = exec_nlattr_nest ?s' ?st'"
    by (simp_all add: exec_load_def load_pointer_def exec_ancillary_def skf_consts)
  moreover have "exec_nlattr ?s ?st = Trap NlattrRead"
    by (simp add: exec_nlattr_def skb_is_nonlinear_def short_frame_def nla_find_def nla_for_each_attr.simps
        nla_ok_def get_u16_def slice_def data_addr_def)
  moreover have "exec_nlattr_nest ?s' ?st' = Trap NestRead"
    by (simp add: exec_nlattr_nest_def skb_is_nonlinear_def short_frame_def nla_find_nested_def nla_find_def
        nla_for_each_attr.simps [of _ _ 4] nla_for_each_attr.simps [of _ _ 8] nla_len_def nla_data_def nla_type_def
        nla_next_def NLA_ALIGN_eq nla_ok_def get_u16_def slice_def data_addr_def NLA_TYPE_MASK_def)
  moreover have "(4 :: nat) = Suc (Suc (Suc (Suc 0)))" by simp
  ultimately show ?thesis
    by (simp only: ancillary_prog_accepted ancillary_prog_run outcome.case) (simp add: short_frame_def)
qed

text \<open>
  Offsets relative to the network or link header are checked for their first byte only: an accepted
  program that loads a word from the last bytes of the linear part reads past its end.
\<close>

theorem sk_run_filter_header_overread:
  "sk_chk_filter (ancillary_prog 0 (of_int (SKF_NET_OFF + 5))) = None
    \<and> skb_ok (short_frame [1, 2, 3, 4, 5, 6])
    \<and> sk_run_filter 4 stack (short_frame [1, 2, 3, 4, 5, 6]) (ancillary_prog 0 (of_int (SKF_NET_OFF + 5)))
        = Some (Trap HeaderOverread)"
proof -
  let ?s = "short_frame [1, 2, 3, 4, 5, 6]"
  have "sint (of_int (SKF_NET_OFF + 5) :: u32) = SKF_NET_OFF + 5" by (simp add: skf_consts)
  moreover have "exec_load ?s W (SKF_NET_OFF + 5) st = Trap HeaderOverread" for st
    by (simp add: exec_load_def load_pointer_def load_pointer_slow_def read_trap_def slice_def skf_consts
        short_frame_def tail_off_def skb_headlen_def)
  moreover have "(4 :: nat) = Suc (Suc (Suc (Suc 0)))" by simp
  ultimately show ?thesis
    by (simp only: ancillary_prog_accepted ancillary_prog_run outcome.case) (simp add: short_frame_def)
qed

text \<open>
  Scratch memory is not cleared before a run and the checker does not ask that a word be stored
  before it is loaded: an accepted two-instruction program returns a word of the kernel stack.
\<close>

definition leak_prog :: "sock_filter list" where
  "leak_prog = [\<lparr>code = BPF_LD OR BPF_MEM, jt = 0, jf = 0, k = 3\<rparr>, \<lparr>code = BPF_RET OR BPF_A, jt = 0, jf = 0, k = 0\<rparr>]"

theorem sk_run_filter_stack_leak:
  "sk_chk_filter leak_prog = None
    \<and> sk_run_filter 2 (replicate 3 0 @ w # replicate 12 0) s leak_prog = Some (Returned w)"
proof -
  have "sk_chk_filter leak_prog = None"
    by (simp add: sk_chk_filter_def chk_insn_def decode_simps leak_prog_def BPF_MAXINSNS_def BPF_MEMWORDS_def)
  moreover have "sk_run_filter (Suc (Suc 0)) (replicate 3 0 @ w # replicate 12 0) s leak_prog = Some (Returned w)"
    by (simp add: sk_run_filter_def leak_prog_def exec_def decode_simps mem_index_def nth_append)
  ultimately show ?thesis by (simp add: numeral_2_eq_2)
qed



end
