(* ===== verification/Crc.thy ===== *)
theory Crc
  imports Kernel_Prelude
begin

text \<open>
  Cyclic redundancy checks by table lookup: the tables of \<^verbatim>\<open>lib/crc16.c\<close>, \<^verbatim>\<open>lib/crc-ccitt.c\<close>,
  \<^verbatim>\<open>lib/crc-itu-t.c\<close>, \<^verbatim>\<open>lib/crc-t10dif.c\<close>, \<^verbatim>\<open>lib/crc7.c\<close> and of the boot environment in
  \<^verbatim>\<open>drivers/mtd/wmt_env.c\<close>, copied entry by entry, and the functions over them. The reference is the
  bit-serial division by the polynomial, in its two bit orders; the two locales say what a table
  must satisfy and prove once that the lookup then computes the reference.
\<close>

section \<open>Tables\<close>

definition sf_crc_table :: "u32 list" where
  "sf_crc_table =
    [0x00000000, 0x77073096, 0xee0e612c, 0x990951ba, 0x076dc419, 0x706af48f, 0xe963a535, 0x9e6495a3,
     0x0edb8832, 0x79dcb8a4, 0xe0d5e91e, 0x97d2d988, 0x09b64c2b, 0x7eb17cbd, 0xe7b82d07, 0x90bf1d91,
     0x1db71064, 0x6ab020f2, 0xf3b97148, 0x84be41de, 0x1adad47d, 0x6ddde4eb, 0xf4d4b551, 0x83d385c7,
     0x136c9856, 0x646ba8c0, 0xfd62f97a, 0x8a65c9ec, 0x14015c4f, 0x63066cd9, 0xfa0f3d63, 0x8d080df5,
     0x3b6e20c8, 0x4c69105e, 0xd56041e4, 0xa2677172, 0x3c03e4d1, 0x4b04d447, 0xd20d85fd, 0xa50ab56b,
     0x35b5a8fa, 0x42b2986c, 0xdbbbc9d6, 0xacbcf940, 0x32d86ce3, 0x45df5c75, 0xdcd60dcf, 0xabd13d59,
     0x26d930ac, 0x51de003a, 0xc8d75180, 0xbfd06116, 0x21b4f4b5, 0x56b3c423, 0xcfba9599, 0xb8bda50f,
     0x2802b89e, 0x5f058808, 0xc60cd9b2, 0xb10be924, 0x2f6f7c87, 0x58684c11, 0xc1611dab, 0xb6662d3d,
     0x76dc4190, 0x01db7106, 0x98d220bc, 0xefd5102a, 0x71b18589, 0x06b6b51f, 0x9fbfe4a5, 0xe8b8d433,
     0x7807c9a2, 0x0f00f934, 0x9609a88e, 0xe10e9818, 0x7f6a0dbb, 0x086d3d2d, 0x91646c97, 0xe6635c01,
     0x6b6b51f4, 0x1c6c6162, 0x856530d8, 0xf262004e, 0x6c0695ed, 0x1b01a57b, 0x8208f4c1, 0xf50fc457,
     0x65b0d9c6, 0x12b7e950, 0x8bbeb8ea, 0xfcb9887c, 0x62dd1ddf, 0x15da2d49, 0x8cd37cf3, 0xfbd44c65,
     0x4db26158, 0x3ab551ce, 0xa3bc0074, 0xd4bb30e2, 0x4adfa541, 0x3dd895d7, 0xa4d1c46d, 0xd3d6f4fb,
     0x4369e96a, 0x346ed9fc, 0xad678846, 0xda60b8d0, 0x44042d73, 0x33031de5, 0xaa0a4c5f, 0xdd0d7cc9,
     0x5005713c, 0x270241aa, 0xbe0b1010, 0xc90c2086, 0x5768b525, 0x206f85b3, 0xb966d409, 0xce61e49f,
     0x5edef90e, 0x29d9c998, 0xb0d09822, 0xc7d7a8b4, 0x59b33d17, 0x2eb40d81, 0xb7bd5c3b, 0xc0ba6cad,
     0xedb88320, 0x9abfb3b6, 0x03b6e20c, 0x74b1d29a, 0xead54739, 0x9dd277af, 0x04db2615, 0x73dc1683,
     0xe3630b12, 0x94643b84, 0x0d6d6a3e, 0x7a6a5aa8, 0xe40ecf0b, 0x9309ff9d, 0x0a00ae27, 0x7d079eb1,
     0xf00f9344, 0x8708a3d2, 0x1e01f268, 0x6906c2fe, 0xf762575d, 0x806567cb, 0x196c3671, 0x6e6b06e7,
     0xfed41b76, 0x89d32be0, 0x10da7a5a, 0x67dd4acc, 0xf9b9df6f, 0x8ebeeff9, 0x17b7be43, 0x60b08ed5,
     0xd6d6a3e8, 0xa1d1937e, 0x38d8c2c4, 0x4fdff252, 0xd1bb67f1, 0xa6bc5767, 0x3fb506dd, 0x48b2364b,
     0xd80d2bda, 0xaf0a1b4c, 0x36034af6, 0x41047a60, 0xdf60efc3, 0xa867df55, 0x316e8eef, 0x4669be79,
     0xcb61b38c, 0xbc66831a, 0x256fd2a0, 0x5268e236, 0xcc0c7795, 0xbb0b4703, 0x220216b9, 0x5505262f,
     0xc5ba3bbe, 0xb2bd0b28, 0x2bb45a92, 0x5cb36a04, 0xc2d7ffa7, 0xb5d0cf31, 0x2cd99e8b, 0x5bdeae1d,
     0x9b64c2b0, 0xec63f226, 0x756aa39c, 0x026d930a, 0x9c0906a9, 0xeb0e363f, 0x72076785, 0x05005713,
     0x95bf4a82, 0xe2b87a14, 0x7bb12bae, 0x0cb61b38, 0x92d28e9b, 0xe5d5be0d, 0x7cdcefb7, 0x0bdbdf21,
     0x86d3d2d4, 0xf1d4e242, 0x68ddb3f8, 0x1fda836e, 0x81be16cd, 0xf6b9265b, 0x6fb077e1, 0x18b74777,
     0x88085ae6, 0xff0f6a70, 0x66063bca, 0x11010b5c, 0x8f659eff, 0xf862ae69, 0x616bffd3, 0x166ccf45,
     0xa00ae278, 0xd70dd2ee, 0x4e048354, 0x3903b3c2, 0xa7672661, 0xd06016f7, 0x4969474d, 0x3e6e77db,
     0xaed16a4a, 0xd9d65adc, 0x40df0b66, 0x37d83bf0, 0xa9bcae53, 0xdebb9ec5, 0x47b2cf7f, 0x30b5ffe9,
     0xbdbdf21c, 0xcabac28a, 0x53b39330, 0x24b4a3a6, 0xbad03605, 0xcdd70693, 0x54de5729, 0x23d967bf,
     0xb3667a2e, 0xc4614ab8, 0x5d681b02, 0x2a6f2b94, 0xb40bbe37, 0xc30c8ea1, 0x5a05df1b, 0x2d02ef8d]"

definition crc16_table :: "u16 list" where
  "crc16_table =
    [0x0000, 0xc0c1, 0xc181, 0x0140, 0xc301, 0x03c0, 0x0280, 0xc241,
     0xc601, 0x06c0, 0x0780, 0xc741, 0x0500, 0xc5c1, 0xc481, 0x0440,
     0xcc01, 0x0cc0, 0x0d80, 0xcd41, 0x0f00, 0xcfc1, 0xce81, 0x0e40,
     0x0a00, 0xcac1, 0xcb81, 0x0b40, 0xc901, 0x09c0, 0x0880, 0xc841,
     0xd801, 0x18c0, 0x1980, 0xd941, 0x1b00, 0xdbc1, 0xda81, 0x1a40,
     0x1e00, 0xdec1, 0xdf81, 0x1f40, 0xdd01, 0x1dc0, 0x1c80, 0xdc41,
     0x1400, 0xd4c1, 0xd581, 0x1540, 0xd701, 0x17c0, 0x1680, 0xd641,
     0xd201, 0x12c0, 0x1380, 0xd341, 0x1100, 0xd1c1, 0xd081, 0x1040,
     0xf001, 0x30c0, 0x3180, 0xf141, 0x3300, 0xf3c1, 0xf281, 0x3240,
     0x3600, 0xf6c1, 0xf781, 0x3740, 0xf501, 0x35c0, 0x3480, 0xf441,
     0x3c00, 0xfcc1, 0xfd81, 0x3d40, 0xff01, 0x3fc0, 0x3e80, 0xfe41,
     0xfa01, 0x3ac0, 0x3b80, 0xfb41, 0x3900, 0xf9c1, 0xf881, 0x3840,
     0x2800, 0xe8c1, 0xe981, 0x2940, 0xeb01, 0x2bc0, 0x2a80, 0xea41,
     0xee01, 0x2ec0, 0x2f80, 0xef41, 0x2d00, 0xedc1, 0xec81, 0x2c40,
     0xe401, 0x24c0, 0x2580, 0xe541, 0x2700, 0xe7c1, 0xe681, 0x2640,
     0x2200, 0xe2c1, 0xe381, 0x2340, 0xe101, 0x21c0, 0x2080, 0xe041,
     0xa001, 0x60c0, 0x6180, 0xa141, 0x6300, 0xa3c1, 0xa281, 0x6240,
     0x6600, 0xa6c1, 0xa781, 0x6740, 0xa501, 0x65c0, 0x6480, 0xa441,
     0x6c00, 0xacc1, 0xad81, 0x6d40, 0xaf01, 0x6fc0, 0x6e80, 0xae41,
     0xaa01, 0x6ac0, 0x6b80, 0xab41, 0x6900, 0xa9c1, 0xa881, 0x6840,
     0x7800, 0xb8c1, 0xb981, 0x7940, 0xbb01, 0x7bc0, 0x7a80, 0xba41,
     0xbe01, 0x7ec0, 0x7f80, 0xbf41, 0x7d00, 0xbdc1, 0xbc81, 0x7c40,
     0xb401, 0x74c0, 0x7580, 0xb541, 0x7700, 0xb7c1, 0xb681, 0x7640,
     0x7200, 0xb2c1, 0xb381, 0x7340, 0xb101, 0x71c0, 0x7080, 0xb041,
     0x5000, 0x90c1, 0x9181, 0x5140, 0x9301, 0x53c0, 0x5280, 0x9241,
     0x9601, 0x56c0, 0x5780, 0x9741, 0x5500, 0x95c1, 0x9481, 0x5440,
     0x9c01, 0x5cc0, 0x5d80, 0x9d41, 0x5f00, 0x9fc1, 0x9e81, 0x5e40,
     0x5a00, 0x9ac1, 0x9b81, 0x5b40, 0x9901, 0x59c0, 0x5880, 0x9841,
     0x8801, 0x48c0, 0x4980, 0x8941, 0x4b00, 0x8bc1, 0x8a81, 0x4a40,
     0x4e00, 0x8ec1, 0x8f81, 0x4f40, 0x8d01, 0x4dc0, 0x4c80, 0x8c41,
     0x4400, 0x84c1, 0x8581, 0x4540, 0x8701, 0x47c0, 0x4680, 0x8641,
     0x8201, 0x42c0, 0x4380, 0x8341, 0x4100, 0x81c1, 0x8081, 0x4040]"

definition crc_ccitt_table :: "u16 list" where
  "crc_ccitt_table =
    [0x0000, 0x1189, 0x2312, 0x329b, 0x4624, 0x57ad, 0x6536, 0x74bf,
     0x8c48, 0x9dc1, 0xaf5a, 0xbed3, 0xca6c, 0xdbe5, 0xe97e, 0xf8f7,
     0x1081, 0x0108, 0x3393, 0x221a, 0x56a5, 0x472c, 0x75b7, 0x643e,
     0x9cc9, 0x8d40, 0xbfdb, 0xae52, 0xdaed, 0xcb64, 0xf9ff, 0xe876,
     0x2102, 0x308b, 0x0210, 0x1399, 0x6726, 0x76af, 0x4434, 0x55bd,
     0xad4a, 0xbcc3, 0x8e58, 0x9fd1, 0xeb6e, 0xfae7, 0xc87c, 0xd9f5,
     0x3183, 0x200a, 0x1291, 0x0318, 0x77a7, 0x662e, 0x54b5, 0x453c,
     0xbdcb, 0xac42, 0x9ed9, 0x8f50, 0xfbef, 0xea66, 0xd8fd, 0xc974,
     0x4204, 0x538d, 0x6116, 0x709f, 0x0420, 0x15a9, 0x2732, 0x36bb,
     0xce4c, 0xdfc5, 0xed5e, 0xfcd7, 0x8868, 0x99e1, 0xab7a, 0xbaf3,
     0x5285, 0x430c, 0x7197, 0x601e, 0x14a1, 0x0528, 0x37b3, 0x263a,
     0xdecd, 0xcf44, 0xfddf, 0xec56, 0x98e9, 0x8960, 0xbbfb, 0xaa72,
     0x6306, 0x728f, 0x4014, 0x519d, 0x2522, 0x34ab, 0x0630, 0x17b9,
     0xef4e, 0xfec7, 0xcc5c, 0xddd5, 0xa96a, 0xb8e3, 0x8a78, 0x9bf1,
     0x7387, 0x620e, 0x5095, 0x411c, 0x35a3, 0x242a, 0x16b1, 0x0738,
     0xffcf, 0xee46, 0xdcdd, 0xcd54, 0xb9eb, 0xa862, 0x9af9, 0x8b70,
     0x8408, 0x9581, 0xa71a, 0xb693, 0xc22c, 0xd3a5, 0xe13e, 0xf0b7,
     0x0840, 0x19c9, 0x2b52, 0x3adb, 0x4e64, 0x5fed, 0x6d76, 0x7cff,
     0x9489, 0x8500, 0xb79b, 0xa612, 0xd2ad, 0xc324, 0xf1bf, 0xe036,
     0x18c1, 0x0948, 0x3bd3, 0x2a5a, 0x5ee5, 0x4f6c, 0x7df7, 0x6c7e,
     0xa50a, 0xb483, 0x8618, 0x9791, 0xe32e, 0xf2a7, 0xc03c, 0xd1b5,
     0x2942, 0x38cb, 0x0a50, 0x1bd9, 0x6f66, 0x7eef, 0x4c74, 0x5dfd,
     0xb58b, 0xa402, 0x9699, 0x8710, 0xf3af, 0xe226, 0xd0bd, 0xc134,
     0x39c3, 0x284a, 0x1ad1, 0x0b58, 0x7fe7, 0x6e6e, 0x5cf5, 0x4d7c,
     0xc60c, 0xd785, 0xe51e, 0xf497, 0x8028, 0x91a1, 0xa33a, 0xb2b3,
     0x4a44, 0x5bcd, 0x6956, 0x78df, 0x0c60, 0x1de9, 0x2f72, 0x3efb,
     0xd68d, 0xc704, 0xf59f, 0xe416, 0x90a9, 0x8120, 0xb3bb, 0xa232,
     0x5ac5, 0x4b4c, 0x79d7, 0x685e, 0x1ce1, 0x0d68, 0x3ff3, 0x2e7a,
     0xe70e, 0xf687, 0xc41c, 0xd595, 0xa12a, 0xb0a3, 0x8238, 0x93b1,
     0x6b46, 0x7acf, 0x4854, 0x59dd, 0x2d62, 0x3ceb, 0x0e70, 0x1ff9,
     0xf78f, 0xe606, 0xd49d, 0xc514, 0xb1ab, 0xa022, 0x92b9, 0x8330,
     0x7bc7, 0x6a4e, 0x58d5, 0x495c, 0x3de3, 0x2c6a, 0x1ef1, 0x0f78]"

definition crc_itu_t_table :: "u16 list" where
  "crc_itu_t_table =
    [0x0000, 0x1021, 0x2042, 0x3063, 0x4084, 0x50a5, 0x60c6, 0x70e7,
     0x8108, 0x9129, 0xa14a, 0xb16b, 0xc18c, 0xd1ad, 0xe1ce, 0xf1ef,
     0x1231, 0x0210, 0x3273, 0x2252, 0x52b5, 0x4294, 0x72f7, 0x62d6,
     0x9339, 0x8318, 0xb37b, 0xa35a, 0xd3bd, 0xc39c, 0xf3ff, 0xe3de,
     0x2462, 0x3443, 0x0420, 0x1401, 0x64e6, 0x74c7, 0x44a4, 0x5485,
     0xa56a, 0xb54b, 0x8528, 0x9509, 0xe5ee, 0xf5cf, 0xc5ac, 0xd58d,
     0x3653, 0x2672, 0x1611, 0x0630, 0x76d7, 0x66f6, 0x5695, 0x46b4,
     0xb75b, 0xa77a, 0x9719, 0x8738, 0xf7df, 0xe7fe, 0xd79d, 0xc7bc,
     0x48c4, 0x58e5, 0x6886, 0x78a7, 0x0840, 0x1861, 0x2802, 0x3823,
     0xc9cc, 0xd9ed, 0xe98e, 0xf9af, 0x8948, 0x9969, 0xa90a, 0xb92b,
     0x5af5, 0x4ad4, 0x7ab7, 0x6a96, 0x1a71, 0x0a50, 0x3a33, 0x2a12,
     0xdbfd, 0xcbdc, 0xfbbf, 0xeb9e, 0x9b79, 0x8b58, 0xbb3b, 0xab1a,
     0x6ca6, 0x7c87, 0x4ce4, 0x5cc5, 0x2c22, 0x3c03, 0x0c60, 0x1c41,
     0xedae, 0xfd8f, 0xcdec, 0xddcd, 0xad2a, 0xbd0b, 0x8d68, 0x9d49,
     0x7e97, 0x6eb6, 0x5ed5, 0x4ef4, 0x3e13, 0x2e32, 0x1e51, 0x0e70,
     0xff9f, 0xefbe, 0xdfdd, 0xcffc, 0xbf1b, 0xaf3a, 0x9f59, 0x8f78,
     0x9188, 0x81a9, 0xb1ca, 0xa1eb, 0xd10c, 0xc12d, 0xf14e, 0xe16f,
     0x1080, 0x00a1, 0x30c2, 0x20e3, 0x5004, 0x4025, 0x7046, 0x6067,
     0x83b9, 0x9398, 0xa3fb, 0xb3da, 0xc33d, 0xd31c, 0xe37f, 0xf35e,
     0x02b1, 0x1290, 0x22f3, 0x32d2, 0x4235, 0x5214, 0x6277, 0x7256,
     0xb5ea, 0xa5cb, 0x95a8, 0x8589, 0xf56e, 0xe54f, 0xd52c, 0xc50d,
     0x34e2, 0x24c3, 0x14a0, 0x0481, 0x7466, 0x6447, 0x5424, 0x4405,
     0xa7db, 0xb7fa, 0x8799, 0x97b8, 0xe75f, 0xf77e, 0xc71d, 0xd73c,
     0x26d3, 0x36f2, 0x0691, 0x16b0, 0x6657, 0x7676, 0x4615, 0x5634,
     0xd94c, 0xc96d, 0xf90e, 0xe92f, 0x99c8, 0x89e9, 0xb98a, 0xa9ab,
     0x5844, 0x4865, 0x7806, 0x6827, 0x18c0, 0x08e1, 0x3882, 0x28a3,
     0xcb7d, 0xdb5c, 0xeb3f, 0xfb1e, 0x8bf9, 0x9bd8, 0xabbb, 0xbb9a,
     0x4a75, 0x5a54, 0x6a37, 0x7a16, 0x0af1, 0x1ad0, 0x2ab3, 0x3a92,
     0xfd2e, 0xed0f, 0xdd6c, 0xcd4d, 0xbdaa, 0xad8b, 0x9de8, 0x8dc9,
     0x7c26, 0x6c07, 0x5c64, 0x4c45, 0x3ca2, 0x2c83, 0x1ce0, 0x0cc1,
     0xef1f, 0xff3e, 0xcf5d, 0xdf7c, 0xaf9b, 0xbfba, 0x8fd9, 0x9ff8,
     0x6e17, 0x7e36, 0x4e55, 0x5e74, 0x2e93, 0x3eb2, 0x0ed1, 0x1ef0]"

definition t10_dif_crc_table :: "u16 list" where
  "t10_dif_crc_table =
    [0x0000, 0x8bb7, 0x9cd9, 0x176e, 0xb205, 0x39b2, 0x2edc, 0xa56b,
     0xefbd, 0x640a, 0x7364, 0xf8d3, 0x5db8, 0xd60f, 0xc161, 0x4ad6,
     0x54cd, 0xdf7a, 0xc814, 0x43a3, 0xe6c8, 0x6d7f, 0x7a11, 0xf1a6,
     0xbb70, 0x30c7, 0x27a9, 0xac1e, 0x0975, 0x82c2, 0x95ac, 0x1e1b,
     0xa99a, 0x222d, 0x3543, 0xbef4, 0x1b9f, 0x9028, 0x8746, 0x0cf1,
     0x4627, 0xcd90, 0xdafe, 0x5149, 0xf422, 0x7f95, 0x68fb, 0xe34c,
     0xfd57, 0x76e0, 0x618e, 0xea39, 0x4f52, 0xc4e5, 0xd38b, 0x583c,
     0x12ea, 0x995d, 0x8e33, 0x0584, 0xa0ef, 0x2b58, 0x3c36, 0xb781,
     0xd883, 0x5334, 0x445a, 0xcfed, 0x6a86, 0xe131, 0xf65f, 0x7de8,
     0x373e, 0xbc89, 0xabe7, 0x2050, 0x853b, 0x0e8c, 0x19e2, 0x9255,
     0x8c4e, 0x07f9, 0x1097, 0x9b20, 0x3e4b, 0xb5fc, 0xa292, 0x2925,
     0x63f3, 0xe844, 0xff2a, 0x749d, 0xd1f6, 0x5a41, 0x4d2f, 0xc698,
     0x7119, 0xfaae, 0xedc0, 0x6677, 0xc31c, 0x48ab, 0x5fc5, 0xd472,
     0x9ea4, 0x1513, 0x027d, 0x89ca, 0x2ca1, 0xa716, 0xb078, 0x3bcf,
     0x25d4, 0xae63, 0xb90d, 0x32ba, 0x97d1, 0x1c66, 0x0b08, 0x80bf,
     0xca69, 0x41de, 0x56b0, 0xdd07, 0x786c, 0xf3db, 0xe4b5, 0x6f02,
     0x3ab1, 0xb106, 0xa668, 0x2ddf, 0x88b4, 0x0303, 0x146d, 0x9fda,
     0xd50c, 0x5ebb, 0x49d5, 0xc262, 0x6709, 0xecbe, 0xfbd0, 0x7067,
     0x6e7c, 0xe5cb, 0xf2a5, 0x7912, 0xdc79, 0x57ce, 0x40a0, 0xcb17,
     0x81c1, 0x0a76, 0x1d18, 0x96af, 0x33c4, 0xb873, 0xaf1d, 0x24aa,
     0x932b, 0x189c, 0x0ff2, 0x8445, 0x212e, 0xaa99, 0xbdf7, 0x3640,
     0x7c96, 0xf721, 0xe04f, 0x6bf8, 0xce93, 0x4524, 0x524a, 0xd9fd,
     0xc7e6, 0x4c51, 0x5b3f, 0xd088, 0x75e3, 0xfe54, 0xe93a, 0x628d,
     0x285b, 0xa3ec, 0xb482, 0x3f35, 0x9a5e, 0x11e9, 0x0687, 0x8d30,
     0xe232, 0x6985, 0x7eeb, 0xf55c, 0x5037, 0xdb80, 0xccee, 0x4759,
     0x0d8f, 0x8638, 0x9156, 0x1ae1, 0xbf8a, 0x343d, 0x2353, 0xa8e4,
     0xb6ff, 0x3d48, 0x2a26, 0xa191, 0x04fa, 0x8f4d, 0x9823, 0x1394,
     0x5942, 0xd2f5, 0xc59b, 0x4e2c, 0xeb47, 0x60f0, 0x779e, 0xfc29,
     0x4ba8, 0xc01f, 0xd771, 0x5cc6, 0xf9ad, 0x721a, 0x6574, 0xeec3,
     0xa415, 0x2fa2, 0x38cc, 0xb37b, 0x1610, 0x9da7, 0x8ac9, 0x017e,
     0x1f65, 0x94d2, 0x83bc, 0x080b, 0xad60, 0x26d7, 0x31b9, 0xba0e,
     0xf0d8, 0x7b6f, 0x6c01, 0xe7b6, 0x42dd, 0xc96a, 0xde04, 0x55b3]"

definition crc7_syndrome_table :: "u8 list" where
  "crc7_syndrome_table =
    [0x00, 0x09, 0x12, 0x1b, 0x24, 0x2d, 0x36, 0x3f,
     0x48, 0x41, 0x5a, 0x53, 0x6c, 0x65, 0x7e, 0x77,
     0x19, 0x10, 0x0b, 0x02, 0x3d, 0x34, 0x2f, 0x26,
     0x51, 0x58, 0x43, 0x4a, 0x75, 0x7c, 0x67, 0x6e,
     0x32, 0x3b, 0x20, 0x29, 0x16, 0x1f, 0x04, 0x0d,
     0x7a, 0x73, 0x68, 0x61, 0x5e, 0x57, 0x4c, 0x45,
     0x2b, 0x22, 0x39, 0x30, 0x0f, 0x06, 0x1d, 0x14,
     0x63, 0x6a, 0x71, 0x78, 0x47, 0x4e, 0x55, 0x5c,
     0x64, 0x6d, 0x76, 0x7f, 0x40, 0x49, 0x52, 0x5b,
     0x2c, 0x25, 0x3e, 0x37, 0x08, 0x01, 0x1a, 0x13,
     0x7d, 0x74, 0x6f, 0x66, 0x59, 0x50, 0x4b, 0x42,
     0x35, 0x3c, 0x27, 0x2e, 0x11, 0x18, 0x03, 0x0a,
     0x56, 0x5f, 0x44, 0x4d, 0x72, 0x7b, 0x60, 0x69,
     0x1e, 0x17, 0x0c, 0x05, 0x3a, 0x33, 0x28, 0x21,
     0x4f, 0x46, 0x5d, 0x54, 0x6b, 0x62, 0x79, 0x70,
     0x07, 0x0e, 0x15, 0x1c, 0x23, 0x2a, 0x31, 0x38,
     0x41, 0x48, 0x53, 0x5a, 0x65, 0x6c, 0x77, 0x7e,
     0x09, 0x00, 0x1b, 0x12, 0x2d, 0x24, 0x3f, 0x36,
     0x58, 0x51, 0x4a, 0x43, 0x7c, 0x75, 0x6e, 0x67,
     0x10, 0x19, 0x02, 0x0b, 0x34, 0x3d, 0x26, 0x2f,
     0x73, 0x7a, 0x61, 0x68, 0x57, 0x5e, 0x45, 0x4c,
     0x3b, 0x32, 0x29, 0x20, 0x1f, 0x16, 0x0d, 0x04,
     0x6a, 0x63, 0x78, 0x71, 0x4e, 0x47, 0x5c, 0x55,
     0x22, 0x2b, 0x30, 0x39, 0x06, 0x0f, 0x14, 0x1d,
     0x25, 0x2c, 0x37, 0x3e, 0x01, 0x08, 0x13, 0x1a,
     0x6d, 0x64, 0x7f, 0x76, 0x49, 0x40, 0x5b, 0x52,
     0x3c, 0x35, 0x2e, 0x27, 0x18, 0x11, 0x0a, 0x03,
     0x74, 0x7d, 0x66, 0x6f, 0x50, 0x59, 0x42, 0x4b,
     0x17, 0x1e, 0x05, 0x0c, 0x33, 0x3a, 0x21, 0x28,
     0x5f, 0x56, 0x4d, 0x44, 0x7b, 0x72, 0x69, 0x60,
     0x0e, 0x07, 0x1c, 0x15, 0x2a, 0x23, 0x38, 0x31,
     0x46, 0x4f, 0x54, 0x5d, 0x62, 0x6b, 0x70, 0x79]"

section \<open>Lookup\<close>

definition crc16_byte :: "u16 \<Rightarrow> u8 \<Rightarrow> u16" where
  "crc16_byte crc b = drop_bit 8 crc XOR crc16_table ! unat ((crc XOR ucast b) AND 0xff)"

definition crc16 :: "u16 \<Rightarrow> u8 list \<Rightarrow> u16" where
  "crc16 crc buffer = foldl crc16_byte crc buffer"

definition crc_ccitt_byte :: "u16 \<Rightarrow> u8 \<Rightarrow> u16" where
  "crc_ccitt_byte crc b = drop_bit 8 crc XOR crc_ccitt_table ! unat ((crc XOR ucast b) AND 0xff)"

definition crc_ccitt :: "u16 \<Rightarrow> u8 list \<Rightarrow> u16" where
  "crc_ccitt crc buffer = foldl crc_ccitt_byte crc buffer"

definition crc_itu_t_byte :: "u16 \<Rightarrow> u8 \<Rightarrow> u16" where
  "crc_itu_t_byte crc b = push_bit 8 crc XOR crc_itu_t_table ! unat ((drop_bit 8 crc XOR ucast b) AND 0xff)"

definition crc_itu_t :: "u16 \<Rightarrow> u8 list \<Rightarrow> u16" where
  "crc_itu_t crc buffer = foldl crc_itu_t_byte crc buffer"

definition t10dif_byte :: "u16 \<Rightarrow> u8 \<Rightarrow> u16" where
  "t10dif_byte crc b = push_bit 8 crc XOR t10_dif_crc_table ! unat ((drop_bit 8 crc XOR ucast b) AND 0xff)"

definition crc_t10dif :: "u8 list \<Rightarrow> u16" where
  "crc_t10dif buffer = foldl t10dif_byte 0 buffer"

text \<open>\<^verbatim>\<open>crc7_byte\<close> indexes with the integer \<open>(crc << 1) ^ data\<close>, which leaves the table when \<open>crc\<close> has
  its top bit set.\<close>

definition crc7_byte :: "u8 \<Rightarrow> u8 \<Rightarrow> u8 option" where
  "crc7_byte crc b =
     (let i = unat (push_bit 1 (ucast crc) XOR ucast b :: u32) in
      if i < 256 then Some (crc7_syndrome_table ! i) else None)"

fun crc7 :: "u8 \<Rightarrow> u8 list \<Rightarrow> u8 option" where
  "crc7 crc [] = Some crc"
| "crc7 crc (b # bs) = Option.bind (crc7_byte crc b) (\<lambda>crc'. crc7 crc' bs)"

text \<open>The macro \<^verbatim>\<open>DO1\<close> of the boot environment and the loops of \<^verbatim>\<open>env_crc32\<close>: eight bytes at a time,
  then the rest.\<close>

definition DO1 :: "u32 \<Rightarrow> u8 \<Rightarrow> u32" where
  "DO1 crc b = sf_crc_table ! unat ((crc XOR ucast b) AND 0xff) XOR drop_bit 8 crc"

fun env_crc32_loop :: "u32 \<Rightarrow> u8 list \<Rightarrow> u32" where
  "env_crc32_loop crc (b0 # b1 # b2 # b3 # b4 # b5 # b6 # b7 # bs) =
     env_crc32_loop (DO1 (DO1 (DO1 (DO1 (DO1 (DO1 (DO1 (DO1 crc b0) b1) b2) b3) b4) b5) b6) b7) bs"
| "env_crc32_loop crc bs = foldl DO1 crc bs"

definition env_crc32 :: "u8 list \<Rightarrow> u32" where
  "env_crc32 buf = env_crc32_loop (0 XOR 0xffffffff) buf XOR 0xffffffff"

section \<open>The reference: division one bit at a time\<close>

text \<open>Least significant bit first, and most significant bit first.\<close>

definition lsb_step :: "'a::len word \<Rightarrow> 'a word \<Rightarrow> 'a word" where
  "lsb_step p x = (if bit x 0 then drop_bit 1 x XOR p else drop_bit 1 x)"

definition msb_step :: "'a::len word \<Rightarrow> 'a word \<Rightarrow> 'a word" where
  "msb_step p x = (if bit x (LENGTH('a) - 1) then push_bit 1 x XOR p else push_bit 1 x)"

definition lsb_byte :: "'a::len word \<Rightarrow> 'a word \<Rightarrow> u8 \<Rightarrow> 'a word" where
  "lsb_byte p crc b = (lsb_step p ^^ 8) (crc XOR ucast b)"

definition msb_byte :: "'a::len word \<Rightarrow> 'a word \<Rightarrow> u8 \<Rightarrow> 'a word" where
  "msb_byte p crc b = (msb_step p ^^ 8) (crc XOR push_bit (LENGTH('a) - 8) (ucast b))"

lemma lsb_step_xor: "lsb_step p (x XOR y) = lsb_step p x XOR lsb_step p y"
  by (auto simp: lsb_step_def bit_simps drop_bit_xor ac_simps)

lemma msb_step_xor: "msb_step p (x XOR y) = msb_step p x XOR msb_step p y"
  by (auto simp: msb_step_def bit_simps push_bit_xor ac_simps)

lemma funpow_xor:
  fixes f :: "'a::len word \<Rightarrow> 'a word"
  assumes "\<And>x y. f (x XOR y) = f x XOR f y"
  shows "(f ^^ n) (x XOR y) = (f ^^ n) x XOR (f ^^ n) y"
  by (induction n arbitrary: x y) (simp_all add: assms)

text \<open>Bits that the division does not look at are only moved.\<close>

lemma lsb_steps_clear: "take_bit n x = 0 \<Longrightarrow> (lsb_step p ^^ n) x = drop_bit n x"
proof (induction n)
  case (Suc n)
  have "take_bit n x = take_bit n (take_bit (Suc n) x)" by simp
  with Suc.prems have "take_bit n x = 0" by simp
  moreover have "\<not> bit x n" using Suc.prems bit_take_bit_iff [of "Suc n" x n] by simp
  ultimately show ?case using Suc.IH
    by (simp add: lsb_step_def bit_drop_bit_eq)
qed simp

lemma msb_steps_clear:
  assumes "n \<le> LENGTH('a)" "drop_bit (LENGTH('a) - n) (x :: 'a::len word) = 0"
  shows "(msb_step p ^^ n) x = push_bit n x"
  using assms
proof (induction n)
  case (Suc n)
  have clear: "\<not> bit x k" if "LENGTH('a) - Suc n \<le> k" for k
    using Suc.prems(2) bit_drop_bit_eq [of "LENGTH('a) - Suc n" x] that
    by (metis bit_0_eq bot.extremum_uniqueI bot_apply bot_bool_def le_add_diff_inverse o_apply)
  have "drop_bit (LENGTH('a) - n) x = 0"
    by (rule bit_eqI) (use clear in \<open>auto simp: bit_simps\<close>)
  moreover have "\<not> bit (push_bit n x) (LENGTH('a) - 1)"
    using clear [of "LENGTH('a) - Suc n"] Suc.prems(1) by (auto simp: bit_simps)
  ultimately show ?case using Suc by (simp add: msb_step_def push_bit_push_bit)
qed simp

lemma unat_and_0xff: "unat (w AND 0xff) < 256"
proof -
  have "w AND 0xff = take_bit 8 w" by (simp add: take_bit_eq_mask mask_eq_exp_minus_1)
  then show ?thesis using take_bit_nat_less_exp [of 8 "unat w"] by (simp add: unsigned_take_bit_eq)
qed

lemma bit_0xff: "bit (255 :: int) n \<longleftrightarrow> n < 8"
  using bit_mask_iff [of 8 n, where 'a = int] by (simp add: mask_eq_exp_minus_1)

section \<open>What a table must satisfy\<close>

locale lsb_table =
  fixes p :: "'a::len word" and table :: "'a word list"
  assumes wide: "8 \<le> LENGTH('a)"
    and entries: "i < 256 \<Longrightarrow> table ! i = (lsb_step p ^^ 8) (of_nat i)"
begin

lemma lookup_byte: "drop_bit 8 crc XOR table ! unat ((crc XOR ucast b) AND 0xff) = lsb_byte p crc b"
proof -
  let ?x = "crc XOR ucast b"
  have idx: "unat (?x AND 0xff) < 256" by (rule unat_and_0xff)
  have split: "?x = (?x AND 0xff) XOR (?x AND NOT 0xff)" by (rule bit_eqI) (auto simp: bit_simps)
  have "take_bit 8 (?x AND NOT 0xff) = 0"
    by (rule bit_eqI) (auto simp: bit_simps bit_0xff)
  then have "(lsb_step p ^^ 8) (?x AND NOT 0xff) = drop_bit 8 (?x AND NOT 0xff)" by (rule lsb_steps_clear)
  also have "\<dots> = drop_bit 8 crc"
    by (rule bit_eqI) (auto simp: bit_simps bit_0xff dest: bit_imp_le_length)
  finally have "(lsb_step p ^^ 8) ?x = (lsb_step p ^^ 8) (?x AND 0xff) XOR drop_bit 8 crc"
    by (subst split) (simp only: funpow_xor [OF lsb_step_xor])
  then show ?thesis using entries [OF idx] by (simp add: lsb_byte_def xor.commute)
qed

lemma lookup_buffer:
  "foldl (\<lambda>crc b. drop_bit 8 crc XOR table ! unat ((crc XOR ucast b) AND 0xff)) crc buf = foldl (lsb_byte p) crc buf"
  by (simp add: lookup_byte)

end

locale msb_table =
  fixes p :: "'a::len word" and table :: "'a word list"
  assumes wide: "8 \<le> LENGTH('a)"
    and entries: "i < 256 \<Longrightarrow> table ! i = (msb_step p ^^ 8) (push_bit (LENGTH('a) - 8) (of_nat i))"
begin

lemma lookup_byte:
  "push_bit 8 crc XOR table ! unat ((drop_bit (LENGTH('a) - 8) crc XOR ucast b) AND 0xff) = msb_byte p crc b"
proof -
  let ?x = "crc XOR push_bit (LENGTH('a) - 8) (ucast b)" and ?i = "(drop_bit (LENGTH('a) - 8) crc XOR ucast b) AND 0xff"
  let ?lo = "take_bit (LENGTH('a) - 8) ?x"
  have split: "?x = push_bit (LENGTH('a) - 8) ?i XOR ?lo"
    by (rule bit_eqI) (use wide in \<open>auto simp: bit_simps bit_0xff dest: bit_imp_le_length\<close>)
  have "drop_bit (LENGTH('a) - 8) ?lo = 0" by (rule bit_eqI) (auto simp: bit_simps)
  then have "(msb_step p ^^ 8) ?lo = push_bit 8 ?lo" by (rule msb_steps_clear [OF wide])
  also have "\<dots> = push_bit 8 crc" by (rule bit_eqI) (auto simp: bit_simps)
  finally have "(msb_step p ^^ 8) ?x = (msb_step p ^^ 8) (push_bit (LENGTH('a) - 8) ?i) XOR push_bit 8 crc"
    by (subst split) (simp only: funpow_xor [OF msb_step_xor])
  then show ?thesis using entries [OF unat_and_0xff, of "drop_bit (LENGTH('a) - 8) crc XOR ucast b"]
    by (simp add: msb_byte_def xor.commute)
qed

lemma lookup_buffer:
  "foldl (\<lambda>crc b. push_bit 8 crc XOR table ! unat ((drop_bit (LENGTH('a) - 8) crc XOR ucast b) AND 0xff)) crc buf
    = foldl (msb_byte p) crc buf"
  by (simp add: lookup_byte)

end

section \<open>The tables are right\<close>

text \<open>Both directions of the division are linear, so that a table of 256 entries follows from the
  sixteen entries of each nibble.\<close>

definition xor_table :: "'a::len word list \<Rightarrow> 'a word list \<Rightarrow> 'a word list" where
  "xor_table hs ls = concat (map (\<lambda>h. map (\<lambda>l. l XOR h) ls) hs)"

lemma xor_table_nth:
  assumes "length ls = 16" "i < 16 * length hs"
  shows "xor_table hs ls ! i = ls ! (i mod 16) XOR hs ! (i div 16)"
  using assms(2)
proof (induction hs arbitrary: i)
  case (Cons h hs)
  show ?case
  proof (cases "i < 16")
    case True
    then show ?thesis using assms(1) by (simp add: xor_table_def nth_append)
  next
    case False
    then have "xor_table (h # hs) ls ! i = xor_table hs ls ! (i - 16)"
      using assms(1) by (simp add: xor_table_def nth_append)
    also have "\<dots> = ls ! ((i - 16) mod 16) XOR hs ! ((i - 16) div 16)" using Cons False by (intro Cons.IH) simp
    finally show ?thesis using False by (simp add: le_mod_geq le_div_geq)
  qed
qed simp

lemma of_nat_nibbles: "(of_nat i :: 'a::len word) = of_nat (i mod 16) XOR of_nat (16 * (i div 16))"
proof -
  have "i = take_bit 4 i XOR push_bit 4 (drop_bit 4 i)"
    by (rule bit_eqI) (auto simp: bit_simps)
  then have "i = (i mod 16) XOR (16 * (i div 16))"
    by (simp add: take_bit_eq_mod push_bit_eq_mult drop_bit_eq_div mult.commute)
  then show ?thesis by (metis of_nat_xor_eq)
qed

lemma map_upt_16: "map f [0..<16] = [f 0, f 1, f 2, f 3, f 4, f 5, f 6, f 7, f 8, f 9, f 10, f 11, f 12, f 13, f 14, f 15]"
  by (simp add: upt_rec [of _ 16] eval_nat_numeral)

lemma table_from_nibbles:
  fixes L :: "'a::len word \<Rightarrow> 'a word"
  assumes linear: "\<And>x y. L (x XOR y) = L x XOR L y"
    and lows: "ls = map (\<lambda>j. L (of_nat j)) [0..<16]" and highs: "hs = map (\<lambda>j. L (of_nat (16 * j))) [0..<16]"
    and "i < 256"
  shows "xor_table hs ls ! i = L (of_nat i)"
proof -
  have "xor_table hs ls ! i = L (of_nat (i mod 16)) XOR L (of_nat (16 * (i div 16)))"
    using assms(4) by (subst xor_table_nth) (simp_all add: lows highs less_mult_imp_div_less del: of_nat_mult)
  then show ?thesis by (simp only: linear [symmetric] of_nat_nibbles [symmetric])
qed

lemma funpow_8: "(f ^^ 8) x = f (f (f (f (f (f (f (f x)))))))"
  by (simp add: numeral_eq_Suc)

lemmas lsb_linear = funpow_xor [OF lsb_step_xor]

lemma msb_linear:
  "(msb_step p ^^ 8) (push_bit n (x XOR y)) = (msb_step p ^^ 8) (push_bit n x) XOR (msb_step p ^^ 8) (push_bit n y)"
  by (simp only: push_bit_xor funpow_xor [OF msb_step_xor])

lemma crc16_table_low: "[0x0000, 0xc0c1, 0xc181, 0x0140, 0xc301, 0x03c0, 0x0280, 0xc241, 0xc601, 0x06c0, 0x0780, 0xc741, 0x0500, 0xc5c1, 0xc481, 0x0440]
    = map (\<lambda>j. (lsb_step (0xa001 :: u16) ^^ 8) (of_nat j)) [0..<16]"
  unfolding map_upt_16 by (simp add: funpow_8 lsb_step_def)

lemma crc16_table_high: "[0x0000, 0xcc01, 0xd801, 0x1400, 0xf001, 0x3c00, 0x2800, 0xe401, 0xa001, 0x6c00, 0x7800, 0xb401, 0x5000, 0x9c01, 0x8801, 0x4400]
    = map (\<lambda>j. (lsb_step (0xa001 :: u16) ^^ 8) (of_nat (16 * j))) [0..<16]"
  unfolding map_upt_16 by (simp add: funpow_8 lsb_step_def)

lemma crc16_table_xor: "crc16_table = xor_table [0x0000, 0xcc01, 0xd801, 0x1400, 0xf001, 0x3c00, 0x2800, 0xe401, 0xa001, 0x6c00, 0x7800, 0xb401, 0x5000, 0x9c01, 0x8801, 0x4400]
    [0x0000, 0xc0c1, 0xc181, 0x0140, 0xc301, 0x03c0, 0x0280, 0xc241, 0xc601, 0x06c0, 0x0780, 0xc741, 0x0500, 0xc5c1, 0xc481, 0x0440]"
  by (simp add: crc16_table_def xor_table_def)

interpretation c16: lsb_table "0xa001" crc16_table
proof
  show "8 \<le> LENGTH(16)" by simp
  show "crc16_table ! i = (lsb_step (0xa001 :: u16) ^^ 8) (of_nat i)" if "i < 256" for i
    unfolding crc16_table_xor using table_from_nibbles [OF lsb_linear crc16_table_low crc16_table_high that] by simp
qed

lemma crc_ccitt_table_low: "[0x0000, 0x1189, 0x2312, 0x329b, 0x4624, 0x57ad, 0x6536, 0x74bf, 0x8c48, 0x9dc1, 0xaf5a, 0xbed3, 0xca6c, 0xdbe5, 0xe97e, 0xf8f7]
    = map (\<lambda>j. (lsb_step (0x8408 :: u16) ^^ 8) (of_nat j)) [0..<16]"
  unfolding map_upt_16 by (simp add: funpow_8 lsb_step_def)

lemma crc_ccitt_table_high: "[0x0000, 0x1081, 0x2102, 0x3183, 0x4204, 0x5285, 0x6306, 0x7387, 0x8408, 0x9489, 0xa50a, 0xb58b, 0xc60c, 0xd68d, 0xe70e, 0xf78f]
    = map (\<lambda>j. (lsb_step (0x8408 :: u16) ^^ 8) (of_nat (16 * j))) [0..<16]"
  unfolding map_upt_16 by (simp add: funpow_8 lsb_step_def)

lemma crc_ccitt_table_xor: "crc_ccitt_table = xor_table [0x0000, 0x1081, 0x2102, 0x3183, 0x4204, 0x5285, 0x6306, 0x7387, 0x8408, 0x9489, 0xa50a, 0xb58b, 0xc60c, 0xd68d, 0xe70e, 0xf78f]
    [0x0000, 0x1189, 0x2312, 0x329b, 0x4624, 0x57ad, 0x6536, 0x74bf, 0x8c48, 0x9dc1, 0xaf5a, 0xbed3, 0xca6c, 0xdbe5, 0xe97e, 0xf8f7]"
  by (simp add: crc_ccitt_table_def xor_table_def)

interpretation ccitt: lsb_table "0x8408" crc_ccitt_table
proof
  show "8 \<le> LENGTH(16)" by simp
  show "crc_ccitt_table ! i = (lsb_step (0x8408 :: u16) ^^ 8) (of_nat i)" if "i < 256" for i
    unfolding crc_ccitt_table_xor using table_from_nibbles [OF lsb_linear crc_ccitt_table_low crc_ccitt_table_high that] by simp
qed

lemma sf_crc_table_low: "[0x00000000, 0x77073096, 0xee0e612c, 0x990951ba, 0x076dc419, 0x706af48f, 0xe963a535, 0x9e6495a3, 0x0edb8832, 0x79dcb8a4, 0xe0d5e91e, 0x97d2d988, 0x09b64c2b, 0x7eb17cbd, 0xe7b82d07, 0x90bf1d91]
    = map (\<lambda>j. (lsb_step (0xedb88320 :: u32) ^^ 8) (of_nat j)) [0..<16]"
  unfolding map_upt_16 by (simp add: funpow_8 lsb_step_def)

lemma sf_crc_table_high: "[0x00000000, 0x1db71064, 0x3b6e20c8, 0x26d930ac, 0x76dc4190, 0x6b6b51f4, 0x4db26158, 0x5005713c, 0xedb88320, 0xf00f9344, 0xd6d6a3e8, 0xcb61b38c, 0x9b64c2b0, 0x86d3d2d4, 0xa00ae278, 0xbdbdf21c]
    = map (\<lambda>j. (lsb_step (0xedb88320 :: u32) ^^ 8) (of_nat (16 * j))) [0..<16]"
  unfolding map_upt_16 by (simp add: funpow_8 lsb_step_def)

lemma sf_crc_table_xor: "sf_crc_table = xor_table [0x00000000, 0x1db71064, 0x3b6e20c8, 0x26d930ac, 0x76dc4190, 0x6b6b51f4, 0x4db26158, 0x5005713c, 0xedb88320, 0xf00f9344, 0xd6d6a3e8, 0xcb61b38c, 0x9b64c2b0, 0x86d3d2d4, 0xa00ae278, 0xbdbdf21c]
    [0x00000000, 0x77073096, 0xee0e612c, 0x990951ba, 0x076dc419, 0x706af48f, 0xe963a535, 0x9e6495a3, 0x0edb8832, 0x79dcb8a4, 0xe0d5e91e, 0x97d2d988, 0x09b64c2b, 0x7eb17cbd, 0xe7b82d07, 0x90bf1d91]"
  by (simp add: sf_crc_table_def xor_table_def)

interpretation env32: lsb_table "0xedb88320" sf_crc_table
proof
  show "8 \<le> LENGTH(32)" by simp
  show "sf_crc_table ! i = (lsb_step (0xedb88320 :: u32) ^^ 8) (of_nat i)" if "i < 256" for i
    unfolding sf_crc_table_xor using table_from_nibbles [OF lsb_linear sf_crc_table_low sf_crc_table_high that] by simp
qed

lemma crc_itu_t_table_low: "[0x0000, 0x1021, 0x2042, 0x3063, 0x4084, 0x50a5, 0x60c6, 0x70e7, 0x8108, 0x9129, 0xa14a, 0xb16b, 0xc18c, 0xd1ad, 0xe1ce, 0xf1ef]
    = map (\<lambda>j. (msb_step (0x1021 :: u16) ^^ 8) (push_bit 8 (of_nat j))) [0..<16]"
  unfolding map_upt_16 by (simp add: funpow_8 msb_step_def)

lemma crc_itu_t_table_high: "[0x0000, 0x1231, 0x2462, 0x3653, 0x48c4, 0x5af5, 0x6ca6, 0x7e97, 0x9188, 0x83b9, 0xb5ea, 0xa7db, 0xd94c, 0xcb7d, 0xfd2e, 0xef1f]
    = map (\<lambda>j. (msb_step (0x1021 :: u16) ^^ 8) (push_bit 8 (of_nat (16 * j)))) [0..<16]"
  unfolding map_upt_16 by (simp add: funpow_8 msb_step_def)

lemma crc_itu_t_table_xor: "crc_itu_t_table = xor_table [0x0000, 0x1231, 0x2462, 0x3653, 0x48c4, 0x5af5, 0x6ca6, 0x7e97, 0x9188, 0x83b9, 0xb5ea, 0xa7db, 0xd94c, 0xcb7d, 0xfd2e, 0xef1f]
    [0x0000, 0x1021, 0x2042, 0x3063, 0x4084, 0x50a5, 0x60c6, 0x70e7, 0x8108, 0x9129, 0xa14a, 0xb16b, 0xc18c, 0xd1ad, 0xe1ce, 0xf1ef]"
  by (simp add: crc_itu_t_table_def xor_table_def)

interpretation itut: msb_table "0x1021" crc_itu_t_table
proof
  show "8 \<le> LENGTH(16)" by simp
  show "crc_itu_t_table ! i = (msb_step (0x1021 :: u16) ^^ 8) (push_bit (LENGTH(16) - 8) (of_nat i))" if "i < 256" for i
    unfolding crc_itu_t_table_xor using table_from_nibbles [OF msb_linear crc_itu_t_table_low crc_itu_t_table_high that] by simp
qed

lemma t10_dif_crc_table_low: "[0x0000, 0x8bb7, 0x9cd9, 0x176e, 0xb205, 0x39b2, 0x2edc, 0xa56b, 0xefbd, 0x640a, 0x7364, 0xf8d3, 0x5db8, 0xd60f, 0xc161, 0x4ad6]
    = map (\<lambda>j. (msb_step (0x8bb7 :: u16) ^^ 8) (push_bit 8 (of_nat j))) [0..<16]"
  unfolding map_upt_16 by (simp add: funpow_8 msb_step_def)

lemma t10_dif_crc_table_high: "[0x0000, 0x54cd, 0xa99a, 0xfd57, 0xd883, 0x8c4e, 0x7119, 0x25d4, 0x3ab1, 0x6e7c, 0x932b, 0xc7e6, 0xe232, 0xb6ff, 0x4ba8, 0x1f65]
    = map (\<lambda>j. (msb_step (0x8bb7 :: u16) ^^ 8) (push_bit 8 (of_nat (16 * j)))) [0..<16]"
  unfolding map_upt_16 by (simp add: funpow_8 msb_step_def)

lemma t10_dif_crc_table_xor: "t10_dif_crc_table = xor_table [0x0000, 0x54cd, 0xa99a, 0xfd57, 0xd883, 0x8c4e, 0x7119, 0x25d4, 0x3ab1, 0x6e7c, 0x932b, 0xc7e6, 0xe232, 0xb6ff, 0x4ba8, 0x1f65]
    [0x0000, 0x8bb7, 0x9cd9, 0x176e, 0xb205, 0x39b2, 0x2edc, 0xa56b, 0xefbd, 0x640a, 0x7364, 0xf8d3, 0x5db8, 0xd60f, 0xc161, 0x4ad6]"
  by (simp add: t10_dif_crc_table_def xor_table_def)

interpretation t10: msb_table "0x8bb7" t10_dif_crc_table
proof
  show "8 \<le> LENGTH(16)" by simp
  show "t10_dif_crc_table ! i = (msb_step (0x8bb7 :: u16) ^^ 8) (push_bit (LENGTH(16) - 8) (of_nat i))" if "i < 256" for i
    unfolding t10_dif_crc_table_xor using table_from_nibbles [OF msb_linear t10_dif_crc_table_low t10_dif_crc_table_high that] by simp
qed

text \<open>The seven-bit code is the eight-bit division of the remainder shifted up by one.\<close>

lemma crc7_low: "[0x00, 0x12, 0x24, 0x36, 0x48, 0x5a, 0x6c, 0x7e, 0x90, 0x82, 0xb4, 0xa6, 0xd8, 0xca, 0xfc, 0xee]
    = map (\<lambda>j. (msb_step (0x12 :: u8) ^^ 8) (of_nat j)) [0..<16]"
  unfolding map_upt_16 by (simp add: funpow_8 msb_step_def)

lemma crc7_high: "[0x00, 0x32, 0x64, 0x56, 0xc8, 0xfa, 0xac, 0x9e, 0x82, 0xb0, 0xe6, 0xd4, 0x4a, 0x78, 0x2e, 0x1c]
    = map (\<lambda>j. (msb_step (0x12 :: u8) ^^ 8) (of_nat (16 * j))) [0..<16]"
  unfolding map_upt_16 by (simp add: funpow_8 msb_step_def)

lemma crc7_table_xor: "map (push_bit 1) crc7_syndrome_table = xor_table [0x00, 0x32, 0x64, 0x56, 0xc8, 0xfa, 0xac, 0x9e, 0x82, 0xb0, 0xe6, 0xd4, 0x4a, 0x78, 0x2e, 0x1c]
    [0x00, 0x12, 0x24, 0x36, 0x48, 0x5a, 0x6c, 0x7e, 0x90, 0x82, 0xb4, 0xa6, 0xd8, 0xca, 0xfc, 0xee]"
  by (simp add: crc7_syndrome_table_def xor_table_def)

lemma crc7_table_range: "list_all (\<lambda>e. e < 128) crc7_syndrome_table"
  by (simp add: crc7_syndrome_table_def)

lemma crc7_table_length: "length crc7_syndrome_table = 256"
  by (simp add: crc7_syndrome_table_def)

lemma crc7_entry:
  assumes "i < 256"
  shows "push_bit 1 (crc7_syndrome_table ! i) = (msb_step 0x12 ^^ 8) (of_nat i :: u8)" "crc7_syndrome_table ! i < 128"
proof -
  have "push_bit 1 (crc7_syndrome_table ! i) = map (push_bit 1) crc7_syndrome_table ! i"
    using assms by (simp add: crc7_table_length)
  also have "\<dots> = (msb_step 0x12 ^^ 8) (of_nat i :: u8)"
    unfolding crc7_table_xor by (rule table_from_nibbles [OF funpow_xor [OF msb_step_xor] crc7_low crc7_high assms])
  finally show "push_bit 1 (crc7_syndrome_table ! i) = (msb_step 0x12 ^^ 8) (of_nat i :: u8)" .
  show "crc7_syndrome_table ! i < 128"
    using crc7_table_range assms by (simp add: list_all_length crc7_table_length)
qed

lemma crc7_byte_reference:
  assumes "crc < 128"
  shows "\<exists>crc'. crc7_byte crc b = Some crc' \<and> crc' < 128 \<and> push_bit 1 crc' = msb_byte 0x12 (push_bit 1 crc) b"
proof -
  have top: "n < 7" if "bit crc n" for n
  proof (rule ccontr)
    assume "\<not> n < 7"
    then have "7 \<le> n" by simp
    have "unat crc < 2 ^ 7" using assms by (simp add: word_less_nat_alt)
    also have "\<dots> \<le> 2 ^ n" using \<open>7 \<le> n\<close> by (rule power_increasing) simp
    finally have "\<not> bit (unat crc) n" by (simp add: bit_iff_odd)
    then show False using that by (simp add: bit_unsigned_iff)
  qed
  have "(push_bit k (ucast crc) XOR ucast b :: u32) = ucast (push_bit k crc XOR b)" if "k \<le> 1" for k
    using that by (intro bit_eqI) (auto simp: bit_simps dest: bit_imp_le_length top)
  then have "(push_bit 1 (ucast crc) XOR ucast b :: u32) = ucast (push_bit 1 crc XOR b)" by blast
  then have i: "unat (push_bit 1 (ucast crc) XOR ucast b :: u32) = unat (push_bit 1 crc XOR b)"
    by (simp add: unat_ucast_up)
  moreover have "unat (push_bit 1 crc XOR b) < 256" using unat_bound [of "push_bit 1 crc XOR b"] by simp
  ultimately show ?thesis using crc7_entry [of "unat (push_bit 1 crc XOR b)"]
    by (simp add: crc7_byte_def msb_byte_def Let_def)
qed

section \<open>Properties\<close>

lemma env_crc32_loop_eq: "env_crc32_loop crc bs = foldl DO1 crc bs"
  by (induction crc bs rule: env_crc32_loop.induct) simp_all

text \<open>
  C32. The checksum of the boot environment: \<^verbatim>\<open>env_crc32\<close>, with its table and its loop unrolled eight
  times, is the standard CRC-32 (polynomial \<open>0xedb88320\<close>, bits in reverse order, initial and final
  complement) of the buffer, computed bit by bit.
\<close>

theorem env_crc32_reference: "env_crc32 buf = NOT (foldl (lsb_byte 0xedb88320) (NOT 0) buf)"
proof -
  have "DO1 = (\<lambda>crc b. drop_bit 8 crc XOR sf_crc_table ! unat ((crc XOR ucast b) AND 0xff))"
    by (simp add: DO1_def xor.commute fun_eq_iff)
  moreover have "x XOR 0xffffffff = NOT x" for x :: u32
  proof -
    have "(0xffffffff :: u32) = - 1" by simp
    then show ?thesis by (simp only:) (rule bit_eqI, auto simp: bit_simps)
  qed
  ultimately show ?thesis
    using env32.lookup_buffer [of "NOT 0" buf] by (simp only: env_crc32_def env_crc32_loop_eq xor.left_neutral)
qed

text \<open>
  C33. The library's table-driven checksums compute what their comments say, for every buffer and
  every initial value: CRC-16 (polynomial \<open>0x8005\<close>, reversed), CRC-CCITT (\<open>0x1021\<close>, reversed), CRC
  ITU-T (\<open>0x1021\<close>), and the T10 data integrity checksum (\<open>0x8bb7\<close>).
\<close>

theorem crc_library_reference:
  "crc16 crc buf = foldl (lsb_byte 0xa001) crc buf
    \<and> crc_ccitt crc buf = foldl (lsb_byte 0x8408) crc buf
    \<and> crc_itu_t crc buf = foldl (msb_byte 0x1021) crc buf
    \<and> crc_t10dif buf = foldl (msb_byte 0x8bb7) 0 buf"
proof (intro conjI)
  show "crc16 crc buf = foldl (lsb_byte 0xa001) crc buf"
    unfolding crc16_def crc16_byte_def by (rule c16.lookup_buffer)
  show "crc_ccitt crc buf = foldl (lsb_byte 0x8408) crc buf"
    unfolding crc_ccitt_def crc_ccitt_byte_def by (rule ccitt.lookup_buffer)
  show "crc_itu_t crc buf = foldl (msb_byte 0x1021) crc buf"
    unfolding crc_itu_t_def crc_itu_t_byte_def using itut.lookup_buffer [of crc buf] by simp
  show "crc_t10dif buf = foldl (msb_byte 0x8bb7) 0 buf"
    unfolding crc_t10dif_def t10dif_byte_def using t10.lookup_buffer [of 0 buf] by simp
qed

text \<open>
  \<^verbatim>\<open>crc7\<close>, started from a seven-bit value, never leaves its table, returns a seven-bit value
  and computes the division by \<open>x^7 + x^3 + 1\<close>.
\<close>

theorem crc7_reference:
  assumes "crc < 128"
  shows "\<exists>r. crc7 crc buf = Some r \<and> r < 128 \<and> push_bit 1 r = foldl (msb_byte 0x12) (push_bit 1 crc) buf"
  using assms
proof (induction buf arbitrary: crc)
  case (Cons b bs)
  obtain crc' where "crc7_byte crc b = Some crc'" "crc' < 128" "push_bit 1 crc' = msb_byte 0x12 (push_bit 1 crc) b"
    using crc7_byte_reference [OF Cons.prems] by blast
  with Cons.IH [of crc'] show ?case by simp
qed simp

theorem crc7_reference_witness: "\<exists>r. crc7 0 [0x40, 0, 0, 0, 0] = Some r \<and> r < 128"
  using crc7_reference [of 0 "[0x40, 0, 0, 0, 0]"] by auto

end
