(* ===== verification/Strtox.thy ===== *)
theory Strtox
  imports Kernel_Prelude
begin

text \<open>
  Numbers in text: the character classes (\<^verbatim>\<open>lib/ctype.c\<close>), the conversions of \<^verbatim>\<open>lib/vsprintf.c\<close> from
  strings to integers and the option parsers of \<^verbatim>\<open>lib/cmdline.c\<close>. A C string is the list of its bytes
  without the final zero; a pointer into it is the remaining list, and \<open>at s i\<close> reads the byte at an
  offset, which is zero at the end. \<^verbatim>\<open>char\<close> is unsigned, as on ARM.
\<close>

type_synonym u64 = "64 word"
type_synonym cstr = "u8 list"

definition at :: "cstr \<Rightarrow> nat \<Rightarrow> u8" where
  "at s i = (if i < length s then s ! i else 0)"

section \<open>Character classes\<close>

abbreviation ctU :: u8 where "ctU \<equiv> 0x01"
abbreviation ctL :: u8 where "ctL \<equiv> 0x02"
abbreviation ctD :: u8 where "ctD \<equiv> 0x04"
abbreviation ctC :: u8 where "ctC \<equiv> 0x08"
abbreviation ctP :: u8 where "ctP \<equiv> 0x10"
abbreviation ctS :: u8 where "ctS \<equiv> 0x20"
abbreviation ctX :: u8 where "ctX \<equiv> 0x40"
abbreviation ctSP :: u8 where "ctSP \<equiv> 0x80"

definition ctype_table :: "u8 list" where
  "ctype_table = [
ctC,ctC,ctC,ctC,ctC,ctC,ctC,ctC,
ctC,ctC OR ctS,ctC OR ctS,ctC OR ctS,ctC OR ctS,ctC OR ctS,ctC,ctC,
ctC,ctC,ctC,ctC,ctC,ctC,ctC,ctC,
ctC,ctC,ctC,ctC,ctC,ctC,ctC,ctC,
ctS OR ctSP,ctP,ctP,ctP,ctP,ctP,ctP,ctP,
ctP,ctP,ctP,ctP,ctP,ctP,ctP,ctP,
ctD,ctD,ctD,ctD,ctD,ctD,ctD,ctD,
ctD,ctD,ctP,ctP,ctP,ctP,ctP,ctP,
ctP,ctU OR ctX,ctU OR ctX,ctU OR ctX,ctU OR ctX,ctU OR ctX,ctU OR ctX,ctU,
ctU,ctU,ctU,ctU,ctU,ctU,ctU,ctU,
ctU,ctU,ctU,ctU,ctU,ctU,ctU,ctU,
ctU,ctU,ctU,ctP,ctP,ctP,ctP,ctP,
ctP,ctL OR ctX,ctL OR ctX,ctL OR ctX,ctL OR ctX,ctL OR ctX,ctL OR ctX,ctL,
ctL,ctL,ctL,ctL,ctL,ctL,ctL,ctL,
ctL,ctL,ctL,ctL,ctL,ctL,ctL,ctL,
ctL,ctL,ctL,ctP,ctP,ctP,ctP,ctC,
0,0,0,0,0,0,0,0,0,0,0,0,0,0,0,0,
0,0,0,0,0,0,0,0,0,0,0,0,0,0,0,0,
ctS OR ctSP,ctP,ctP,ctP,ctP,ctP,ctP,ctP,ctP,ctP,ctP,ctP,ctP,ctP,ctP,ctP,
ctP,ctP,ctP,ctP,ctP,ctP,ctP,ctP,ctP,ctP,ctP,ctP,ctP,ctP,ctP,ctP,
ctU,ctU,ctU,ctU,ctU,ctU,ctU,ctU,ctU,ctU,ctU,ctU,ctU,ctU,ctU,ctU,
ctU,ctU,ctU,ctU,ctU,ctU,ctU,ctP,ctU,ctU,ctU,ctU,ctU,ctU,ctU,ctL,
ctL,ctL,ctL,ctL,ctL,ctL,ctL,ctL,ctL,ctL,ctL,ctL,ctL,ctL,ctL,ctL,
ctL,ctL,ctL,ctL,ctL,ctL,ctL,ctP,ctL,ctL,ctL,ctL,ctL,ctL,ctL,ctL]"

definition ismask :: "u8 \<Rightarrow> u8" where
  "ismask c = ctype_table ! unat c"

definition isalnum :: "u8 \<Rightarrow> bool" where
  "isalnum c \<longleftrightarrow> ismask c AND (ctU OR ctL OR ctD) \<noteq> 0"

definition isdigit :: "u8 \<Rightarrow> bool" where
  "isdigit c \<longleftrightarrow> ismask c AND ctD \<noteq> 0"

definition isprint :: "u8 \<Rightarrow> bool" where
  "isprint c \<longleftrightarrow> ismask c AND (ctP OR ctU OR ctL OR ctD OR ctSP) \<noteq> 0"

definition isspace :: "u8 \<Rightarrow> bool" where
  "isspace c \<longleftrightarrow> ismask c AND ctS \<noteq> 0"

definition isxdigit :: "u8 \<Rightarrow> bool" where
  "isxdigit c \<longleftrightarrow> ismask c AND (ctD OR ctX) \<noteq> 0"

definition isascii :: "u8 \<Rightarrow> bool" where
  "isascii c \<longleftrightarrow> c \<le> 0x7f"

section \<open>The conversions\<close>

definition TOLOWER :: "u8 \<Rightarrow> u8" where
  "TOLOWER x = x OR 0x20"

definition simple_guess_base :: "cstr \<Rightarrow> u32" where
  "simple_guess_base cp =
     (if at cp 0 = 0x30
      then if TOLOWER (at cp 1) = 0x78 \<and> isxdigit (at cp 2) then 16 else 8
      else 10)"

definition digit_value :: "u8 \<Rightarrow> u32" where
  "digit_value c = (if isdigit c then ucast c - 0x30 else ucast (TOLOWER c) - 0x61 + 10)"

text \<open>The loop of \<^verbatim>\<open>simple_strtoul\<close> and \<^verbatim>\<open>simple_strtoull\<close>, at the width of the result.\<close>

fun strto_loop :: "u32 \<Rightarrow> 'a::len word \<Rightarrow> cstr \<Rightarrow> 'a word \<times> cstr" where
  "strto_loop base result [] = (result, [])"
| "strto_loop base result (c # cp) =
     (if isxdigit c \<and> \<not> digit_value c \<ge> base
      then strto_loop base (result * ucast base + ucast (digit_value c)) cp
      else (result, c # cp))"

definition skip_0x :: "cstr \<Rightarrow> u32 \<Rightarrow> cstr" where
  "skip_0x cp base = (if base = 16 \<and> at cp 0 = 0x30 \<and> TOLOWER (at cp 1) = 0x78 then drop 2 cp else cp)"

definition simple_strtoul :: "cstr \<Rightarrow> u32 \<Rightarrow> u32 \<times> cstr" where
  "simple_strtoul cp base0 =
     (let base = (if base0 = 0 then simple_guess_base cp else base0) in strto_loop base 0 (skip_0x cp base))"

definition simple_strtol :: "cstr \<Rightarrow> u32 \<Rightarrow> u32 \<times> cstr" where
  "simple_strtol cp base =
     (if at cp 0 = 0x2d then (let (v, endp) = simple_strtoul (tl cp) base in (- v, endp)) else simple_strtoul cp base)"

definition simple_strtoull :: "cstr \<Rightarrow> u32 \<Rightarrow> u64 \<times> cstr" where
  "simple_strtoull cp base0 =
     (let base = (if base0 = 0 then simple_guess_base cp else base0) in strto_loop base 0 (skip_0x cp base))"

definition simple_strtoll :: "cstr \<Rightarrow> u32 \<Rightarrow> u64 \<times> cstr" where
  "simple_strtoll cp base =
     (if at cp 0 = 0x2d then (let (v, endp) = simple_strtoull (tl cp) base in (- v, endp)) else simple_strtoull cp base)"

text \<open>The strict forms: the status and the value stored through \<open>res\<close>.\<close>

definition strict_strtoul :: "cstr \<Rightarrow> u32 \<Rightarrow> (errno + unit) \<times> u32" where
  "strict_strtoul cp base =
     (if length cp = 0 then (Inl EINVAL, 0)
      else let (val, tail) = simple_strtoul cp base in
        if tail = cp then (Inl EINVAL, 0)
        else if at tail 0 = 0 \<or> (length cp = length cp - length tail + 1 \<and> at tail 0 = 0x0a) then (Inr (), val)
        else (Inl EINVAL, 0))"

definition strict_strtol :: "cstr \<Rightarrow> u32 \<Rightarrow> (errno + unit) \<times> u32" where
  "strict_strtol cp base =
     (if at cp 0 = 0x2d
      then let (ret, res) = strict_strtoul (tl cp) base in (ret, if ret = Inr () then - res else res)
      else strict_strtoul cp base)"

definition strict_strtoull :: "cstr \<Rightarrow> u32 \<Rightarrow> (errno + unit) \<times> u64" where
  "strict_strtoull cp base =
     (if length cp = 0 then (Inl EINVAL, 0)
      else let (val, tail) = simple_strtoull cp base in
        if tail = cp then (Inl EINVAL, 0)
        else if at tail 0 = 0 \<or> (length cp = length cp - length tail + 1 \<and> at tail 0 = 0x0a) then (Inr (), val)
        else (Inl EINVAL, 0))"

definition strict_strtoll :: "cstr \<Rightarrow> u32 \<Rightarrow> (errno + unit) \<times> u64" where
  "strict_strtoll cp base =
     (if at cp 0 = 0x2d
      then let (ret, res) = strict_strtoull (tl cp) base in (ret, if ret = Inr () then - res else res)
      else strict_strtoull cp base)"

text \<open>\<^verbatim>\<open>skip_atoi\<close>: the digits at the front of a format.\<close>

fun skip_atoi_loop :: "u32 \<Rightarrow> cstr \<Rightarrow> u32 \<times> cstr" where
  "skip_atoi_loop i [] = (i, [])"
| "skip_atoi_loop i (c # s) = (if isdigit c then skip_atoi_loop (i * 10 + ucast c - 0x30) s else (i, c # s))"

definition skip_atoi :: "cstr \<Rightarrow> u32 \<times> cstr" where
  "skip_atoi s = skip_atoi_loop 0 s"

section \<open>Options of the command line\<close>

text \<open>\<^verbatim>\<open>get_option\<close>: the code, the new position and the integer stored.\<close>

definition get_option :: "cstr option \<Rightarrow> nat \<times> cstr option \<times> u32 option" where
  "get_option str =
     (case str of
        None \<Rightarrow> (0, None, None)
      | Some cur \<Rightarrow>
          if at cur 0 = 0 then (0, str, None)
          else let (v, rest) = simple_strtol cur 0 in
            if cur = rest then (0, Some rest, Some v)
            else if at rest 0 = 0x2c then (2, Some (tl rest), Some v)
            else if at rest 0 = 0x2d then (3, Some rest, Some v)
            else (1, Some rest, Some v))"

text \<open>The loop of \<^verbatim>\<open>get_range\<close>: \<open>n\<close> stores from index \<open>i\<close> on, \<^const>\<open>None\<close> when one is outside the array.\<close>

definition array_set :: "u32 list \<Rightarrow> nat \<Rightarrow> u32 \<Rightarrow> u32 list option" where
  "array_set ints i v = (if i < length ints then Some (ints[i := v]) else None)"

fun get_range_loop :: "u32 list \<Rightarrow> nat \<Rightarrow> u32 \<Rightarrow> nat \<Rightarrow> u32 list option" where
  "get_range_loop ints i x 0 = Some ints"
| "get_range_loop ints i x (Suc n) = Option.bind (array_set ints i x) (\<lambda>a. get_range_loop a (i + 1) (x + 1) n)"

definition get_range :: "cstr \<Rightarrow> u32 list \<Rightarrow> nat \<Rightarrow> (cstr \<times> u32 list \<times> int) option" where
  "get_range str ints i =
     (if i < length ints
      then let str' = tl str;
               upper_range = fst (simple_strtol str' 0);
               inc_counter = sint (upper_range - ints ! i) in
        map_option (\<lambda>a. (str', a, inc_counter))
          (get_range_loop ints i (ints ! i) (nat (sint upper_range - sint (ints ! i))))
      else None)"

lemma strto_loop_length: "length (snd (strto_loop base r cp)) \<le> length cp"
  by (induction cp arbitrary: r) (auto simp: le_SucI)

lemma skip_0x_length: "length (skip_0x cp base) \<le> length cp"
  by (simp add: skip_0x_def)

lemma simple_strtoul_length: "length (snd (simple_strtoul cp base)) \<le> length cp"
  unfolding simple_strtoul_def Let_def by (rule le_trans [OF strto_loop_length skip_0x_length])

lemma simple_strtol_length: "length (snd (simple_strtol cp base)) \<le> length cp"
  using simple_strtoul_length [of cp base] simple_strtoul_length [of "tl cp" base]
  by (auto simp: simple_strtol_def split: prod.splits)

lemma get_option_progress:
  assumes "get_option (Some str) = (res, str1, v)" and "res \<noteq> 0" and "res \<noteq> 1"
  shows "length (tl (the str1)) < length str \<and> (res \<noteq> 3 \<longrightarrow> length (the str1) < length str)"
  using assms simple_strtol_length [of str 0]
  by (cases "snd (simple_strtol str 0)") (auto simp: get_option_def at_def Let_def split: if_splits prod.splits)

text \<open>\<^verbatim>\<open>get_options\<close>: the position where parsing ended and the array, whose entry 0 is the count.\<close>

function get_options_loop :: "cstr \<Rightarrow> nat \<Rightarrow> nat \<Rightarrow> u32 list \<Rightarrow> (cstr \<times> nat \<times> u32 list) option" where
  "get_options_loop str i nints ints =
     (if i < nints
      then case get_option (Some str) of
          (res, str1, v) \<Rightarrow>
            Option.bind (case v of None \<Rightarrow> Some ints | Some x \<Rightarrow> array_set ints i x) (\<lambda>ints1.
              if res = 0 then Some (the str1, i, ints1)
              else if res = 3
              then (case get_range (the str1) ints1 i of
                      None \<Rightarrow> None
                    | Some (str2, ints2, range_nums) \<Rightarrow>
                        if range_nums < 0 then Some (str2, i, ints2)
                        else get_options_loop str2 (i + nat range_nums) nints ints2)
              else if res = 1 then Some (the str1, i + 1, ints1)
              else get_options_loop (the str1) (i + 1) nints ints1)
      else Some (str, i, ints))"
  by pat_completeness auto
termination
  by (relation "measure (\<lambda>(str, i, nints, ints). length str)")
     (auto simp: get_range_def Let_def split: if_splits dest!: get_option_progress [OF sym])

declare get_options_loop.simps [simp del]

definition get_options :: "cstr \<Rightarrow> nat \<Rightarrow> u32 list \<Rightarrow> (cstr \<times> u32 list) option" where
  "get_options str nints ints =
     Option.bind (get_options_loop str 1 nints ints) (\<lambda>(str', i, ints').
       map_option (Pair str') (array_set ints' 0 (of_nat (i - 1))))"

definition memparse :: "cstr \<Rightarrow> u64 \<times> cstr" where
  "memparse ptr =
     (let (ret, endptr) = simple_strtoull ptr 0; c = at endptr 0 in
      if c = 0x47 \<or> c = 0x67 then (push_bit 10 (push_bit 10 (push_bit 10 ret)), tl endptr)
      else if c = 0x4d \<or> c = 0x6d then (push_bit 10 (push_bit 10 ret), tl endptr)
      else if c = 0x4b \<or> c = 0x6b then (push_bit 10 ret, tl endptr)
      else (ret, endptr))"

section \<open>Character classes as ranges\<close>

lemma ctype_masks:
  "map (\<lambda>m. m AND ctD \<noteq> 0) ctype_table = replicate 48 False @ replicate 10 True @ replicate 198 False"
  "map (\<lambda>m. m AND ctX \<noteq> 0) ctype_table =
     replicate 65 False @ replicate 6 True @ replicate 26 False @ replicate 6 True @ replicate 153 False"
  by (simp_all add: ctype_table_def) (simp_all add: numeral_eq_Suc)

lemma length_ctype_table: "length ctype_table = 256"
  by (simp add: ctype_table_def)

lemma ismask_map: "P (ismask c) \<longleftrightarrow> map P ctype_table ! unat c"
  using unat_bound [of c] by (simp add: ismask_def length_ctype_table)

lemma isdigit_iff: "isdigit c \<longleftrightarrow> 48 \<le> unat c \<and> unat c < 58"
  unfolding isdigit_def ismask_map [of "\<lambda>m. m AND ctD \<noteq> 0"] ctype_masks
  using unat_bound [of c] by (auto simp: nth_append)

lemma isxdigit_iff:
  "isxdigit c \<longleftrightarrow> 48 \<le> unat c \<and> unat c < 58 \<or> 65 \<le> unat c \<and> unat c < 71 \<or> 97 \<le> unat c \<and> unat c < 103"
proof -
  have "m AND (a OR b) \<noteq> 0 \<longleftrightarrow> m AND a \<noteq> 0 \<or> m AND b \<noteq> 0" for m a b :: u8
    by (simp add: bit.conj_disj_distrib or_eq_0_iff)
  then have "isxdigit c \<longleftrightarrow> isdigit c \<or> map (\<lambda>m. m AND ctX \<noteq> 0) ctype_table ! unat c"
    by (simp only: isxdigit_def isdigit_def ismask_map [of "\<lambda>m. m AND ctX \<noteq> 0", symmetric])
  then show ?thesis
    unfolding ctype_masks isdigit_iff using unat_bound [of c] by (auto simp: nth_append)
qed

section \<open>Positional notation\<close>

text \<open>The digits a base allows, the value of a digit string and the digits of a number, the reference
  for the conversions in both directions.\<close>

definition base_digit :: "u32 \<Rightarrow> u8 \<Rightarrow> bool" where
  "base_digit base c \<longleftrightarrow> isxdigit c \<and> digit_value c < base"

definition digits_val :: "nat \<Rightarrow> cstr \<Rightarrow> nat" where
  "digits_val b ds = foldl (\<lambda>r c. r * b + unat (digit_value c)) 0 ds"

definition digit_char :: "bool \<Rightarrow> nat \<Rightarrow> u8" where
  "digit_char upper d = of_nat (if d < 10 then 48 + d else (if upper then 55 else 87) + d)"

fun digits_of :: "bool \<Rightarrow> nat \<Rightarrow> nat \<Rightarrow> cstr" where
  "digits_of upper b n =
     (if n < b \<or> b < 2 then [digit_char upper n] else digits_of upper b (n div b) @ [digit_char upper (n mod b)])"

declare digits_of.simps [simp del]

lemma strto_loop_spec:
  fixes r :: "'a::len word"
  shows "strto_loop base r cp =
    (foldl (\<lambda>r c. r * ucast base + ucast (digit_value c)) r (takeWhile (base_digit base) cp),
     dropWhile (base_digit base) cp)"
  by (induction cp arbitrary: r) (auto simp: base_digit_def not_le)

lemma foldl_digits_of_nat:
  "foldl (\<lambda>r c. r * ucast base + ucast (digit_value c)) (of_nat n :: 'a::len word) ds =
     of_nat (foldl (\<lambda>r c. r * unat base + unat (digit_value c)) n ds)"
proof (induction ds arbitrary: n)
  case (Cons c ds)
  have "(ucast x :: 'a word) = of_nat (unat x)" for x :: u32
    by simp
  then show ?case using Cons.IH [of "n * unat base + unat (digit_value c)"] by simp
qed simp

lemma strto_loop_value:
  "strto_loop base 0 cp =
     (of_nat (digits_val (unat base) (takeWhile (base_digit base) cp)) :: 'a::len word, dropWhile (base_digit base) cp)"
  using foldl_digits_of_nat [of base 0 "takeWhile (base_digit base) cp", where 'a = 'a]
  by (simp add: strto_loop_spec digits_val_def)

lemma digits_val_append: "digits_val b (ds @ [c]) = digits_val b ds * b + unat (digit_value c)"
  by (simp add: digits_val_def)

lemma digit_char_unat: "d < 16 \<Longrightarrow> unat (digit_char u d) = (if d < 10 then 48 + d else (if u then 55 else 87) + d)"
  by (simp add: digit_char_def unat_of_nat_small)

lemma digit_char_value:
  assumes "d < 16" shows "unat (digit_value (digit_char u d)) = d \<and> isxdigit (digit_char u d)"
proof -
  have "d \<in> set [0..<16]" using assms by simp
  then have "digit_value (digit_char u d) = of_nat d"
    by (cases u) (auto simp: digit_value_def isdigit_iff digit_char_unat digit_char_def TOLOWER_def upt_rec)
  then show ?thesis using assms by (auto simp: isxdigit_iff digit_char_unat unat_of_nat_small)
qed

lemma digits_of_digits:
  "1 < b \<Longrightarrow> b \<le> 16 \<Longrightarrow> list_all (base_digit (of_nat b)) (digits_of u b n) \<and> digits_val b (digits_of u b n) = n"
proof (induction u b n rule: digits_of.induct)
  case (1 u b n)
  have "n mod b < 16" using 1 by (meson less_le_trans mod_less_divisor less_trans zero_less_one)
  have *: "base_digit (of_nat b) (digit_char u d)" if "d < b" for d
    using that 1 digit_char_value [of d u] by (simp add: base_digit_def word_less_nat_alt unat_of_nat_small)
  show ?case
  proof (cases "n < b")
    case True
    then show ?thesis using 1 * [of n] digit_char_value [of n u]
      by (subst (1 2) digits_of.simps) (simp add: digits_val_def)
  next
    case False
    then have "list_all (base_digit (of_nat b)) (digits_of u b (n div b)) \<and> digits_val b (digits_of u b (n div b)) = n div b"
      using 1 by simp
    then show ?thesis using False 1 * [of "n mod b"] digit_char_value [of "n mod b" u] \<open>n mod b < 16\<close>
      by (subst (1 2) digits_of.simps) (simp add: digits_val_append)
  qed
qed

lemma takeWhile_dropWhile_append:
  assumes "list_all P ds" and "rest = [] \<or> \<not> P (hd rest)"
  shows "takeWhile P (ds @ rest) = ds" and "dropWhile P (ds @ rest) = rest"
  using assms by (induction ds) (cases rest; auto)+

lemma strto_loop_digits_of:
  assumes "1 < b" and "b \<le> 16" and "rest = [] \<or> \<not> base_digit (of_nat b) (hd rest)"
  shows "strto_loop (of_nat b) 0 (digits_of u b n @ rest) = (of_nat n :: 'a::len word, rest)"
  using digits_of_digits [OF assms(1,2), of u n] takeWhile_dropWhile_append [of "base_digit (of_nat b)" "digits_of u b n", OF _ assms(3)] assms(1,2)
  by (simp add: strto_loop_value unat_of_nat_small)

lemma digits_of_nonempty [simp]: "digits_of u b n \<noteq> []"
  by (subst digits_of.simps) simp

lemma hd_digits_of:
  "1 < b \<Longrightarrow> b \<le> 16 \<Longrightarrow> \<exists>d < b. hd (digits_of u b n) = digit_char u d \<and> (d = 0 \<longleftrightarrow> n = 0)"
proof (induction u b n rule: digits_of.induct)
  case (1 u b n)
  show ?case
  proof (cases "n < b")
    case True
    then show ?thesis by (subst digits_of.simps) auto
  next
    case False
    then have "\<exists>d < b. hd (digits_of u b (n div b)) = digit_char u d \<and> (d = 0 \<longleftrightarrow> n div b = 0)"
      using 1 by simp
    then show ?thesis using False 1 by (subst digits_of.simps) (simp add: div_eq_0_iff)
  qed
qed

lemma at_0: "cp \<noteq> [] \<Longrightarrow> at cp 0 = hd cp"
  by (cases cp) (simp_all add: at_def)

lemma at_Cons [simp]: "at (c # cp) 0 = c" "at (c # cp) (Suc i) = at cp i"
  by (simp_all add: at_def)

lemma at_Nil [simp]: "at [] i = 0"
  by (simp add: at_def)

lemma digit_char_eq: "d < 16 \<Longrightarrow> digit_char u d = 0x30 \<longleftrightarrow> d = 0"
  using digit_char_unat [of d u] by (auto simp: word_unat_eq_iff split: if_splits)

lemma TOLOWER_digit_char: "d < 16 \<Longrightarrow> TOLOWER (digit_char u d) \<noteq> 0x78"
proof -
  assume "d < 16"
  then have "d \<in> set [0..<16]" by simp
  then show ?thesis by (cases u) (auto simp: TOLOWER_def digit_char_def upt_rec)
qed

text \<open>What may follow a number for the conversion with a guessed base to stop there.\<close>

definition ends_number :: "cstr \<Rightarrow> bool" where
  "ends_number rest \<longleftrightarrow> rest = [] \<or> \<not> isxdigit (hd rest) \<and> TOLOWER (hd rest) \<noteq> 0x78"

lemma ends_number_digit: "ends_number rest \<Longrightarrow> rest = [] \<or> \<not> base_digit b (hd rest)"
  by (auto simp: ends_number_def base_digit_def)

definition strto_guess :: "cstr \<Rightarrow> 'a::len word \<times> cstr" where
  "strto_guess cp = (let base = simple_guess_base cp in strto_loop base 0 (skip_0x cp base))"

lemma strto_guess_decimal:
  assumes "ends_number rest" shows "strto_guess (digits_of u 10 n @ rest) = (of_nat n, rest)"
proof (cases "n = 0")
  case True
  have "digits_of u 10 0 = [0x30]" by (simp add: digits_of.simps digit_char_def)
  moreover have "TOLOWER (at rest 0) \<noteq> 0x78"
    using assms by (cases rest) (auto simp: ends_number_def TOLOWER_def)
  ultimately show ?thesis using True strto_loop_digits_of [of 8 rest u 0, OF _ _ ends_number_digit [OF assms]]
    by (simp add: strto_guess_def simple_guess_base_def skip_0x_def digits_of.simps digit_char_def)
next
  case False
  obtain d where d: "d < 10" "hd (digits_of u 10 n) = digit_char u d" "d \<noteq> 0"
    using False hd_digits_of [of 10 u n] by auto
  then have "at (digits_of u 10 n @ rest) 0 \<noteq> 0x30" by (simp add: at_0 digit_char_eq)
  then show ?thesis using strto_loop_digits_of [of 10 rest u n, OF _ _ ends_number_digit [OF assms]]
    by (simp add: strto_guess_def simple_guess_base_def skip_0x_def)
qed

lemma strto_guess_octal:
  assumes "ends_number rest" shows "strto_guess (0x30 # digits_of u 8 n @ rest) = (of_nat n, rest)"
proof -
  obtain d where d: "d < 8" "hd (digits_of u 8 n) = digit_char u d" using hd_digits_of [of 8 u n] by auto
  then have "TOLOWER (at (digits_of u 8 n @ rest) 0) \<noteq> 0x78" using TOLOWER_digit_char [of d u] by (simp add: at_0)
  moreover have "strto_loop 8 0 (0x30 # digits_of u 8 n @ rest) = strto_loop 8 (0 :: 'a word) (digits_of u 8 n @ rest)"
    by (simp add: isxdigit_iff digit_value_def isdigit_iff)
  ultimately show ?thesis using strto_loop_digits_of [of 8 rest u n, OF _ _ ends_number_digit [OF assms], where 'a = 'a]
    by (simp add: strto_guess_def simple_guess_base_def skip_0x_def)
qed

lemma strto_guess_hex:
  assumes "ends_number rest" and "x = 0x78 \<or> x = 0x58"
  shows "strto_guess (0x30 # x # digits_of u 16 n @ rest) = (of_nat n, rest)"
proof -
  obtain d where d: "d < 16" "hd (digits_of u 16 n) = digit_char u d" using hd_digits_of [of 16 u n] by auto
  then have "isxdigit (at (digits_of u 16 n @ rest) 0)" using digit_char_value [of d u] by (simp add: at_0)
  moreover have "TOLOWER x = 0x78" using assms(2) by (auto simp: TOLOWER_def)
  ultimately have "simple_guess_base (0x30 # x # digits_of u 16 n @ rest) = 16"
    by (simp add: simple_guess_base_def numeral_2_eq_2)
  then show ?thesis using \<open>TOLOWER x = 0x78\<close>
      strto_loop_digits_of [of 16 rest u n, OF _ _ ends_number_digit [OF assms(1)], where 'a = 'a]
    by (simp add: strto_guess_def skip_0x_def numeral_2_eq_2)
qed

lemma simple_strto_guess:
  "simple_strtoul cp 0 = strto_guess cp" "simple_strtoull cp 0 = strto_guess cp"
  by (simp_all add: simple_strtoul_def simple_strtoull_def strto_guess_def)

lemma simple_strtol_decimal:
  assumes "ends_number rest" shows "simple_strtol (digits_of u 10 n @ rest) 0 = (of_nat n, rest)"
proof -
  obtain d where d: "d < 10" "hd (digits_of u 10 n) = digit_char u d" using hd_digits_of [of 10 u n] by auto
  then have "hd (digits_of u 10 n) \<noteq> 0x2d" using digit_char_unat [of d u] by (auto simp: word_unat_eq_iff)
  then show ?thesis by (simp add: simple_strtol_def simple_strto_guess at_0 strto_guess_decimal [OF assms])
qed

section \<open>Strict conversion\<close>

lemma dropWhile_eq_drop: "dropWhile P xs = drop (length (takeWhile P xs)) xs"
  by (induction xs) auto

lemma strict_tail_cases:
  assumes "0 \<notin> set cp" and "set tail \<subseteq> set cp" and "length tail \<le> length cp"
  shows "at tail 0 = 0 \<or> (length cp = length cp - length tail + 1 \<and> at tail 0 = 0x0a) \<longleftrightarrow> tail = [] \<or> tail = [0x0a]"
proof -
  have "length cp = length cp - length tail + 1 \<longleftrightarrow> length tail = 1" using assms(3) by arith
  then show ?thesis using assms(1,2) by (cases tail) auto
qed

lemma set_skip_0x: "set (skip_0x cp b) \<subseteq> set cp"
  by (auto simp: skip_0x_def dest: in_set_dropD)

lemma strict_strtoul_eq:
  assumes "0 \<notin> set cp"
  shows "strict_strtoul cp base =
    (let b = (if base = 0 then simple_guess_base cp else base);
         s = skip_0x cp b;
         ds = takeWhile (base_digit b) s;
         rest = drop (length ds) s in
     if (ds \<noteq> [] \<or> s \<noteq> cp) \<and> (rest = [] \<or> rest = [0x0a])
     then (Inr (), of_nat (digits_val (unat b) ds)) else (Inl EINVAL, 0))"
proof -
  define b where "b = (if base = 0 then simple_guess_base cp else base)"
  define s where "s = skip_0x cp b"
  define ds where "ds = takeWhile (base_digit b) s"
  define rest where "rest = drop (length ds) s"
  have s_cases: "s = cp \<or> length s < length cp"
    by (cases cp) (auto simp: s_def skip_0x_def)
  have sul: "simple_strtoul cp base = (of_nat (digits_val (unat b) ds), rest)"
    unfolding simple_strtoul_def Let_def b_def [symmetric] s_def [symmetric]
    by (simp add: strto_loop_value ds_def rest_def dropWhile_eq_drop)
  have "length ds \<le> length s" by (simp add: ds_def length_takeWhile_le)
  then have "length rest + length ds = length s" by (simp add: rest_def)
  then have same: "rest = cp \<longleftrightarrow> ds = [] \<and> s = cp"
    using s_cases by (auto simp: rest_def dest: arg_cong [where f = length])
  have sub: "set rest \<subseteq> set cp" using set_skip_0x [of cp b] by (auto simp: rest_def s_def dest: in_set_dropD)
  have len: "length rest \<le> length cp" using s_cases by (auto simp: rest_def)
  have empty: "cp = [] \<Longrightarrow> ds = [] \<and> s = cp" using s_cases by (auto simp: ds_def)
  show ?thesis
    using same empty strict_tail_cases [OF assms sub len]
    unfolding strict_strtoul_def sul b_def [symmetric] s_def [symmetric] ds_def [symmetric] rest_def [symmetric] Let_def
    by auto
qed

text \<open>
  Numerals, without reference to the code: digits with their case, their text, and the number they stand for
  in a base.
\<close>

definition digit_text :: "(bool \<times> nat) list \<Rightarrow> cstr" where
  "digit_text xs = map (\<lambda>(u, d). digit_char u d) xs"

definition digits_ok :: "nat \<Rightarrow> (bool \<times> nat) list \<Rightarrow> bool" where
  "digits_ok b xs \<longleftrightarrow> (\<forall>(u, d) \<in> set xs. d < b \<and> d < 16)"

definition positional :: "nat \<Rightarrow> (bool \<times> nat) list \<Rightarrow> nat" where
  "positional b xs = foldl (\<lambda>n (u, d). n * b + d) 0 xs"

definition newline_opt :: "cstr \<Rightarrow> bool" where
  "newline_opt nl \<longleftrightarrow> nl = [] \<or> nl = [0x0a]"

inductive numeral_text :: "u32 \<Rightarrow> cstr \<Rightarrow> nat \<Rightarrow> bool" where
  plain: "base \<noteq> 0 \<Longrightarrow> xs \<noteq> [] \<Longrightarrow> digits_ok (unat base) xs \<Longrightarrow> newline_opt nl \<Longrightarrow>
    numeral_text base (digit_text xs @ nl) (positional (unat base) xs)"
| prefixed: "x = 0x78 \<or> x = 0x58 \<Longrightarrow> digits_ok 16 xs \<Longrightarrow> newline_opt nl \<Longrightarrow>
    numeral_text 16 (0x30 # x # digit_text xs @ nl) (positional 16 xs)"
| decimal: "d \<noteq> 0 \<Longrightarrow> digits_ok 10 ((u, d) # xs) \<Longrightarrow> newline_opt nl \<Longrightarrow>
    numeral_text 0 (digit_text ((u, d) # xs) @ nl) (positional 10 ((u, d) # xs))"
| octal: "digits_ok 8 xs \<Longrightarrow> newline_opt nl \<Longrightarrow> numeral_text 0 (0x30 # digit_text xs @ nl) (positional 8 xs)"
| hex: "x = 0x78 \<or> x = 0x58 \<Longrightarrow> xs \<noteq> [] \<Longrightarrow> digits_ok 16 xs \<Longrightarrow> newline_opt nl \<Longrightarrow>
    numeral_text 0 (0x30 # x # digit_text xs @ nl) (positional 16 xs)"

lemma base_digit_char: "d < 16 \<Longrightarrow> base_digit b (digit_char u d) \<longleftrightarrow> d < unat b"
  using digit_char_value [of d u] by (simp add: base_digit_def word_less_nat_alt)

lemma base_digit_is_char:
  assumes "base_digit b c" shows "\<exists>u d. c = digit_char u d \<and> d < 16 \<and> d < unat b"
proof -
  have "isxdigit c" using assms by (simp add: base_digit_def)
  then consider "48 \<le> unat c \<and> unat c < 58" | "65 \<le> unat c \<and> unat c < 71" | "97 \<le> unat c \<and> unat c < 103"
    by (auto simp: isxdigit_iff)
  then obtain u d where ud: "d < 16" "unat c = (if d < 10 then 48 + d else (if u then 55 else 87) + d)"
  proof cases
    case 1
    then show ?thesis by (intro that [of "unat c - 48" True]) auto
  next
    case 2
    then show ?thesis by (intro that [of "unat c - 55" True]) auto
  next
    case 3
    then show ?thesis by (intro that [of "unat c - 87" False]) auto
  qed
  then have "c = digit_char u d" using digit_char_unat [of d u] by (simp add: word_unat_eq_iff)
  then show ?thesis using ud(1) assms base_digit_char [of d b u] by auto
qed

lemma digit_text_ok: "digits_ok (unat b) xs \<Longrightarrow> list_all (base_digit b) (digit_text xs)"
  by (auto simp: digits_ok_def digit_text_def list_all_iff base_digit_char)

lemma digit_text_ex: "list_all (base_digit b) cs \<Longrightarrow> \<exists>xs. cs = digit_text xs \<and> digits_ok (unat b) xs"
proof (induction cs)
  case (Cons c cs)
  then obtain xs where "cs = digit_text xs" "digits_ok (unat b) xs" by auto
  moreover from Cons.prems obtain u d where "c = digit_char u d" "d < 16" "d < unat b" using base_digit_is_char [of b c] by auto
  ultimately show ?case by (intro exI [of _ "(u, d) # xs"]) (simp add: digit_text_def digits_ok_def)
qed (simp add: digit_text_def digits_ok_def)

lemma digits_val_text: "digits_ok b xs \<Longrightarrow> digits_val n (digit_text xs) = positional n xs"
proof (induction xs rule: rev_induct)
  case (snoc x xs)
  then show ?case using digit_char_value [of "snd x" "fst x"]
    by (cases x) (simp add: digits_val_def positional_def digit_text_def digits_ok_def)
qed (simp add: digits_val_def positional_def digit_text_def)

lemma not_digit_newline: "newline_opt nl \<Longrightarrow> nl = [] \<or> \<not> base_digit b (hd nl)"
  by (auto simp: newline_opt_def base_digit_def isxdigit_iff)

lemma strict_strtoul_text:
  fixes base :: u32
  assumes "0 \<notin> set cp"
  defines "b \<equiv> if base = 0 then simple_guess_base cp else base"
  shows "strict_strtoul cp base = (Inr (), val) \<longleftrightarrow>
    (\<exists>xs nl. skip_0x cp b = digit_text xs @ nl \<and> digits_ok (unat b) xs \<and> newline_opt nl \<and>
       (xs \<noteq> [] \<or> skip_0x cp b \<noteq> cp) \<and> val = of_nat (positional (unat b) xs))"
    (is "?accepted \<longleftrightarrow> ?text")
proof
  define s ds where "s = skip_0x cp b" and "ds = takeWhile (base_digit b) s"
  have eq: "strict_strtoul cp base = (if (ds \<noteq> [] \<or> s \<noteq> cp) \<and> (drop (length ds) s = [] \<or> drop (length ds) s = [0x0a])
     then (Inr (), of_nat (digits_val (unat b) ds)) else (Inl EINVAL, 0))"
    unfolding strict_strtoul_eq [OF assms(1)] Let_def b_def [symmetric] ds_def s_def ..
  assume ?accepted
  then have ok: "ds \<noteq> [] \<or> s \<noteq> cp" "newline_opt (drop (length ds) s)" "val = of_nat (digits_val (unat b) ds)"
    unfolding eq newline_opt_def by (auto split: if_splits)
  have "list_all (base_digit b) ds" by (auto simp: ds_def list_all_iff dest: set_takeWhileD)
  then obtain xs where xs: "ds = digit_text xs" "digits_ok (unat b) xs" using digit_text_ex by blast
  have "s = ds @ drop (length ds) s" unfolding ds_def by (metis takeWhile_dropWhile_id dropWhile_eq_drop)
  then show ?text using ok xs digits_val_text [OF xs(2)] unfolding s_def [symmetric]
    by (intro exI [of _ xs] exI [of _ "drop (length ds) s"]) (auto simp: digit_text_def)
next
  assume ?text
  then obtain xs nl where t: "skip_0x cp b = digit_text xs @ nl" "digits_ok (unat b) xs" "newline_opt nl"
    "xs \<noteq> [] \<or> skip_0x cp b \<noteq> cp" "val = of_nat (positional (unat b) xs)" by blast
  have "takeWhile (base_digit b) (digit_text xs @ nl) = digit_text xs"
    by (rule takeWhile_dropWhile_append) (use digit_text_ok [OF t(2)] not_digit_newline [OF t(3)] in blast)+
  then show ?accepted using strict_strtoul_eq [OF assms(1), of base, folded b_def] t digits_val_text [OF t(2)]
    by (auto simp: Let_def newline_opt_def digit_text_def)
qed

lemma TOLOWER_x: "TOLOWER x = 0x78 \<longleftrightarrow> x = 0x78 \<or> x = 0x58"
proof
  assume x: "TOLOWER x = 0x78"
  have "x AND NOT 0x20 = (x OR 0x20) AND NOT 0x20" by (simp add: bit_eq_iff bit_simps) blast
  then have "x AND NOT 0x20 = 0x58" using x by (simp add: TOLOWER_def)
  moreover have "x AND 2 ^ k = (if bit x k then 2 ^ k else 0)" for k by (rule bit_eqI) (auto simp: bit_and_iff bit_exp_iff)
  from this [of 5] have "x AND 0x20 = (if bit x 5 then 0x20 else 0)" by simp
  moreover have "x = (x AND NOT 0x20) OR (x AND 0x20)" by (simp add: bit_eq_iff bit_simps) blast
  ultimately show "x = 0x78 \<or> x = 0x58" by (auto split: if_splits)
qed (auto simp: TOLOWER_def)

lemma skip_0x_cases:
  "skip_0x cp b \<noteq> cp \<Longrightarrow> b = 16 \<and> (\<exists>x s. (x = 0x78 \<or> x = 0x58) \<and> cp = 0x30 # x # s \<and> skip_0x cp b = s)"
  by (cases cp; cases "tl cp") (auto simp: skip_0x_def TOLOWER_x split: if_splits)

lemma skip_0x_prefixed: "x = 0x78 \<or> x = 0x58 \<Longrightarrow> skip_0x (0x30 # x # s) 16 = s"
  by (auto simp: skip_0x_def TOLOWER_def)

lemma digit_text_simps [simp]:
  "digit_text [] = []" "digit_text ((u, d) # xs) = digit_char u d # digit_text xs"
  by (simp_all add: digit_text_def)

lemma digits_ok_simps [simp]: "digits_ok b ((u, d) # xs) \<longleftrightarrow> d < b \<and> d < 16 \<and> digits_ok b xs" "digits_ok b []"
  by (auto simp: digits_ok_def)

lemma positional_zero: "positional b ((u, 0) # xs) = positional b xs"
  by (simp add: positional_def)

text \<open>The second character of a text of digits is no \<^verbatim>\<open>x\<close>.\<close>

lemma digit_text_second:
  assumes "digits_ok b xs" "newline_opt nl" shows "TOLOWER (at (digit_text xs @ nl) 0) \<noteq> 0x78"
proof (cases xs)
  case Nil
  then show ?thesis using assms(2) by (auto simp: newline_opt_def TOLOWER_def)
next
  case (Cons x xs')
  then show ?thesis using assms(1) TOLOWER_digit_char by (cases x) auto
qed

lemma skip_0x_digits: "digits_ok b xs \<Longrightarrow> newline_opt nl \<Longrightarrow> skip_0x (digit_text xs @ nl) c = digit_text xs @ nl"
proof (cases xs)
  case (Cons x xs')
  moreover assume "digits_ok b xs" "newline_opt nl"
  ultimately show ?thesis using digit_text_second [of b xs' nl] by (cases x) (simp add: skip_0x_def)
qed (auto simp: skip_0x_def newline_opt_def)

lemma numeral_accepted:
  assumes "numeral_text base cp v" and "0 \<notin> set cp"
  shows "strict_strtoul cp base = (Inr (), of_nat v)"
  using assms(1)
proof cases
  case (plain xs nl)
  then show ?thesis
    by (subst strict_strtoul_text [OF assms(2)]) (auto simp: skip_0x_digits)
next
  case (prefixed x xs nl)
  then show ?thesis
    by (subst strict_strtoul_text [OF assms(2)]) (auto simp: skip_0x_prefixed)
next
  case (decimal d u xs nl)
  then have "simple_guess_base cp = 10" by (simp add: simple_guess_base_def digit_char_eq)
  moreover have "skip_0x cp 10 = cp" by (simp add: skip_0x_def)
  ultimately show ?thesis using decimal
    by (subst strict_strtoul_text [OF assms(2)]) (auto intro!: exI [of _ "(u, d) # xs"] exI [of _ nl])
next
  case (octal xs nl)
  then have "simple_guess_base cp = 8" using digit_text_second [of 8 xs nl] by (simp add: simple_guess_base_def)
  moreover have "skip_0x cp 8 = cp" by (simp add: skip_0x_def)
  moreover have "digit_char True 0 = 0x30" by (simp add: digit_char_def)
  ultimately show ?thesis using octal
    by (subst strict_strtoul_text [OF assms(2)])
       (auto simp: positional_zero intro!: exI [of _ "(True, 0) # xs"] exI [of _ nl])
next
  case (hex x xs nl)
  obtain u d xs' where xs: "xs = (u, d) # xs'" using hex(5) by (cases xs) auto
  then have "isxdigit (digit_char u d)" using hex digit_char_value [of d u] by simp
  then have "simple_guess_base cp = 16" using hex xs by (auto simp: simple_guess_base_def TOLOWER_def eval_nat_numeral)
  then show ?thesis using hex
    by (subst strict_strtoul_text [OF assms(2)]) (auto simp: skip_0x_prefixed)
qed

lemma accepted_numeral:
  assumes "strict_strtoul cp base = (Inr (), val)" and "0 \<notin> set cp"
  shows "\<exists>v. numeral_text base cp v \<and> val = of_nat v"
proof -
  define b where "b = (if base = 0 then simple_guess_base cp else base)"
  from assms obtain xs nl where t: "skip_0x cp b = digit_text xs @ nl" "digits_ok (unat b) xs" "newline_opt nl"
    "xs \<noteq> [] \<or> skip_0x cp b \<noteq> cp" "val = of_nat (positional (unat b) xs)"
    unfolding strict_strtoul_text [OF assms(2)] b_def by blast
  show ?thesis
  proof (cases "skip_0x cp b = cp")
    case True
    then obtain u d xs' where xs: "xs = (u, d) # xs'" using t(4) by (cases xs) auto
    have cp: "cp = digit_text xs @ nl" using t(1) True by simp
    have d: "d < 16" "digit_char u d = 0x30 \<longleftrightarrow> d = 0" using t(2) xs digit_char_eq [of d u] by simp_all
    consider "base \<noteq> 0" | "base = 0" "d \<noteq> 0" | "base = 0" "d = 0" by blast
    then show ?thesis
    proof cases
      case 1
      then have "b = base" by (simp add: b_def)
      then have "numeral_text base cp (positional (unat b) xs)" unfolding cp using 1 t(2,3) xs numeral_text.plain by blast
      then show ?thesis using t(5) by blast
    next
      case 2
      then have "b = 10" using cp xs d by (simp add: b_def simple_guess_base_def)
      then have "numeral_text 0 cp (positional 10 xs)" unfolding cp xs by (intro numeral_text.decimal) (use 2 t(2,3) xs in simp_all)
      then show ?thesis using 2 t(5) \<open>b = 10\<close> by auto
    next
      case 3
      have "digits_ok (unat b) xs'" using t(2) xs by simp
      from digit_text_second [OF this t(3)] have "TOLOWER (at cp 1) \<noteq> 0x78" by (simp add: cp xs)
      moreover have c: "cp = 0x30 # digit_text xs' @ nl" using cp xs d(2) 3 by simp
      ultimately have b: "b = 8" using 3 by (simp add: b_def simple_guess_base_def)
      have "numeral_text 0 cp (positional 8 xs')" unfolding c by (rule numeral_text.octal) (use t(2,3) b xs in simp_all)
      then show ?thesis using 3 t(5) b xs positional_zero by auto
    qed
  next
    case False
    from skip_0x_cases [OF this] obtain x s where s: "b = 16" "x = 0x78 \<or> x = 0x58" "cp = 0x30 # x # s" "skip_0x cp b = s" by blast
    then have c: "cp = 0x30 # x # digit_text xs @ nl" using t(1) by simp
    show ?thesis
    proof (cases "base = 0")
      case True
      moreover have "at cp 2 = at s 0" by (simp add: s(3) at_def)
      ultimately have "isxdigit (at s 0)" using s(1) by (simp add: b_def simple_guess_base_def split: if_splits)
      then have "xs \<noteq> []" using t(1,3) s(4) by (auto simp: newline_opt_def isxdigit_iff)
      then have "numeral_text 0 cp (positional 16 xs)" unfolding c
        using s(1,2) t(2,3) by (intro numeral_text.hex) simp_all
      then show ?thesis using True t(5) s(1) by auto
    next
      case False
      then have "base = 16" using s(1) by (simp add: b_def)
      moreover have "numeral_text 16 cp (positional 16 xs)" unfolding c
        using s(1,2) t(2,3) by (intro numeral_text.prefixed) simp_all
      ultimately show ?thesis using t(5) s(1) by auto
    qed
  qed
qed

text \<open>
  C37. \<^verbatim>\<open>strict_strtoul\<close> accepts exactly the numerals: for every string and base it succeeds if and only if the string
  is a text of digits of the base in either case, behind \<^verbatim>\<open>0x\<close> or not for base 16, or, for base 0, a decimal, an octal
  with its leading zero or a hexadecimal with its \<^verbatim>\<open>0x\<close>, each with at most a newline behind it; it then stores the
  number the digits stand for, modulo \<open>2^32\<close>. On everything else it returns \<^verbatim>\<open>-EINVAL\<close> and stores 0. The texts and
  their numbers are defined without the functions of the code.
\<close>

theorem strict_strtoul_accepts:
  assumes "0 \<notin> set cp"
  shows "(strict_strtoul cp base = (Inr (), val) \<longleftrightarrow> (\<exists>v. numeral_text base cp v \<and> val = of_nat v)) \<and>
    (\<not> (\<exists>v. numeral_text base cp v) \<longrightarrow> strict_strtoul cp base = (Inl EINVAL, 0))"
proof
  show "strict_strtoul cp base = (Inr (), val) \<longleftrightarrow> (\<exists>v. numeral_text base cp v \<and> val = of_nat v)"
    using numeral_accepted [OF _ assms] accepted_numeral [OF _ assms] by blast
  have "(\<exists>val. strict_strtoul cp base = (Inr (), val)) \<or> strict_strtoul cp base = (Inl EINVAL, 0)"
    unfolding strict_strtoul_eq [OF assms] Let_def by simp
  then show "\<not> (\<exists>v. numeral_text base cp v) \<longrightarrow> strict_strtoul cp base = (Inl EINVAL, 0)"
    using accepted_numeral [OF _ assms] by blast
qed

theorem strict_strtoul_accepts_witness:
  "strict_strtoul [0x30, 0x78, 0x61, 0x46, 0x0a] 0 = (Inr (), 175) \<and> strict_strtoul [0x34, 0x32] 10 = (Inr (), 42)"
proof
  have txts: "digit_text [(False, 10), (True, 15)] = [0x61, 0x46]" "digit_text [(False, 4), (False, 2)] = [0x34, 0x32]"
    by (simp_all add: digit_char_def)
  have "numeral_text 0 [0x30, 0x78, 0x61, 0x46, 0x0a] 175"
  proof -
    have "numeral_text 0 (0x30 # 0x78 # digit_text [(False, 10), (True, 15)] @ [0x0a]) (positional 16 [(False, 10), (True, 15)])"
      by (rule numeral_text.hex) (simp_all add: newline_opt_def)
    then show ?thesis unfolding txts by (simp add: positional_def)
  qed
  then show "strict_strtoul [0x30, 0x78, 0x61, 0x46, 0x0a] 0 = (Inr (), 175)"
    using strict_strtoul_accepts [of "[0x30, 0x78, 0x61, 0x46, 0x0a]" 0 175] by auto
  have "numeral_text 10 [0x34, 0x32] 42"
  proof -
    have "numeral_text 10 (digit_text [(False, 4), (False, 2)] @ []) (positional (unat (10 :: u32)) [(False, 4), (False, 2)])"
      by (rule numeral_text.plain) (simp_all add: newline_opt_def)
    then show ?thesis unfolding txts by (simp add: positional_def)
  qed
  then show "strict_strtoul [0x34, 0x32] 10 = (Inr (), 42)"
    using strict_strtoul_accepts [of "[0x34, 0x32]" 10 42] by auto
qed

text \<open>
  Against its comment, which promises to convert only what is really an unsigned long, the strict
  conversion takes a value that does not fit and stores what is left of it, and takes a bare \<^verbatim>\<open>0x\<close>.
\<close>

lemma strict_strtoul_lax:
  "strict_strtoul [0x34, 0x32, 0x39, 0x34, 0x39, 0x36, 0x37, 0x32, 0x39, 0x37] 10 = (Inr (), 1) \<and>
   strict_strtoul [0x30, 0x78] 16 = (Inr (), 0)"
  by (simp add: strict_strtoul_def simple_strtoul_def isxdigit_iff digit_value_def isdigit_iff TOLOWER_def skip_0x_def)

section \<open>Lists of options\<close>

text \<open>An option list as its items, its text and the integers it stands for.\<close>

datatype opt_item = OptNum nat | OptRange nat nat

fun item_text :: "opt_item \<Rightarrow> cstr" where
  "item_text (OptNum n) = digits_of False 10 n"
| "item_text (OptRange m n) = digits_of False 10 m @ 0x2d # digits_of False 10 n"

fun item_ints :: "opt_item \<Rightarrow> nat list" where
  "item_ints (OptNum n) = [n]"
| "item_ints (OptRange m n) = [m..<n] @ [n]"

fun item_ok :: "opt_item \<Rightarrow> bool" where
  "item_ok (OptNum n) \<longleftrightarrow> n < 2 ^ 31"
| "item_ok (OptRange m n) \<longleftrightarrow> m \<le> n \<and> n < 2 ^ 31"

fun items_text :: "opt_item list \<Rightarrow> cstr" where
  "items_text [] = []"
| "items_text [x] = item_text x"
| "items_text (x # xs) = item_text x @ 0x2c # items_text xs"

lemma ends_number_simps [simp]: "ends_number []" "ends_number (0x2c # rest)" "ends_number (0x2d # rest)"
  by (simp_all add: ends_number_def isxdigit_iff TOLOWER_def)

lemma at_digits_of: "at (digits_of u 10 n @ rest) 0 \<noteq> 0"
proof -
  obtain d where d: "d < 10" "hd (digits_of u 10 n) = digit_char u d" using hd_digits_of [of 10 u n] by auto
  then show ?thesis using digit_char_unat [of d u] by (auto simp: at_0 word_unat_eq_iff)
qed

lemma get_option_decimal:
  assumes "ends_number rest"
  shows "get_option (Some (digits_of u 10 n @ rest)) =
    (if at rest 0 = 0x2c then (2, Some (tl rest), Some (of_nat n))
     else if at rest 0 = 0x2d then (3, Some rest, Some (of_nat n)) else (1, Some rest, Some (of_nat n)))"
  using at_digits_of [of u n rest] by (simp add: get_option_def simple_strtol_decimal [OF assms])

definition put_at :: "u32 list \<Rightarrow> nat \<Rightarrow> nat list \<Rightarrow> u32 list" where
  "put_at ints i xs = take i ints @ map of_nat xs @ drop (i + length xs) ints"

lemma put_at_length: "i + length xs \<le> length ints \<Longrightarrow> length (put_at ints i xs) = length ints"
  by (simp add: put_at_def)

lemma put_at_append:
  assumes "i + length xs + length ys \<le> length ints"
  shows "put_at (put_at ints i xs) (i + length xs) ys = put_at ints i (xs @ ys)"
proof -
  have "min (length ints) i = i" using assms by simp
  then show ?thesis by (simp add: put_at_def ac_simps)
qed

lemma put_at_over:
  assumes "length xs \<le> length ys" and "i + length ys \<le> length ints"
  shows "put_at (put_at ints i xs) i ys = put_at ints i ys"
proof -
  have "min (length ints) i = i" using assms by simp
  then show ?thesis using assms by (simp add: put_at_def add.commute)
qed

lemma array_set_put_at: "i < length ints \<Longrightarrow> array_set ints i (of_nat x) = Some (put_at ints i [x])"
  by (simp add: array_set_def put_at_def upd_conv_take_nth_drop)

lemma get_range_loop_put_at:
  "i + (n - m) \<le> length ints \<Longrightarrow> get_range_loop ints i (of_nat m) (n - m) = Some (put_at ints i [m..<n])"
proof (induction "n - m" arbitrary: m i ints)
  case 0
  then show ?case by (simp add: put_at_def)
next
  case (Suc k)
  then have "get_range_loop (put_at ints i [m]) (i + 1) (of_nat (Suc m)) (n - Suc m) =
      Some (put_at (put_at ints i [m]) (i + 1) [Suc m..<n])"
    by (intro Suc.hyps(1)) (simp_all add: put_at_length)
  moreover have "n - m = Suc (n - Suc m)" "[m..<n] = [m] @ [Suc m..<n]"
    using Suc.hyps(2) by (simp_all add: upt_conv_Cons)
  ultimately show ?case using Suc.prems put_at_append [of i "[m]" "[Suc m..<n]" ints]
    by (simp add: array_set_put_at add.commute)
qed

lemma nth_put_at: "i + length (x # xs) \<le> length ints \<Longrightarrow> put_at ints i (x # xs) ! i = of_nat x"
  by (simp add: put_at_def nth_append)

lemma sint_of_nat: "n < 2 ^ 31 \<Longrightarrow> sint (of_nat n :: u32) = int n"
  by (simp add: sint_small unat_of_nat_small)

lemma get_range_decimal:
  assumes "i < length ints" and "ints ! i = of_nat m" and "m \<le> n" and "n < 2 ^ 31" and "i + (n - m) \<le> length ints"
    and "ends_number rest"
  shows "get_range (0x2d # digits_of u 10 n @ rest) ints i =
    Some (digits_of u 10 n @ rest, put_at ints i [m..<n], int n - int m)"
proof -
  have "sint (of_nat n - of_nat m :: u32) = int n - int m"
    using assms sint_of_nat [of "n - m"] by simp
  moreover have "nat (int n - int m) = n - m" by simp
  ultimately show ?thesis
    using assms get_range_loop_put_at [of i n m ints] sint_of_nat [of n] sint_of_nat [of m]
    by (simp add: get_range_def simple_strtol_decimal)
qed

text \<open>What follows an item: the end, or a comma and more.\<close>

definition continue_options :: "cstr \<Rightarrow> nat \<Rightarrow> nat \<Rightarrow> u32 list \<Rightarrow> (cstr \<times> nat \<times> u32 list) option" where
  "continue_options rest i nints ints = (if rest = [] then Some ([], i, ints) else get_options_loop (tl rest) i nints ints)"

lemma get_options_loop_num:
  assumes "i < nints" and "nints \<le> length ints" and "rest = [] \<or> hd rest = 0x2c"
  shows "get_options_loop (digits_of u 10 n @ rest) i nints ints = continue_options rest (i + 1) nints (put_at ints i [n])"
proof -
  have "ends_number rest" using assms(3) by (cases rest) auto
  then have "get_option (Some (digits_of u 10 n @ rest)) =
      (if rest = [] then 1 else 2, Some (tl rest), Some (of_nat n))"
    using assms(3) get_option_decimal [of rest u n] by (cases rest) simp_all
  then show ?thesis using assms
    by (subst get_options_loop.simps) (simp add: array_set_put_at continue_options_def)
qed

lemma get_options_loop_item:
  assumes "item_ok x" and "i + length (item_ints x) \<le> nints" and "nints \<le> length ints" and "rest = [] \<or> hd rest = 0x2c"
  shows "get_options_loop (item_text x @ rest) i nints ints =
    continue_options rest (i + length (item_ints x)) nints (put_at ints i (item_ints x))"
proof (cases x)
  case (OptNum n)
  then show ?thesis using assms get_options_loop_num [of i nints ints rest False n] by simp
next
  case (OptRange m n)
  define A where "A = put_at ints i [m]"
  have mn: "m \<le> n" "n < 2 ^ 31" "i + (n - m) < nints" "i < nints" using assms OptRange by auto
  have A: "length A = length ints" "A ! i = of_nat m" using mn assms(3) by (simp_all add: A_def put_at_length nth_put_at)
  have ends: "ends_number rest" using assms(4) by (cases rest) auto
  have range: "get_range (0x2d # digits_of False 10 n @ rest) A i = Some (digits_of False 10 n @ rest, put_at A i [m..<n], int n - int m)"
    using get_range_decimal [of i A m n rest False] A mn ends assms(3) by simp
  have put: "put_at (put_at A i [m..<n]) (i + (n - m)) [n] = put_at ints i (item_ints x)"
    using put_at_append [of i "[m..<n]" "[n]" A] put_at_over [of "[m]" "[m..<n] @ [n]" i ints] mn A(1) assms(3) OptRange
    by (simp add: A_def)
  have "get_options_loop (item_text x @ rest) i nints ints =
      get_options_loop (digits_of False 10 n @ rest) (i + (n - m)) nints (put_at A i [m..<n])"
    using mn assms(3) OptRange range get_option_decimal [of "0x2d # digits_of False 10 n @ rest" False m]
    by (subst get_options_loop.simps) (simp add: array_set_put_at A_def nat_diff_distrib)
  also have "\<dots> = continue_options rest (i + (n - m) + 1) nints (put_at ints i (item_ints x))"
    using get_options_loop_num [of "i + (n - m)" nints "put_at A i [m..<n]" rest False n] put mn A(1) assms(3,4)
    by (simp add: put_at_length)
  finally show ?thesis using OptRange by simp
qed

lemma get_options_loop_items:
  "list_all item_ok items \<Longrightarrow> i + length (concat (map item_ints items)) \<le> nints \<Longrightarrow> nints \<le> length ints \<Longrightarrow>
   get_options_loop (items_text items) i nints ints =
     Some ([], i + length (concat (map item_ints items)), put_at ints i (concat (map item_ints items)))"
proof (induction items arbitrary: i ints rule: items_text.induct)
  case 1
  then show ?case by (subst get_options_loop.simps) (simp add: get_option_def put_at_def)
next
  case (2 x)
  then show ?case using get_options_loop_item [of x i nints ints "[]"] by (simp add: continue_options_def)
next
  case (3 x y zs)
  have "get_options_loop (items_text (x # y # zs)) i nints ints =
      get_options_loop (items_text (y # zs)) (i + length (item_ints x)) nints (put_at ints i (item_ints x))"
    using get_options_loop_item [of x i nints ints "0x2c # items_text (y # zs)"] "3.prems"
    by (simp add: continue_options_def)
  also have "\<dots> = Some ([], i + length (item_ints x) + length (concat (map item_ints (y # zs))),
      put_at (put_at ints i (item_ints x)) (i + length (item_ints x)) (concat (map item_ints (y # zs))))"
    using "3.prems" by (intro "3.IH") (simp_all add: put_at_length)
  finally show ?case using "3.prems" by (simp add: put_at_append add.assoc)
qed

text \<open>
  C36. Option lists: \<^verbatim>\<open>get_options\<close>, given the text of any list of numbers and ranges whose integers fit
  the array, consumes all of it and leaves in the array their count followed by the integers in order,
  each range \<^verbatim>\<open>M-N\<close> as \<open>M, ..., N\<close>, with the rest of the array unchanged.
\<close>

theorem get_options_items:
  assumes "list_all item_ok items" and "length (concat (map item_ints items)) < nints" and "nints \<le> length ints"
  shows "get_options (items_text items) nints ints =
    (let xs = concat (map item_ints items) in
     Some ([], of_nat (length xs) # map of_nat xs @ drop (length xs + 1) ints))"
proof -
  have "(put_at ints 1 xs)[0 := v] = v # map of_nat xs @ drop (length xs + 1) ints" for xs v
    using assms(2,3) by (cases ints) (simp_all add: put_at_def)
  moreover have "put_at ints 1 xs \<noteq> []" for xs using assms(2,3) by (cases ints) (simp_all add: put_at_def)
  ultimately show ?thesis
    using assms get_options_loop_items [of items 1 nints ints]
    by (simp add: get_options_def array_set_def Let_def)
qed

theorem get_options_items_witness:
  "get_options [0x37, 0x2c, 0x32, 0x2d, 0x34] 5 [9, 9, 9, 9, 9, 9] = Some ([], [4, 7, 2, 3, 4, 9])"
  using get_options_items [of "[OptNum 7, OptRange 2 4]" 5 "[9, 9, 9, 9, 9, 9]"]
  by (simp add: digits_of.simps digit_char_def upt_rec)

text \<open>
  Nothing keeps a range within the array: with room for two integers after the count, the text
  \<^verbatim>\<open>1-9\<close> makes \<^verbatim>\<open>get_range\<close> store past the end.
\<close>

lemma get_options_overflow: "get_options [0x31, 0x2d, 0x39] 3 [0, 0, 0] = None"
proof -
  have "digits_of False 10 1 = [0x31]" "digits_of False 10 9 = [0x39]" by (simp_all add: digits_of.simps digit_char_def)
  moreover have "get_range_loop [0, 1, 0] (Suc 0) 1 8 = None"
    by (simp add: eval_nat_numeral array_set_def)
  ultimately show ?thesis
    using get_option_decimal [of "[0x2d, 0x39]" False 1] simple_strtol_decimal [of "[]" False 9]
    by (simp add: get_options_def get_options_loop.simps [of "[0x31, 0x2d, 0x39]"] array_set_def get_range_def)
qed

end
