(* ===== verification/Vsprintf_Num.thy ===== *)
theory Vsprintf_Num
  imports Strtox
begin

text \<open>
  Printing numbers, from \<^verbatim>\<open>lib/vsprintf.c\<close>: the decimal conversion without division and \<^verbatim>\<open>number\<close>,
  with sign, prefix, width and precision. The formatters of that file store every character through
  \<^verbatim>\<open>if (buf < end) *buf = c; ++buf\<close>; here they give the characters in order, and the bounded store is in
  the theory of \<^verbatim>\<open>vsnprintf\<close>. Widths and precisions are C ints: 32-bit words read as signed numbers, whose
  arithmetic wraps around, as in a kernel built with \<^verbatim>\<open>-fno-strict-overflow\<close>.
\<close>

section \<open>Decimal digits\<close>

text \<open>The characters are stored least significant first.\<close>

definition put_dec_trunc :: "u32 \<Rightarrow> cstr" where
  "put_dec_trunc q0 =
     (let d1 = drop_bit 4 q0 AND 0xf;
          d2 = drop_bit 8 q0 AND 0xf;
          d3 = drop_bit 12 q0;
          d0 = 6 * (d3 + d2 + d1) + (q0 AND 0xf);
          q = drop_bit 11 (d0 * 0xcd);
          d0 = d0 - 10 * q;
          d1 = q + 9 * d3 + 5 * d2 + d1 in
      ucast (d0 + 0x30) #
      (if d1 \<noteq> 0 then
         let q = drop_bit 11 (d1 * 0xcd);
             d1 = d1 - 10 * q;
             d2 = q + 2 * d2 in
         ucast (d1 + 0x30) #
         (if d2 \<noteq> 0 \<or> d3 \<noteq> 0 then
            let q = drop_bit 7 (d2 * 0xd);
                d2 = d2 - 10 * q;
                d3 = q + 4 * d3 in
            ucast (d2 + 0x30) #
            (if d3 \<noteq> 0 then
               let q = drop_bit 11 (d3 * 0xcd);
                   d3 = d3 - 10 * q in
               ucast (d3 + 0x30) # (if q \<noteq> 0 then [ucast (q + 0x30)] else [])
             else [])
          else [])
       else []))"

definition put_dec_full :: "u32 \<Rightarrow> cstr" where
  "put_dec_full q0 =
     (let d1 = drop_bit 4 q0 AND 0xf;
          d2 = drop_bit 8 q0 AND 0xf;
          d3 = drop_bit 12 q0;
          d0 = 6 * (d3 + d2 + d1) + (q0 AND 0xf);
          q = drop_bit 11 (d0 * 0xcd);
          d0 = d0 - 10 * q;
          d1 = q + 9 * d3 + 5 * d2 + d1;
          q = drop_bit 11 (d1 * 0xcd);
          d1 = d1 - 10 * q;
          d2 = q + 2 * d2;
          q = drop_bit 7 (d2 * 0xd);
          d2 = d2 - 10 * q;
          d3 = q + 4 * d3;
          q = drop_bit 11 (d3 * 0xcd);
          d3 = d3 - 10 * q in
      [ucast (d0 + 0x30), ucast (d1 + 0x30), ucast (d2 + 0x30), ucast (d3 + 0x30), ucast (q + 0x30)])"

function put_dec :: "u64 \<Rightarrow> cstr" where
  "put_dec num =
     (if num < 100000 then put_dec_trunc (ucast num)
      else put_dec_full (ucast (num mod 100000)) @ put_dec (num div 100000))"
  by pat_completeness auto
termination
proof (relation "measure unat")
  fix num :: u64
  assume "\<not> num < 100000"
  then have "0 < unat num" by (simp add: word_less_nat_alt)
  then show "(num div 100000, num) \<in> measure unat" by (simp add: unat_div)
qed simp

declare put_dec.simps [simp del]

section \<open>\<open>number\<close>\<close>

type_synonym s32 = "32 word"

lemma sint_of_int_small: "- (2 ^ 31) \<le> k \<Longrightarrow> k < 2 ^ 31 \<Longrightarrow> sint (of_int k :: s32) = k"
  by (simp add: signed_of_int signed_take_bit_int_eq_self_iff)

lemma sint_range: "- (2 ^ 31) \<le> sint (x :: s32)" "sint (x :: s32) < 2 ^ 31"
  using sint_ge [of x] sint_lt [of x] by simp_all

lemma sint_diff:
  assumes "- (2 ^ 31) \<le> sint x - sint y" "sint x - sint y < 2 ^ 31" shows "sint (x - y :: s32) = sint x - sint y"
proof -
  have "x - y = of_int (sint x - sint y)" by simp
  then show ?thesis using sint_of_int_small [OF assms] by simp
qed

lemma sint_dec: "- (2 ^ 31) < sint x \<Longrightarrow> sint (x - 1 :: s32) = sint x - 1"
  using sint_diff [of x 1] sint_range [of x] by simp

lemma sint_dec_dec: "0 \<le> sint (x - 1) \<Longrightarrow> sint (x - 1 - 1 :: s32) = sint (x - 1) - 1"
  by (rule sint_dec) simp

datatype format_type =
    FORMAT_TYPE_NONE | FORMAT_TYPE_WIDTH | FORMAT_TYPE_PRECISION | FORMAT_TYPE_CHAR | FORMAT_TYPE_STR
  | FORMAT_TYPE_PTR | FORMAT_TYPE_PERCENT_CHAR | FORMAT_TYPE_INVALID | FORMAT_TYPE_LONG_LONG
  | FORMAT_TYPE_ULONG | FORMAT_TYPE_LONG | FORMAT_TYPE_UBYTE | FORMAT_TYPE_BYTE | FORMAT_TYPE_USHORT
  | FORMAT_TYPE_SHORT | FORMAT_TYPE_UINT | FORMAT_TYPE_INT | FORMAT_TYPE_NRCHARS | FORMAT_TYPE_SIZE_T
  | FORMAT_TYPE_PTRDIFF

abbreviation ZEROPAD :: u32 where "ZEROPAD \<equiv> 1"
abbreviation SIGN :: u32 where "SIGN \<equiv> 2"
abbreviation PLUS :: u32 where "PLUS \<equiv> 4"
abbreviation SPACE :: u32 where "SPACE \<equiv> 8"
abbreviation LEFT :: u32 where "LEFT \<equiv> 16"
abbreviation SMALL :: u32 where "SMALL \<equiv> 32"
abbreviation SPECIAL :: u32 where "SPECIAL \<equiv> 64"

record printf_spec =
  ps_type :: format_type
  ps_flags :: u32
  ps_width :: s32
  ps_base :: nat
  ps_precision :: s32
  ps_qualifier :: int

text \<open>The padding loops \<^verbatim>\<open>while (lo <= --x)\<close>: the characters and the final value of the counter.\<close>

function pad :: "u8 \<Rightarrow> nat \<Rightarrow> s32 \<Rightarrow> cstr \<times> s32" where
  "pad c lo x = (if int lo \<le> sint (x - 1) then (let (cs, x') = pad c lo (x - 1) in (c # cs, x')) else ([], x - 1))"
  by pat_completeness auto
termination
proof (relation "measure (\<lambda>(c, lo, x). nat (sint (x - 1) + 1))")
  fix c :: u8 and lo :: nat and x :: s32
  assume "int lo \<le> sint (x - 1)"
  moreover from this have "sint (x - 1 - 1) = sint (x - 1) - 1" by (intro sint_dec_dec) simp
  ultimately show "((c, lo, x - 1), c, lo, x) \<in> measure (\<lambda>(c, lo, x). nat (sint (x - 1) + 1))"
    unfolding in_measure prod.case by linarith
qed simp

declare pad.simps [simp del]

definition digits_table :: cstr where
  "digits_table = [0x30, 0x31, 0x32, 0x33, 0x34, 0x35, 0x36, 0x37, 0x38, 0x39, 0x41, 0x42, 0x43, 0x44, 0x45, 0x46]"

text \<open>The digits of base 8 or 16, least significant first.\<close>

function radix_loop :: "nat \<Rightarrow> u8 \<Rightarrow> u64 \<Rightarrow> cstr" where
  "radix_loop base locase num =
     (let mask = of_nat base - 1; shift = (if base = 16 then 4 else 3); num' = drop_bit shift num in
      (digits_table ! unat ((ucast num :: u8) AND mask) OR locase) #
      (if num' \<noteq> 0 then radix_loop base locase num' else []))"
  by pat_completeness auto
termination
proof (relation "measure (\<lambda>(base, locase, num). unat num)")
  fix base :: nat and locase :: u8 and num :: u64 and mask :: u8 and shift :: nat and num' :: u64
  assume "shift = (if base = 16 then 4 else 3)" and "num' = drop_bit shift num" and "num' \<noteq> 0"
  moreover from this have "num \<noteq> 0" by (cases "num = 0") simp_all
  ultimately show "((base, locase, num'), base, locase, num) \<in> measure (\<lambda>(base, locase, num). unat num)"
    by (simp add: drop_bit_eq_div unat_div unat_gt_0)
qed simp

declare radix_loop.simps [simp del]

definition number :: "u64 \<Rightarrow> printf_spec \<Rightarrow> cstr" where
  "number num0 spec =
     (let need_pfx = (ps_flags spec AND SPECIAL \<noteq> 0 \<and> ps_base spec \<noteq> 10);
          locase = ucast (ps_flags spec AND SMALL);
          flags = (if ps_flags spec AND LEFT \<noteq> 0 then ps_flags spec AND NOT ZEROPAD else ps_flags spec);
          width = ps_width spec;
          (sign, num, width) =
            (if flags AND SIGN \<noteq> 0
             then if num0 <s 0 then (0x2d, - num0, width - 1)
                  else if flags AND PLUS \<noteq> 0 then (0x2b, num0, width - 1)
                  else if flags AND SPACE \<noteq> 0 then (0x20, num0, width - 1)
                  else (0, num0, width)
             else (0, num0, width));
          width = (if need_pfx then (if ps_base spec = 16 then width - 2 else width - 1) else width);
          tmp = (if num = 0 then [0x30]
                 else if ps_base spec \<noteq> 10 then radix_loop (ps_base spec) locase num
                 else put_dec num);
          i = length tmp;
          precision = (if int i > sint (ps_precision spec) then of_nat i else ps_precision spec);
          width = width - precision;
          (lead, width) = (if flags AND (ZEROPAD OR LEFT) = 0 then pad 0x20 0 width else ([], width));
          (mid, width) =
            (if flags AND LEFT = 0 then pad (if flags AND ZEROPAD \<noteq> 0 then 0x30 else 0x20) 0 width else ([], width));
          zeros = fst (pad 0x30 i precision);
          trail = fst (pad 0x20 0 width) in
      lead @ (if sign \<noteq> 0 then [sign] else []) @
      (if need_pfx then (if ps_base spec = 16 then [0x30, 0x58 OR locase] else [0x30]) else []) @
      mid @ zeros @ rev tmp @ trail)"

section \<open>The decimal conversion is the positional one\<close>

lemma div10_cd: "e < 1020 \<Longrightarrow> e * 205 div 2048 = e div (10 :: nat)"
proof -
  assume "e < 1020"
  define a b where "a = e div 10" and "b = e mod 10"
  have "e = 10 * a + b" "b < 10" by (simp_all add: a_def b_def)
  then have "a \<le> e * 205 div 2048" "e * 205 div 2048 < a + 1" using \<open>e < 1020\<close> by auto
  then show ?thesis by (simp add: a_def)
qed

lemma div10_d: "e < 69 \<Longrightarrow> e * 13 div 128 = e div (10 :: nat)"
proof -
  assume "e < 69"
  define a b where "a = e div 10" and "b = e mod 10"
  have "e = 10 * a + b" "b < 10" by (simp_all add: a_def b_def)
  moreover from this have "2 * a + 13 * b < 128" using \<open>e < 69\<close> by (cases "a \<le> 5") linarith+
  ultimately have "a * 128 \<le> e * 13" "e * 13 < (a + 1) * 128" by simp_all
  then have "a \<le> e * 13 div 128" "e * 13 div 128 < a + 1" by (simp_all add: less_eq_div_iff_mult_less_eq div_less_iff_less_mult)
  then show ?thesis by (simp add: a_def)
qed

lemma drop_bit_of_nat_small:
  "m < 2 ^ LENGTH('a) \<Longrightarrow> drop_bit k (of_nat m :: 'a::len word) = of_nat (m div 2 ^ k)"
  by (simp add: word_unat_eq_iff unsigned_drop_bit_eq unat_of_nat_small drop_bit_eq_div [where 'a = nat]
      le_less_trans [OF div_le_dividend] take_bit_nat_eq_self del: drop_bit_eq_div)

lemma dec_step:
  assumes "e < 1020"
  shows "drop_bit 11 (of_nat e * 0xcd :: u32) = of_nat (e div 10)"
    and "(of_nat e :: u32) - 10 * of_nat (e div 10) = of_nat (e mod 10)"
proof -
  have "drop_bit 11 (of_nat (e * 205) :: u32) = of_nat (e * 205 div 2 ^ 11)"
    using assms by (intro drop_bit_of_nat_small) simp
  then show "drop_bit 11 (of_nat e * 0xcd :: u32) = of_nat (e div 10)" using div10_cd [OF assms] by simp
  have "of_nat e = (of_nat (10 * (e div 10) + e mod 10) :: u32)" by simp
  then show "(of_nat e :: u32) - 10 * of_nat (e div 10) = of_nat (e mod 10)" by (simp only: of_nat_add of_nat_mult) simp
qed

lemma dec_step2:
  assumes "e < 69" shows "drop_bit 7 (of_nat e * 0xd :: u32) = of_nat (e div 10)"
proof -
  have "drop_bit 7 (of_nat (e * 13) :: u32) = of_nat (e * 13 div 2 ^ 7)"
    using assms by (intro drop_bit_of_nat_small) simp
  then show ?thesis using div10_d [OF assms] by simp
qed

lemma digit_char_dec: "d < 10 \<Longrightarrow> ucast (of_nat d + 0x30 :: u32) = digit_char u d"
  by (simp add: digit_char_def word_unat_eq_iff unsigned_ucast_eq unat_word_ariths unat_of_nat_small take_bit_eq_mod)

lemma split10: "n = 10 * x + e \<Longrightarrow> e mod 10 = n mod 10 \<and> n div 10 = x + e div (10 :: nat)"
  by simp

text \<open>The intermediate values of both conversions, for a number below 100000.\<close>

lemma dec_digits:
  fixes n :: nat
  assumes "n < 100000"
  defines "n0 \<equiv> n mod 16" and "n1 \<equiv> n div 16 mod 16" and "n2 \<equiv> n div 256 mod 16" and "n3 \<equiv> n div 4096"
  defines "e0 \<equiv> 6 * (n3 + n2 + n1) + n0"
  defines "e1 \<equiv> e0 div 10 + 9 * n3 + 5 * n2 + n1"
  defines "e2 \<equiv> e1 div 10 + 2 * n2"
  defines "e3 \<equiv> e2 div 10 + 4 * n3"
  shows "e0 < 1020" and "e1 < 1020" and "e2 < 69" and "e3 < 1020"
    and "e0 mod 10 = n mod 10" and "e1 mod 10 = n div 10 mod 10" and "e2 mod 10 = n div 100 mod 10"
    and "e3 mod 10 = n div 1000 mod 10" and "e3 div 10 = n div 10000"
    and "e1 = 0 \<longleftrightarrow> n div 10 = 0" and "e2 = 0 \<and> n3 = 0 \<longleftrightarrow> n div 100 = 0" and "e3 = n div 1000"
proof -
  have n: "n = 4096 * n3 + 256 * n2 + 16 * n1 + n0"
  proof -
    have "n div 16 = 16 * (n div 256) + n1" "n div 256 = 16 * n3 + n2"
      using mult_div_mod_eq [of 16 "n div 16"] mult_div_mod_eq [of 16 "n div 256"]
      by (simp_all add: n1_def n2_def n3_def div_mult2_eq [symmetric])
    moreover have "n = 16 * (n div 16) + n0" by (simp add: n0_def)
    ultimately show ?thesis by linarith
  qed
  have b: "n0 < 16" "n1 < 16" "n2 < 16" "n3 < 25"
    using assms(1) by (simp_all add: n0_def n1_def n2_def n3_def)
  show e0: "e0 < 1020" using b by (simp add: e0_def)
  show e1: "e1 < 1020" using b by (simp add: e1_def e0_def)
  show e2: "e2 < 69" using b by (simp add: e2_def e1_def e0_def)
  show e3: "e3 < 1020" using b e2 by (simp add: e3_def)
  have n10: "n = 10 * (409 * n3 + 25 * n2 + n1) + e0" by (simp add: n e0_def)
  show "e0 mod 10 = n mod 10" using split10 [OF n10] by simp
  have d1: "n div 10 = 10 * (40 * n3 + 2 * n2) + e1" using split10 [OF n10] by (simp add: e1_def)
  show "e1 mod 10 = n div 10 mod 10" using split10 [OF d1] by simp
  have d2: "n div 100 = 10 * (4 * n3) + e2"
    using split10 [OF d1] by (simp add: e2_def div_mult2_eq [of n 10 10, simplified])
  show "e2 mod 10 = n div 100 mod 10" using split10 [OF d2] by simp
  have "n div 100 div 10 = 4 * n3 + e2 div 10" using split10 [OF d2] by simp
  then show d3: "e3 = n div 1000" by (simp add: e3_def div_mult2_eq [of n 100 10, simplified])
  then show "e3 mod 10 = n div 1000 mod 10" by simp
  show "e3 div 10 = n div 10000" using d3 by (simp add: div_mult2_eq [of n 1000 10, simplified])
  show "e1 = 0 \<longleftrightarrow> n div 10 = 0" using d1 by (auto simp: e1_def)
  show "e2 = 0 \<and> n3 = 0 \<longleftrightarrow> n div 100 = 0" using d2 by auto
qed

lemma dec_nibbles:
  assumes "n < 100000"
  shows "(of_nat n :: u32) AND 0xf = of_nat (n mod 16)"
    and "drop_bit 4 (of_nat n :: u32) AND 0xf = of_nat (n div 16 mod 16)"
    and "drop_bit 8 (of_nat n :: u32) AND 0xf = of_nat (n div 256 mod 16)"
    and "drop_bit 12 (of_nat n :: u32) = of_nat (n div 4096)"
proof -
  have and15: "(of_nat m :: u32) AND 0xf = of_nat (m mod 16)" for m
  proof -
    have "m AND 15 = m mod 16"
      using take_bit_eq_mask [of 4 m] take_bit_eq_mod [of 4 m] by (simp add: mask_eq_exp_minus_1)
    then show ?thesis using take_bit_of_nat [of 4 m, where 'a = u32] by (simp add: take_bit_eq_mask mask_eq_exp_minus_1)
  qed
  have shift: "drop_bit k (of_nat n :: u32) = of_nat (n div 2 ^ k)" for k
    using assms by (intro drop_bit_of_nat_small) simp
  show "(of_nat n :: u32) AND 0xf = of_nat (n mod 16)" by (rule and15)
  show "drop_bit 4 (of_nat n :: u32) AND 0xf = of_nat (n div 16 mod 16)"
    "drop_bit 8 (of_nat n :: u32) AND 0xf = of_nat (n div 256 mod 16)"
    "drop_bit 12 (of_nat n :: u32) = of_nat (n div 4096)"
    by (simp_all only: shift and15) simp_all
qed

text \<open>A decimal digit, as the code stores it, and the digit strings of at most five places.\<close>

lemma digits_of_10:
  "digits_of u 10 n = (if n div 10 = 0 then [digit_char u (n mod 10)] else digits_of u 10 (n div 10) @ [digit_char u (n mod 10)])"
  by (subst digits_of.simps) (simp add: div_eq_0_iff)

lemma of_nat_eq_0_small: "e < 1020 \<Longrightarrow> (of_nat e :: u32) = 0 \<longleftrightarrow> e = 0"
  by (simp add: word_unat_eq_iff unat_of_nat_small)

lemma put_dec_places:
  assumes "n < 100000"
  shows "put_dec_full (of_nat n) =
      map (digit_char u) [n mod 10, n div 10 mod 10, n div 100 mod 10, n div 1000 mod 10, n div 10000]"
    and "put_dec_trunc (of_nat n) = digit_char u (n mod 10) #
      (if n div 10 = 0 then [] else digit_char u (n div 10 mod 10) #
      (if n div 100 = 0 then [] else digit_char u (n div 100 mod 10) #
      (if n div 1000 = 0 then [] else digit_char u (n div 1000 mod 10) #
      (if n div 10000 = 0 then [] else [digit_char u (n div 10000)]))))"
proof -
  define n0 n1 n2 n3 where "n0 = n mod 16" and "n1 = n div 16 mod 16" and "n2 = n div 256 mod 16" and "n3 = n div 4096"
  define e0 where "e0 = 6 * (n3 + n2 + n1) + n0"
  define e1 where "e1 = e0 div 10 + 9 * n3 + 5 * n2 + n1"
  define e2 where "e2 = e1 div 10 + 2 * n2"
  define e3 where "e3 = e2 div 10 + 4 * n3"
  note defs = n0_def n1_def n2_def n3_def
  note d = dec_digits [OF assms, folded defs, folded e0_def, folded e1_def, folded e2_def, folded e3_def]
  have e2': "e2 < 1020" "n3 < 1020" using d(3) assms by (simp_all add: n3_def)
  have w: "6 * (of_nat n3 + of_nat n2 + of_nat n1) + of_nat n0 = (of_nat e0 :: u32)"
    "of_nat (e0 div 10) + 9 * of_nat n3 + 5 * of_nat n2 + of_nat n1 = (of_nat e1 :: u32)"
    "of_nat (e1 div 10) + 2 * of_nat n2 = (of_nat e2 :: u32)"
    "of_nat (e2 div 10) + 4 * of_nat n3 = (of_nat e3 :: u32)"
    by (simp_all add: e0_def e1_def e2_def e3_def)
  note eval = Let_def dec_nibbles [OF assms, folded defs] w dec_step [OF d(1)] dec_step [OF d(2)]
    dec_step2 [OF d(3)] dec_step(2) [OF e2'(1)] dec_step [OF d(4)]
  have "n div 10000 < 10" using assms by simp
  then have chars: "ucast (of_nat (e0 mod 10) + 0x30 :: u32) = digit_char u (n mod 10)"
    "ucast (of_nat (e1 mod 10) + 0x30 :: u32) = digit_char u (n div 10 mod 10)"
    "ucast (of_nat (e2 mod 10) + 0x30 :: u32) = digit_char u (n div 100 mod 10)"
    "ucast (of_nat (e3 mod 10) + 0x30 :: u32) = digit_char u (n div 1000 mod 10)"
    "ucast (of_nat (e3 div 10) + 0x30 :: u32) = digit_char u (n div 10000)"
    unfolding d(5-9) by (simp_all only: digit_char_dec mod_less_divisor zero_less_numeral)
  show "put_dec_full (of_nat n) =
      map (digit_char u) [n mod 10, n div 10 mod 10, n div 100 mod 10, n div 1000 mod 10, n div 10000]"
    unfolding put_dec_full_def eval chars by simp
  have "(of_nat e1 :: u32) = 0 \<longleftrightarrow> n div 10 = 0" "(of_nat e2 :: u32) \<noteq> 0 \<or> (of_nat n3 :: u32) \<noteq> 0 \<longleftrightarrow> n div 100 \<noteq> 0"
    "(of_nat e3 :: u32) = 0 \<longleftrightarrow> n div 1000 = 0" "(of_nat (e3 div 10) :: u32) = 0 \<longleftrightarrow> n div 10000 = 0"
    using d(9-12) of_nat_eq_0_small [OF d(2)] of_nat_eq_0_small [OF e2'(1)] of_nat_eq_0_small [OF e2'(2)]
      of_nat_eq_0_small [OF d(4)] of_nat_eq_0_small [of "e3 div 10"] d(4) by auto
  then show "put_dec_trunc (of_nat n) = digit_char u (n mod 10) #
      (if n div 10 = 0 then [] else digit_char u (n div 10 mod 10) #
      (if n div 100 = 0 then [] else digit_char u (n div 100 mod 10) #
      (if n div 1000 = 0 then [] else digit_char u (n div 1000 mod 10) #
      (if n div 10000 = 0 then [] else [digit_char u (n div 10000)]))))"
    unfolding put_dec_trunc_def eval chars by simp
qed

lemma put_dec_trunc_nat:
  assumes "n < 100000" shows "put_dec_trunc (of_nat n) = rev (digits_of u 10 n)"
proof -
  have "digits_of u 10 (n div 10000) = [digit_char u (n div 10000)]"
    using assms by (subst digits_of.simps) simp
  then show ?thesis unfolding put_dec_places(2) [OF assms, of u]
    by (simp add: digits_of_10 [of u n] digits_of_10 [of u "n div 10"] digits_of_10 [of u "n div 100"]
        digits_of_10 [of u "n div 1000"] div_mult2_eq [symmetric])
qed

lemma put_dec_full_nat:
  assumes "0 < m" and "r < 100000"
  shows "digits_of u 10 (m * 100000 + r) = digits_of u 10 m @ rev (put_dec_full (of_nat r))"
proof -
  define n where "n = m * 100000 + r"
  have m: "n div 100000 = m" using assms(2) by (simp add: n_def)
  have "n div 10 \<noteq> 0" "n div 100 \<noteq> 0" "n div 1000 \<noteq> 0" "n div 10000 \<noteq> 0"
    using assms(1) by (simp_all add: n_def div_eq_0_iff)
  then have "digits_of u 10 n = digits_of u 10 m @
      map (digit_char u) [n div 10000 mod 10, n div 1000 mod 10, n div 100 mod 10, n div 10 mod 10, n mod 10]"
    by (simp add: digits_of_10 [of u n] digits_of_10 [of u "n div 10"] digits_of_10 [of u "n div 100"]
        digits_of_10 [of u "n div 1000"] digits_of_10 [of u "n div 10000"] div_mult2_eq [symmetric] m assms(1))
  moreover have "n mod 10 = r mod 10" "n div 10 mod 10 = r div 10 mod 10" "n div 100 mod 10 = r div 100 mod 10"
    "n div 1000 mod 10 = r div 1000 mod 10" "n div 10000 mod 10 = r div 10000"
  proof -
    have 0: "n = 10 * (m * 10000) + r" by (simp add: n_def)
    have 1: "n div 10 = 10 * (m * 1000) + r div 10" using split10 [OF 0] by simp
    have 2: "n div 100 = 10 * (m * 100) + r div 100" using split10 [OF 1] by (simp add: div_mult2_eq [symmetric])
    have 3: "n div 1000 = 10 * (m * 10) + r div 1000" using split10 [OF 2] by (simp add: div_mult2_eq [symmetric])
    have 4: "n div 10000 = 10 * m + r div 10000" using split10 [OF 3] by (simp add: div_mult2_eq [symmetric])
    show "n mod 10 = r mod 10" "n div 10 mod 10 = r div 10 mod 10" "n div 100 mod 10 = r div 100 mod 10"
      "n div 1000 mod 10 = r div 1000 mod 10" "n div 10000 mod 10 = r div 10000"
      using split10 [OF 0] split10 [OF 1] split10 [OF 2] split10 [OF 3] split10 [OF 4] assms(2) by simp_all
  qed
  ultimately show ?thesis using assms(2) by (simp add: put_dec_places(1) [where u = u] n_def [symmetric])
qed

lemma rev_put_dec: "rev (put_dec num) = digits_of u 10 (unat num)"
proof (induction num rule: put_dec.induct)
  case (1 num)
  have cast: "ucast w = (of_nat (unat w) :: u32)" for w :: u64 by simp
  have num: "ucast num = (of_nat (unat num) :: u32)" "ucast (num mod 100000) = (of_nat (unat num mod 100000) :: u32)"
    by (rule cast, subst cast, subst unat_mod, simp)
  show ?case
  proof (cases "num < 100000")
    case True
    then show ?thesis using put_dec_trunc_nat [of "unat num" u]
      by (simp add: put_dec.simps [of num] word_less_nat_alt)
  next
    case False
    then have "0 < unat num div 100000" by (simp add: word_less_nat_alt)
    then show ?thesis using 1 False put_dec_full_nat [of "unat num div 100000" "unat num mod 100000" u]
      unfolding put_dec.simps [of num] num by (simp add: unat_div)
  qed
qed

text \<open>
  C17. The decimal conversion, which never divides by ten but works on hexadecimal digits with
  multiplications and shifts, and in blocks of five places, stores for every 64-bit number exactly its
  decimal digits, least significant first and without leading zeros.
\<close>

theorem put_dec_decimal: "put_dec num = rev (digits_of u 10 (unat num))"
  by (simp add: rev_put_dec [symmetric, of u])

section \<open>The digits of base 8 and 16\<close>

lemma pad_eq:
  "pad c lo x = (replicate (nat (sint (x - 1) + 1 - int lo)) c, if int lo \<le> sint (x - 1) then of_nat lo - 1 else x - 1)"
proof (induction c lo x rule: pad.induct)
  case (1 c lo x)
  show ?case
  proof (cases "int lo \<le> sint (x - 1)")
    case True
    then have dec: "sint (x - 1 - 1) = sint (x - 1) - 1" by (intro sint_dec_dec) simp
    then have n: "nat (sint (x - 1) + 1 - int lo) = Suc (nat (sint (x - 1 - 1) + 1 - int lo))" using True by simp
    have "x - 1 = of_nat lo" if "\<not> int lo \<le> sint (x - 1 - 1)"
    proof -
      have "sint (x - 1) = int lo" using that dec True by simp
      moreover have "x - 1 = of_int (sint (x - 1))" by (simp only: of_int_sint scast_id)
      ultimately show ?thesis by (simp only: of_int_of_nat_eq)
    qed
    then show ?thesis using 1 True n by (subst pad.simps) auto
  qed (subst pad.simps, simp)
qed

text \<open>Without a wrap-around the counter is a number.\<close>

lemma pad_0:
  assumes "- (2 ^ 31) < sint x"
  shows "pad c 0 x = (replicate (nat (sint x)) c, if 0 < sint x then - 1 else x - 1)"
  using assms by (simp add: pad_eq sint_dec)

lemma digits_table_char:
  assumes "d < 16" and "locase = (if upper then 0 else 0x20)"
  shows "digits_table ! d OR locase = digit_char upper d"
proof -
  have "d \<in> set [0..<16]" using assms by simp
  then show ?thesis using assms(2)
    by (cases upper) (auto simp: digits_table_def digit_char_def upt_rec)
qed

lemma radix_digit:
  assumes "b = 8 \<or> b = 16" shows "unat ((ucast num :: u8) AND (of_nat b - 1)) = unat (num :: u64) mod b"
proof -
  have "(of_nat b - 1 :: u8) = mask (if b = 16 then 4 else 3)" using assms by (auto simp: mask_eq_exp_minus_1)
  then have "unat ((ucast num :: u8) AND (of_nat b - 1)) = take_bit (if b = 16 then 4 else 3) (unat (ucast num :: u8))"
    by (simp add: take_bit_eq_mask [symmetric] unsigned_take_bit_eq)
  also have "\<dots> = unat num mod b" using assms by (auto simp: unsigned_ucast_eq take_bit_eq_mod mod_mod_cancel)
  finally show ?thesis .
qed

lemma rev_radix_loop:
  assumes "b = 8 \<or> b = 16" and "locase = (if u then 0 else 0x20)"
  shows "rev (radix_loop b locase num) = digits_of u b (unat num)"
  using assms
proof (induction b locase num rule: radix_loop.induct)
  case (1 b locase num)
  define num' where "num' = drop_bit (if b = 16 then 4 else 3) num"
  have div: "unat num' = unat num div b" using "1.prems"(1)
    by (auto simp: num'_def drop_bit_eq_div unat_div)
  have char: "digits_table ! unat ((ucast num :: u8) AND (of_nat b - 1)) OR locase = digit_char u (unat num mod b)"
    unfolding radix_digit [OF "1.prems"(1)] using "1.prems" by (intro digits_table_char) auto
  have loop: "radix_loop b locase num = digit_char u (unat num mod b) # (if num' \<noteq> 0 then radix_loop b locase num' else [])"
    unfolding radix_loop.simps [of b locase num] Let_def num'_def [symmetric] char ..
  show ?case
  proof (cases "num' = 0")
    case True
    then have "unat num < b" using div "1.prems"(1) by (auto simp: div_eq_0_iff)
    then show ?thesis using True by (simp add: loop digits_of.simps)
  next
    case False
    then have "\<not> unat num < b" using div by (auto simp: word_unat_eq_iff)
    moreover have "rev (radix_loop b locase num') = digits_of u b (unat num div b)"
      using "1.IH" [OF refl refl refl] False "1.prems" div by (simp add: num'_def)
    ultimately show ?thesis using False "1.prems"(1) by (subst digits_of.simps) (auto simp: loop)
  qed
qed

section \<open>What \<open>number\<close> prints\<close>

lemma digits_of_length: "n < b ^ Suc k \<Longrightarrow> 1 < b \<Longrightarrow> length (digits_of u b n) \<le> Suc k"
proof (induction k arbitrary: n)
  case 0
  then show ?case by (simp add: digits_of.simps)
next
  case (Suc k)
  then have "n div b < b ^ Suc k" by (simp add: less_mult_imp_div_less mult.commute)
  then show ?case using Suc.IH [of "n div b"] Suc.prems by (subst digits_of.simps) simp
qed

text \<open>The digits before reversal, whatever the base.\<close>

definition number_tmp :: "nat \<Rightarrow> u8 \<Rightarrow> u64 \<Rightarrow> cstr" where
  "number_tmp base locase num =
     (if num = 0 then [0x30] else if base \<noteq> 10 then radix_loop base locase num else put_dec num)"

lemma rev_number_tmp:
  assumes "b = 8 \<or> b = 10 \<or> b = 16" and "locase = (if u then 0 else 0x20)"
  shows "rev (number_tmp b locase num) = digits_of u b (unat num)"
proof (cases "num = 0")
  case True
  then show ?thesis using assms by (auto simp: number_tmp_def digits_of.simps digit_char_def)
next
  case False
  then show ?thesis using assms(1) rev_radix_loop [OF _ assms(2), of b num] rev_put_dec [of num u]
    by (auto simp: number_tmp_def)
qed

definition number_sign :: "u32 \<Rightarrow> u64 \<Rightarrow> cstr" where
  "number_sign flags num =
     (if flags AND SIGN = 0 then [] else if num <s 0 then [0x2d] else if flags AND PLUS \<noteq> 0 then [0x2b]
      else if flags AND SPACE \<noteq> 0 then [0x20] else [])"

definition number_prefix :: "u32 \<Rightarrow> nat \<Rightarrow> cstr" where
  "number_prefix flags base =
     (if flags AND SPECIAL = 0 \<or> base = 10 then []
      else if base = 16 then [0x30, 0x58 OR ucast (flags AND SMALL)] else [0x30])"

definition number_abs :: "u32 \<Rightarrow> u64 \<Rightarrow> u64" where
  "number_abs flags num = (if flags AND SIGN \<noteq> 0 \<and> num <s 0 then - num else num)"

text \<open>
  The layout \<^verbatim>\<open>number\<close> computes with its running counters: padding on one side only, the sign and the
  prefix before the zeros of the \<^verbatim>\<open>0\<close> flag and after the spaces.
\<close>

definition number_layout :: "u64 \<Rightarrow> printf_spec \<Rightarrow> cstr" where
  "number_layout num spec =
     (let flags = ps_flags spec;
          head = number_sign flags num @ number_prefix flags (ps_base spec);
          tmp = number_tmp (ps_base spec) (ucast (flags AND SMALL)) (number_abs flags num);
          body = replicate (nat (sint (ps_precision spec)) - length tmp) 0x30 @ rev tmp;
          padding = nat (sint (ps_width spec)) - (length head + length body) in
      if flags AND LEFT \<noteq> 0 then head @ body @ replicate padding 0x20
      else if flags AND ZEROPAD \<noteq> 0 then head @ replicate padding 0x30 @ body
      else replicate padding 0x20 @ head @ body)"

text \<open>
  The difference of width and precision stays away from the smallest C int, by the sign, the prefix and the three
  final decrements; a number has at most 22 digits.
\<close>

definition width_ok :: "printf_spec \<Rightarrow> bool" where
  "width_ok spec \<longleftrightarrow> max 22 (sint (ps_precision spec)) + 6 \<le> 2 ^ 31 + sint (ps_width spec)"

lemma and_17: "f AND 17 = 0 \<longleftrightarrow> f AND 1 = 0 \<and> f AND 16 = (0 :: u32)"
proof -
  have "f AND (1 OR 16) = 0 \<longleftrightarrow> f AND 1 = 0 \<and> f AND 16 = (0 :: u32)"
    by (simp only: bit.conj_disj_distrib or_eq_0_iff)
  then show ?thesis by simp
qed

lemma clear_zeropad:
  fixes f :: u32
  shows "(f AND - 2) AND 2 = f AND 2" "(f AND - 2) AND 4 = f AND 4" "(f AND - 2) AND 8 = f AND 8"
    "(f AND - 2) AND 16 = f AND 16" "(f AND - 2) AND 1 = 0"
  by (simp_all add: and.assoc)

text \<open>The three placements of the padding, with the width left after sign, prefix and digits.\<close>

lemma number_padding:
  fixes flags0 :: u32 and head body :: cstr
  assumes w: "- (2 ^ 31) + 3 \<le> sint w"
  defines "flags \<equiv> if flags0 AND 16 \<noteq> 0 then flags0 AND NOT 1 else flags0"
  shows "(let (lead, width) = (if flags AND 17 = 0 then pad 0x20 0 w else ([], w));
              (mid, width) = (if flags AND 16 = 0 then pad (if flags AND 1 \<noteq> 0 then 0x30 else 0x20) 0 width else ([], width)) in
            lead @ head @ mid @ body @ fst (pad 0x20 0 width)) =
    (if flags0 AND 16 \<noteq> 0 then head @ body @ replicate (nat (sint w)) 0x20
     else if flags0 AND 1 \<noteq> 0 then head @ replicate (nat (sint w)) 0x30 @ body
     else replicate (nat (sint w)) 0x20 @ head @ body)"
proof -
  define w1 where "w1 = (if 0 < sint w then - 1 else w - 1)"
  have w1: "sint w1 < 0" "- (2 ^ 31) + 2 \<le> sint w1" using w by (auto simp: w1_def sint_dec)
  have w2: "sint (w1 - 1) < 0" "- (2 ^ 31) < sint (w1 - 1)" using w1 by (auto simp: sint_dec)
  have pads: "pad c 0 w = (replicate (nat (sint w)) c, w1)" "pad c 0 w1 = ([], w1 - 1)" "fst (pad c 0 (w1 - 1)) = []" for c
    using w w1 w2 by (simp_all add: pad_0 w1_def [symmetric])
  show ?thesis unfolding flags_def
    by (cases "flags0 AND 16 = 0"; cases "flags0 AND 1 = 0") (simp_all add: and_17 clear_zeropad pads)
qed

lemma and_small: "ucast (f AND 32 :: u32) = (if f AND 32 = 0 then 0 else 0x20 :: u8)"
proof -
  have "f AND 2 ^ k = (if bit f k then 2 ^ k else 0)" for k
    by (rule bit_eqI) (auto simp: bit_and_iff bit_exp_iff)
  from this [of 5] have "f AND 32 = (if bit f 5 then 32 else 0)" by simp
  then show ?thesis by simp
qed

lemma rev_number_tmp_flags:
  assumes "b = 8 \<or> b = 10 \<or> b = 16"
  shows "rev (number_tmp b (ucast (f AND SMALL)) n) = digits_of (f AND SMALL = 0) b (unat n)"
  using assms by (intro rev_number_tmp) (auto simp: and_small)

lemma number_tmp_length:
  assumes "b = 8 \<or> b = 10 \<or> b = 16" shows "length (number_tmp b (ucast (f AND SMALL)) n) \<le> 22"
proof -
  have "length (digits_of u b (unat n)) \<le> 22" for u
    using assms unat_bound [of n] digits_of_length [of "unat n" 8 21 u] digits_of_length [of "unat n" 10 19 u]
      digits_of_length [of "unat n" 16 15 u] by auto
  then show ?thesis using rev_number_tmp_flags [OF assms, of f n] by (metis length_rev)
qed

text \<open>The width left behind sign, prefix and digits does not wrap around.\<close>

lemma number_width:
  assumes "width_ok spec" and "h \<le> 3" and "n \<le> 22"
  defines "prec \<equiv> if int n > sint (ps_precision spec) then of_nat n else ps_precision spec"
  shows "sint prec = max (int n) (sint (ps_precision spec))"
    "sint (ps_width spec - of_nat h - prec) = sint (ps_width spec) - int h - sint prec"
    "- (2 ^ 31) + 3 \<le> sint (ps_width spec) - int h - sint prec"
proof -
  have small: "sint (of_nat k :: s32) = int k" if "k \<le> 22" for k
    using sint_of_int_small [of "int k"] that by simp
  show prec: "sint prec = max (int n) (sint (ps_precision spec))" using small [OF assms(3)] by (auto simp: prec_def)
  show low: "- (2 ^ 31) + 3 \<le> sint (ps_width spec) - int h - sint prec"
    using assms(1-3) unfolding prec width_ok_def by linarith
  have "sint (ps_width spec - of_nat h) = sint (ps_width spec) - int h"
    using sint_diff [of "ps_width spec" "of_nat h"] small [of h] low prec sint_range [of "ps_width spec"] assms(2) by simp
  moreover have "0 \<le> sint prec" unfolding prec by simp
  ultimately show "sint (ps_width spec - of_nat h - prec) = sint (ps_width spec) - int h - sint prec"
    using sint_diff [of "ps_width spec - of_nat h" prec] low sint_range [of "ps_width spec"] by simp
qed

lemma number_eq_layout:
  assumes "ps_base spec = 8 \<or> ps_base spec = 10 \<or> ps_base spec = 16" and "width_ok spec"
  shows "number num spec = number_layout num spec"
proof -
  define flags0 where "flags0 = ps_flags spec"
  define flags where "flags = (if flags0 AND 16 \<noteq> 0 then flags0 AND NOT 1 else flags0)"
  define sgn where "sgn = (if flags AND SIGN \<noteq> 0
             then if num <s 0 then (0x2d :: u8, - num, ps_width spec - 1)
                  else if flags AND PLUS \<noteq> 0 then (0x2b, num, ps_width spec - 1)
                  else if flags AND SPACE \<noteq> 0 then (0x20, num, ps_width spec - 1)
                  else (0, num, ps_width spec)
             else (0, num, ps_width spec))"
  have masks: "flags AND 2 = flags0 AND 2" "flags AND 4 = flags0 AND 4" "flags AND 8 = flags0 AND 8"
    by (simp_all add: flags_def clear_zeropad)
  have sign: "sgn = (if number_sign flags0 num = [] then 0 else hd (number_sign flags0 num), number_abs flags0 num,
      ps_width spec - of_nat (length (number_sign flags0 num)))"
    by (simp add: sgn_def masks number_sign_def number_abs_def)
  have sign_list: "(if s \<noteq> 0 then [s] else []) = number_sign flags0 num"
    if "s = (if number_sign flags0 num = [] then 0 else hd (number_sign flags0 num))" for s
    unfolding that by (simp add: number_sign_def)
  define head where "head = number_sign flags0 num @ number_prefix flags0 (ps_base spec)"
  define tmp where "tmp = number_tmp (ps_base spec) (ucast (flags0 AND SMALL)) (number_abs flags0 num)"
  define prec where "prec = (if int (length tmp) > sint (ps_precision spec) then of_nat (length tmp) else ps_precision spec)"
  define body where "body = fst (pad 0x30 (length tmp) prec) @ rev tmp"
  define w where "w = ps_width spec - of_nat (length head) - prec"
  have "number num spec =
    (let (lead, width) = (if flags AND 17 = 0 then pad 0x20 0 w else ([], w));
         (mid, width) = (if flags AND 16 = 0 then pad (if flags AND 1 \<noteq> 0 then 0x30 else 0x20) 0 width else ([], width)) in
     lead @ head @ mid @ body @ fst (pad 0x20 0 width))"
  proof -
    have pfx: "(if flags0 AND SPECIAL \<noteq> 0 \<and> ps_base spec \<noteq> 10
        then if ps_base spec = 16 then [0x30, 0x58 OR ucast (flags0 AND SMALL)] else [0x30] else []) =
        number_prefix flags0 (ps_base spec)"
      by (simp add: number_prefix_def)
    have width: "(if flags0 AND SPECIAL \<noteq> 0 \<and> ps_base spec \<noteq> 10
        then if ps_base spec = 16 then x - 2 else x - 1 else x) = x - of_nat (length (number_prefix flags0 (ps_base spec)))" for x :: s32
      by (simp add: number_prefix_def)
    have w: "ps_width spec - of_nat (length (number_sign flags0 num)) - of_nat (length (number_prefix flags0 (ps_base spec))) - prec = w"
      by (simp add: w_def head_def)
    have or17: "ZEROPAD OR LEFT = 17" by simp
    show ?thesis
      unfolding number_def Let_def flags0_def [symmetric] flags_def [symmetric] sgn_def [symmetric] sign
      unfolding prod.case sign_list [OF refl] pfx width number_tmp_def [symmetric] tmp_def [symmetric]
        prec_def [symmetric] w body_def head_def append_assoc or17 ..
  qed
  also have "\<dots> = number_layout num spec"
  proof -
    have "length head \<le> 3" by (simp add: head_def number_sign_def number_prefix_def)
    note nw = number_width [OF assms(2) this number_tmp_length [OF assms(1)], of flags0 "number_abs flags0 num",
        folded tmp_def, folded prec_def, folded w_def]
    have "sint (prec - 1) = sint prec - 1" using nw(1) by (intro sint_dec) simp
    then have body: "body = replicate (nat (sint (ps_precision spec)) - length tmp) 0x30 @ rev tmp"
      using nw(1) by (auto simp: body_def pad_eq nat_diff_distrib' max_def)
    moreover have "nat (sint w) = nat (sint (ps_width spec)) - (length head + length body)"
      unfolding body using nw(1,2) by (auto simp: max_def)
    moreover have "- (2 ^ 31) + 3 \<le> sint w" using nw(2,3) by simp
    ultimately show ?thesis
      unfolding number_layout_def flags_def
      by (subst number_padding) (simp_all add: flags0_def [symmetric] head_def tmp_def [symmetric])
  qed
  finally show ?thesis .
qed

text \<open>
  C30. What \<^verbatim>\<open>number\<close> prints, in any of the bases it is called with: the sign the flags ask for, the
  prefix, and the digits of the absolute value, filled with zeros to the precision; the whole is filled
  to the width on the right with spaces, between prefix and digits with zeros, or on the left with
  spaces, as \<^verbatim>\<open>LEFT\<close> and \<^verbatim>\<open>ZEROPAD\<close> say, the first one winning. Width and precision are 32-bit C ints, and
  the condition is that their difference stays six above the smallest one: beyond it \<^verbatim>\<open>field_width\<close> wraps around.
\<close>

theorem number_prints:
  assumes "ps_base spec = 8 \<or> ps_base spec = 10 \<or> ps_base spec = 16" and "width_ok spec"
  shows "number num spec =
    (let flags = ps_flags spec;
         head = number_sign flags num @ number_prefix flags (ps_base spec);
         digits = digits_of (flags AND SMALL = 0) (ps_base spec) (unat (number_abs flags num));
         body = replicate (nat (sint (ps_precision spec)) - length digits) 0x30 @ digits;
         padding = nat (sint (ps_width spec)) - length (head @ body) in
     if flags AND LEFT \<noteq> 0 then head @ body @ replicate padding 0x20
     else if flags AND ZEROPAD \<noteq> 0 then head @ replicate padding 0x30 @ body
     else replicate padding 0x20 @ head @ body)"
proof -
  note tmp = rev_number_tmp_flags [OF assms(1)]
  have len: "length (number_tmp (ps_base spec) (ucast (ps_flags spec AND SMALL)) n) =
      length (digits_of (ps_flags spec AND SMALL = 0) (ps_base spec) (unat n))" for n
    by (simp add: tmp [symmetric])
  show ?thesis unfolding number_eq_layout [OF assms] number_layout_def Let_def tmp len length_append add.assoc ..
qed

theorem number_prints_witness:
  "number 255 \<lparr>ps_type = FORMAT_TYPE_UINT, ps_flags = SPECIAL OR SMALL OR ZEROPAD, ps_width = 8, ps_base = 16,
      ps_precision = -1, ps_qualifier = -1\<rparr> = [0x30, 0x78, 0x30, 0x30, 0x30, 0x30, 0x66, 0x66]"
proof -
  have "replicate 4 (0x30 :: u8) = [0x30, 0x30, 0x30, 0x30]" by (simp add: numeral_eq_Suc)
  then show ?thesis
    by (subst number_prints) (simp_all add: width_ok_def number_sign_def number_prefix_def number_abs_def digits_of.simps digit_char_def)
qed

text \<open>
  Beyond that condition: with the largest precision and no width, as in \<^verbatim>\<open>%.2147483647d\<close>, the width left
  is the smallest C int, its decrement the largest, and two to the thirty-first spaces are printed that nothing asked for.
\<close>

lemma number_width_wraps:
  "number 0 \<lparr>ps_type = FORMAT_TYPE_INT, ps_flags = SIGN, ps_width = - 1, ps_base = 10, ps_precision = 0x7fffffff,
      ps_qualifier = -1\<rparr> = replicate (2 ^ 31) 0x20 @ replicate (2 ^ 31 - 2) 0x30 @ [0x30]"
  by (simp add: number_def pad_eq)

text \<open>
  C31. Printing and reading back: let a number be printed in base 10, or in base 8 or 16 with its prefix (\<^verbatim>\<open>SPECIAL\<close>),
  with neither \<^verbatim>\<open>PLUS\<close> nor \<^verbatim>\<open>SPACE\<close>, and with a width and a precision that are not positive, the width
  not among the 28 smallest C ints. Then \<^verbatim>\<open>simple_strtoll\<close> with base 0, which finds the base from the prefix, reads it
  back as the same 64-bit value, and nothing is left over.
\<close>

theorem number_strtoll:
  assumes "ps_base spec = 10 \<or> (ps_base spec = 8 \<or> ps_base spec = 16) \<and> ps_flags spec AND SPECIAL \<noteq> 0"
    and "ps_flags spec AND PLUS = 0" and "ps_flags spec AND SPACE = 0"
    and "- (2 ^ 31) + 28 \<le> sint (ps_width spec)" and "sint (ps_width spec) \<le> 0" and "sint (ps_precision spec) \<le> 0"
  shows "simple_strtoll (number num spec) 0 = (num, [])"
proof -
  define u where "u = (ps_flags spec AND SMALL = 0)"
  define n where "n = number_abs (ps_flags spec) num"
  define out where "out = number_prefix (ps_flags spec) (ps_base spec) @ digits_of u (ps_base spec) (unat n)"
  have base: "ps_base spec = 8 \<or> ps_base spec = 10 \<or> ps_base spec = 16" using assms(1) by blast
  have num: "number num spec = number_sign (ps_flags spec) num @ out"
    using assms(4-6) rev_number_tmp_flags [OF base, of "ps_flags spec" n]
    by (simp add: number_eq_layout [OF base] width_ok_def number_layout_def out_def u_def n_def Let_def)
  have guess: "strto_guess out = (n, [])"
    using assms(1) strto_guess_decimal [of "[]" u "unat n", where 'a = 64]
      strto_guess_octal [of "[]" u "unat n", where 'a = 64]
      strto_guess_hex [of "[]" "0x58 OR ucast (ps_flags spec AND SMALL)" u "unat n", where 'a = 64]
    by (auto simp: out_def number_prefix_def and_small)
  have "at out 0 \<noteq> 0x2d"
  proof -
    have b: "1 < ps_base spec" "ps_base spec \<le> 16" using base by auto
    then obtain d where "d < ps_base spec" "hd (digits_of u (ps_base spec) (unat n)) = digit_char u d"
      using hd_digits_of [of "ps_base spec" u "unat n"] by auto
    with b have d: "d < 16" "hd (digits_of u (ps_base spec) (unat n)) = digit_char u d" by simp_all
    then have "digit_char u d \<noteq> 0x2d" using digit_char_unat [of d u] by (auto simp: word_unat_eq_iff)
    then show ?thesis using d by (auto simp: out_def number_prefix_def at_0)
  qed
  show ?thesis
  proof (cases "number_sign (ps_flags spec) num = []")
    case True
    then have "n = num" using assms by (auto simp: n_def number_abs_def number_sign_def split: if_splits)
    then show ?thesis using True num guess \<open>at out 0 \<noteq> 0x2d\<close>
      by (simp add: simple_strtoll_def simple_strto_guess)
  next
    case False
    then have "number_sign (ps_flags spec) num = [0x2d]" "n = - num"
      using assms by (auto simp: n_def number_abs_def number_sign_def split: if_splits)
    then show ?thesis using num guess by (simp add: simple_strtoll_def simple_strto_guess)
  qed
qed

theorem number_strtoll_witness:
  "simple_strtoll (number (- 42) \<lparr>ps_type = FORMAT_TYPE_INT, ps_flags = SIGN, ps_width = -1, ps_base = 10,
      ps_precision = -1, ps_qualifier = -1\<rparr>) 0 = (- 42, [])"
  by (rule number_strtoll) simp_all

end
