(* ===== verification/Vsprintf.thy ===== *)
theory Vsprintf
  imports Vsprintf_Num
begin

text \<open>
  Formatted output, from \<^verbatim>\<open>lib/vsprintf.c\<close>: strings, the kernel's extensions of \<^verbatim>\<open>%p\<close>, the decoding of
  format directives and \<^verbatim>\<open>vsnprintf\<close> with its relatives. Memory the arguments point to is a partial map
  from addresses; a read or a store outside it, a store outside the caller's buffer and an argument of
  another type than the directive's give \<^const>\<open>None\<close>. The buffer does not overlap the memory the
  arguments point to. The output position is the 32-bit pointer \<^verbatim>\<open>str\<close>, compared with \<^verbatim>\<open>end\<close> and
  incremented with wrap-around; the result is the 32-bit difference \<^verbatim>\<open>str - buf\<close>. The lookup of kernel symbols is
  a parameter.
\<close>

section \<open>Memory\<close>

type_synonym mem = "u32 \<rightharpoonup> u8"
type_synonym ksym = "u8 \<Rightarrow> u32 \<Rightarrow> cstr"

fun mem_bytes :: "mem \<Rightarrow> u32 \<Rightarrow> nat \<Rightarrow> cstr option" where
  "mem_bytes m a 0 = Some []"
| "mem_bytes m a (Suc n) = Option.bind (m a) (\<lambda>c. map_option ((#) c) (mem_bytes m (a + 1) n))"

definition le32_of :: "u8 list \<Rightarrow> u32" where
  "le32_of bs = ucast (bs ! 0) OR push_bit 8 (ucast (bs ! 1)) OR push_bit 16 (ucast (bs ! 2)) OR push_bit 24 (ucast (bs ! 3))"

definition mem_u32 :: "mem \<Rightarrow> u32 \<Rightarrow> u32 option" where
  "mem_u32 m a = map_option le32_of (mem_bytes m a 4)"

definition store_u32 :: "mem \<Rightarrow> u32 \<Rightarrow> u32 \<Rightarrow> mem option" where
  "store_u32 m a v =
     (if mem_bytes m a 4 = None then None
      else Some (m(a \<mapsto> ucast v, a + 1 \<mapsto> ucast (drop_bit 8 v), a + 2 \<mapsto> ucast (drop_bit 16 v),
                   a + 3 \<mapsto> ucast (drop_bit 24 v))))"

text \<open>\<^verbatim>\<open>strnlen\<close>; the count is a \<^verbatim>\<open>size_t\<close>.\<close>

function strnlen :: "mem \<Rightarrow> u32 \<Rightarrow> nat \<Rightarrow> nat option" where
  "strnlen m s count =
     (if count = 0 then Some 0
      else case m s of None \<Rightarrow> None | Some c \<Rightarrow> if c = 0 then Some 0 else map_option Suc (strnlen m (s + 1) (count - 1)))"
  by pat_completeness auto
termination
  by (relation "measure (\<lambda>(m, s, count). count)") auto

declare strnlen.simps [simp del]

definition size_t_of :: "s32 \<Rightarrow> nat" where
  "size_t_of p = unat p"

section \<open>Strings\<close>

text \<open>The padding loops \<^verbatim>\<open>while (lo < x--)\<close> of \<^verbatim>\<open>string\<close>, which test the counter before its decrement.\<close>

function pad_after :: "u8 \<Rightarrow> s32 \<Rightarrow> s32 \<Rightarrow> cstr \<times> s32" where
  "pad_after c lo x = (if lo <s x then (let (cs, x') = pad_after c lo (x - 1) in (c # cs, x')) else ([], x - 1))"
  by pat_completeness auto
termination
proof (relation "measure (\<lambda>(c, lo, x). nat (sint x - sint lo))")
  fix c :: u8 and lo x :: s32
  assume "lo <s x"
  then have "sint lo < sint x" by (simp add: word_sless_alt)
  moreover from this have "sint (x - 1) = sint x - 1" using sint_range [of lo] by (intro sint_dec) linarith
  ultimately show "((c, lo, x - 1), c, lo, x) \<in> measure (\<lambda>(c, lo, x). nat (sint x - sint lo))"
    unfolding in_measure prod.case by linarith
qed simp

declare pad_after.simps [simp del]

text \<open>The output loops of \<^verbatim>\<open>string\<close>; \<open>s\<close> is what \<^verbatim>\<open>strnlen\<close> has found, \<open>len\<close> its length as a C int.\<close>

definition string_chars :: "cstr \<Rightarrow> printf_spec \<Rightarrow> cstr" where
  "string_chars s spec =
     (let len = of_nat (length s);
          (lead, width) = (if ps_flags spec AND LEFT = 0 then pad_after 0x20 len (ps_width spec) else ([], ps_width spec)) in
      lead @ take (nat (sint len)) s @ fst (pad_after 0x20 len width))"

text \<open>For a string the code holds itself.\<close>

definition string_lit :: "cstr \<Rightarrow> printf_spec \<Rightarrow> cstr" where
  "string_lit s spec = string_chars (take (size_t_of (ps_precision spec)) s) spec"

definition PAGE_SIZE :: u32 where "PAGE_SIZE = 4096"

definition string_arg :: "mem \<Rightarrow> u32 \<Rightarrow> printf_spec \<Rightarrow> cstr option" where
  "string_arg m s spec =
     (if s < PAGE_SIZE then Some (string_lit [0x3c, 0x4e, 0x55, 0x4c, 0x4c, 0x3e] spec)
      else Option.bind (strnlen m s (size_t_of (ps_precision spec))) (\<lambda>len.
           map_option (\<lambda>cs. string_chars cs spec) (mem_bytes m s len)))"

section \<open>Pointers\<close>

definition hex_asc :: cstr where
  "hex_asc = [0x30, 0x31, 0x32, 0x33, 0x34, 0x35, 0x36, 0x37, 0x38, 0x39, 0x61, 0x62, 0x63, 0x64, 0x65, 0x66]"

definition hex_asc_lo :: "u8 \<Rightarrow> u8" where
  "hex_asc_lo x = hex_asc ! unat (x AND 0x0f)"

definition hex_asc_hi :: "u8 \<Rightarrow> u8" where
  "hex_asc_hi x = hex_asc ! unat (drop_bit 4 (x AND 0xf0))"

definition pack_hex_byte :: "u8 \<Rightarrow> cstr" where
  "pack_hex_byte byte = [hex_asc_hi byte, hex_asc_lo byte]"

definition symbol_string :: "ksym \<Rightarrow> u32 \<Rightarrow> printf_spec \<Rightarrow> u8 \<Rightarrow> cstr" where
  "symbol_string ksym ptr spec ext = string_lit (ksym ext ptr) spec"

abbreviation IORESOURCE_IO :: u32 where "IORESOURCE_IO \<equiv> 0x100"
abbreviation IORESOURCE_MEM :: u32 where "IORESOURCE_MEM \<equiv> 0x200"

text \<open>The text \<^verbatim>\<open>resource_string\<close> builds in its local array, from the fields \<open>start\<close>, \<open>end\<close> and \<open>flags\<close>.\<close>

definition resource_sym :: "u32 \<Rightarrow> u32 \<Rightarrow> u32 \<Rightarrow> cstr" where
  "resource_sym rstart rend rflags =
     (let fw = (if rflags AND IORESOURCE_IO \<noteq> 0 then 4 else if rflags AND IORESOURCE_MEM \<noteq> 0 then 8 else -1);
          num_spec = \<lparr>ps_type = FORMAT_TYPE_NONE, ps_flags = SPECIAL OR SMALL OR ZEROPAD, ps_width = fw, ps_base = 16,
                      ps_precision = -1, ps_qualifier = 0\<rparr> in
      0x5b # number (ucast rstart) num_spec @ 0x2d # number (ucast rend) num_spec @ [0x5d])"

definition resource_string :: "mem \<Rightarrow> u32 \<Rightarrow> printf_spec \<Rightarrow> cstr option" where
  "resource_string m res spec =
     Option.bind (mem_u32 m res) (\<lambda>rstart. Option.bind (mem_u32 m (res + 4)) (\<lambda>rend.
     Option.bind (mem_u32 m (res + 12)) (\<lambda>rflags. Some (string_lit (resource_sym rstart rend rflags) spec))))"

fun mac_loop :: "cstr \<Rightarrow> cstr \<Rightarrow> nat \<Rightarrow> cstr" where
  "mac_loop fmt [] i = []"
| "mac_loop fmt (b # addr) i =
     pack_hex_byte b @ (if at fmt 0 = 0x4d \<and> i \<noteq> 5 then [0x3a] else []) @ mac_loop fmt addr (i + 1)"

definition mac_address_string :: "mem \<Rightarrow> u32 \<Rightarrow> printf_spec \<Rightarrow> cstr \<Rightarrow> cstr option" where
  "mac_address_string m addr spec fmt =
     map_option (\<lambda>bs. string_lit (mac_loop fmt bs 0) spec) (mem_bytes m addr 6)"

text \<open>\<^verbatim>\<open>ip4_string\<close> on the four bytes.\<close>

fun ip4_loop :: "bool \<Rightarrow> cstr \<Rightarrow> nat \<Rightarrow> cstr" where
  "ip4_loop leading_zeros [] i = []"
| "ip4_loop leading_zeros (b # addr) i =
     (let temp = put_dec_trunc (ucast b); digits = length temp in
      (if leading_zeros then (if digits < 3 then [0x30] else []) @ (if digits < 2 then [0x30] else []) else []) @
      rev temp @ (if i < 3 then [0x2e] else []) @ ip4_loop leading_zeros addr (i + 1))"

definition ip4_string :: "cstr \<Rightarrow> bool \<Rightarrow> cstr" where
  "ip4_string addr leading_zeros = ip4_loop leading_zeros (take 4 addr) 0"

text \<open>An IPv6 address is its 16 bytes; its words of 16 and 32 bits are in network order.\<close>

definition s6_addr16 :: "cstr \<Rightarrow> nat \<Rightarrow> u16" where
  "s6_addr16 a i = push_bit 8 (ucast (a ! (2 * i))) OR ucast (a ! (2 * i + 1))"

definition s6_addr32 :: "cstr \<Rightarrow> nat \<Rightarrow> u32" where
  "s6_addr32 a i = push_bit 16 (ucast (s6_addr16 a (2 * i))) OR ucast (s6_addr16 a (2 * i + 1))"

definition ipv6_addr_v4mapped :: "cstr \<Rightarrow> bool" where
  "ipv6_addr_v4mapped a \<longleftrightarrow> (s6_addr32 a 0 OR s6_addr32 a 1 OR (s6_addr32 a 2 XOR 0x0000ffff)) = 0"

definition ipv6_addr_is_isatap :: "cstr \<Rightarrow> bool" where
  "ipv6_addr_is_isatap a \<longleftrightarrow> s6_addr32 a 2 OR 0x02000000 = 0x02005EFE"

text \<open>The inner loop over \<open>j\<close> and the search for the longest run.\<close>

function zero_run :: "cstr \<Rightarrow> nat \<Rightarrow> nat \<Rightarrow> nat" where
  "zero_run a rng j = (if j < rng \<and> s6_addr16 a j = 0 then Suc (zero_run a rng (j + 1)) else 0)"
  by pat_completeness auto
termination
  by (relation "measure (\<lambda>(a, rng, j). rng - j)") auto

declare zero_run.simps [simp del]

definition longest_run :: "cstr \<Rightarrow> nat \<Rightarrow> nat \<times> nat option" where
  "longest_run a rng =
     foldl (\<lambda>(longest, colonpos) i. if zero_run a rng i > longest then (zero_run a rng i, Some i) else (longest, colonpos))
       (1, None) [0..<rng]"

text \<open>The emitting loop: the characters and whether a colon is due.\<close>

definition hex_word :: "u16 \<Rightarrow> cstr" where
  "hex_word w =
     (let hi = ucast (drop_bit 8 w); lo = ucast (w AND 0xff) in
      (if hi \<noteq> 0 then if hi > 0x0f then pack_hex_byte hi else [hex_asc_lo hi] else []) @
      (if hi \<noteq> 0 \<or> lo > 0x0f then pack_hex_byte lo else [hex_asc_lo lo]))"

function ip6_emit :: "cstr \<Rightarrow> nat \<Rightarrow> nat \<Rightarrow> nat option \<Rightarrow> nat \<Rightarrow> bool \<Rightarrow> cstr \<times> bool" where
  "ip6_emit a rng longest colonpos i needcolon =
     (if i < rng
      then if Some i = colonpos
        then (let (cs, nc) = ip6_emit a rng longest colonpos (i + (longest - 1) + 1) False in
              ((if needcolon \<or> i = 0 then [0x3a] else []) @ [0x3a] @ cs, nc))
        else (let (cs, nc) = ip6_emit a rng longest colonpos (i + 1) True in
              ((if needcolon then [0x3a] else []) @ hex_word (s6_addr16 a i) @ cs, nc))
      else ([], needcolon))"
  by pat_completeness auto
termination
  by (relation "measure (\<lambda>(a, rng, longest, colonpos, i, needcolon). rng - i)") auto

declare ip6_emit.simps [simp del]

definition ip6_compressed_string :: "cstr \<Rightarrow> cstr" where
  "ip6_compressed_string a =
     (let useIPv4 = (ipv6_addr_v4mapped a \<or> ipv6_addr_is_isatap a);
          rng = (if useIPv4 then 6 else 8);
          (longest, colonpos) = longest_run a rng;
          (cs, needcolon) = ip6_emit a rng longest colonpos 0 False in
      cs @ (if useIPv4 then (if needcolon then [0x3a] else []) @ ip4_string (drop 12 a) False else []))"

fun ip6_loop :: "cstr \<Rightarrow> cstr \<Rightarrow> nat \<Rightarrow> cstr" where
  "ip6_loop fmt (x # y # addr) i =
     pack_hex_byte x @ pack_hex_byte y @ (if at fmt 0 = 0x49 \<and> i \<noteq> 7 then [0x3a] else []) @ ip6_loop fmt addr (i + 1)"
| "ip6_loop fmt _ i = []"

definition ip6_string :: "cstr \<Rightarrow> cstr \<Rightarrow> cstr" where
  "ip6_string addr fmt = ip6_loop fmt addr 0"

definition ip6_addr_string :: "mem \<Rightarrow> u32 \<Rightarrow> printf_spec \<Rightarrow> cstr \<Rightarrow> cstr option" where
  "ip6_addr_string m addr spec fmt =
     map_option (\<lambda>bs. string_lit (if at fmt 0 = 0x49 \<and> at fmt 2 = 0x63 then ip6_compressed_string bs else ip6_string bs fmt) spec)
       (mem_bytes m addr 16)"

definition ip4_addr_string :: "mem \<Rightarrow> u32 \<Rightarrow> printf_spec \<Rightarrow> cstr \<Rightarrow> cstr option" where
  "ip4_addr_string m addr spec fmt =
     map_option (\<lambda>bs. string_lit (ip4_string bs (at fmt 0 = 0x69)) spec) (mem_bytes m addr 4)"

definition pointer_number :: "u32 \<Rightarrow> printf_spec \<Rightarrow> cstr" where
  "pointer_number ptr spec =
     (let spec = spec\<lparr>ps_flags := ps_flags spec OR SMALL\<rparr>;
          spec = (if ps_width spec = -1 then spec\<lparr>ps_width := 8, ps_flags := ps_flags spec OR ZEROPAD\<rparr> else spec) in
      number (ucast ptr) (spec\<lparr>ps_base := 16\<rparr>))"

definition pointer :: "ksym \<Rightarrow> mem \<Rightarrow> cstr \<Rightarrow> u32 \<Rightarrow> printf_spec \<Rightarrow> cstr option" where
  "pointer ksym m fmt ptr spec =
     (let c = at fmt 0 in
      if ptr = 0 then Some (string_lit [0x28, 0x6e, 0x75, 0x6c, 0x6c, 0x29] spec)
      else if c \<in> {0x46, 0x66, 0x73, 0x53} then Some (symbol_string ksym ptr spec c)
      else if c = 0x52 then resource_string m ptr spec
      else if c \<in> {0x4d, 0x6d} then mac_address_string m ptr spec fmt
      else if c \<in> {0x49, 0x69} \<and> at fmt 1 = 0x36 then ip6_addr_string m ptr spec fmt
      else if c \<in> {0x49, 0x69} \<and> at fmt 1 = 0x34 then ip4_addr_string m ptr spec fmt
      else Some (pointer_number ptr spec))"

section \<open>Decoding a directive\<close>

text \<open>\<^verbatim>\<open>format_decode\<close> gives the rest of the format instead of the number of characters read. Its labels
  \<open>precision\<close> and \<open>qualifier\<close> and the final switch are functions of their own.\<close>

definition number_type :: "printf_spec \<Rightarrow> format_type" where
  "number_type spec =
     (let q = ps_qualifier spec; signed = (ps_flags spec AND SIGN \<noteq> 0) in
      if q = 0x4c then FORMAT_TYPE_LONG_LONG
      else if q = 0x6c then (if signed then FORMAT_TYPE_LONG else FORMAT_TYPE_ULONG)
      else if q = 0x5a \<or> q = 0x7a then FORMAT_TYPE_SIZE_T
      else if q = 0x74 then FORMAT_TYPE_PTRDIFF
      else if q = 0x48 then (if signed then FORMAT_TYPE_BYTE else FORMAT_TYPE_UBYTE)
      else if q = 0x68 then (if signed then FORMAT_TYPE_SHORT else FORMAT_TYPE_USHORT)
      else (if signed then FORMAT_TYPE_INT else FORMAT_TYPE_UINT))"

definition decode_conversion :: "cstr \<Rightarrow> printf_spec \<Rightarrow> cstr \<times> printf_spec" where
  "decode_conversion fmt spec0 =
     (let spec = spec0\<lparr>ps_base := 10\<rparr>;
          c = at fmt 0;
          num = (\<lambda>spec. (tl fmt, spec\<lparr>ps_type := number_type spec\<rparr>)) in
      if c = 0x63 then (tl fmt, spec\<lparr>ps_type := FORMAT_TYPE_CHAR\<rparr>)
      else if c = 0x73 then (tl fmt, spec\<lparr>ps_type := FORMAT_TYPE_STR\<rparr>)
      else if c = 0x70 then (fmt, spec\<lparr>ps_type := FORMAT_TYPE_PTR\<rparr>)
      else if c = 0x6e then (tl fmt, spec\<lparr>ps_type := FORMAT_TYPE_NRCHARS\<rparr>)
      else if c = 0x25 then (tl fmt, spec\<lparr>ps_type := FORMAT_TYPE_PERCENT_CHAR\<rparr>)
      else if c = 0x6f then num (spec\<lparr>ps_base := 8\<rparr>)
      else if c = 0x78 then num (spec\<lparr>ps_flags := ps_flags spec OR SMALL, ps_base := 16\<rparr>)
      else if c = 0x58 then num (spec\<lparr>ps_base := 16\<rparr>)
      else if c = 0x64 \<or> c = 0x69 then num (spec\<lparr>ps_flags := ps_flags spec OR SIGN\<rparr>)
      else if c = 0x75 then num spec
      else (fmt, spec\<lparr>ps_type := FORMAT_TYPE_INVALID\<rparr>))"

definition decode_qualifier :: "cstr \<Rightarrow> printf_spec \<Rightarrow> cstr \<times> printf_spec" where
  "decode_qualifier fmt spec =
     (let c = at fmt 0 in
      if c \<in> {0x68, 0x6c, 0x4c, 0x5a, 0x7a, 0x74}
      then if c = at (tl fmt) 0 \<and> c = 0x6c then decode_conversion (tl (tl fmt)) (spec\<lparr>ps_qualifier := 0x4c\<rparr>)
           else if c = at (tl fmt) 0 \<and> c = 0x68 then decode_conversion (tl (tl fmt)) (spec\<lparr>ps_qualifier := 0x48\<rparr>)
           else decode_conversion (tl fmt) (spec\<lparr>ps_qualifier := int (unat c)\<rparr>)
      else decode_conversion fmt (spec\<lparr>ps_qualifier := -1\<rparr>))"

definition decode_precision :: "cstr \<Rightarrow> printf_spec \<Rightarrow> cstr \<times> printf_spec" where
  "decode_precision fmt spec =
     (if at fmt 0 = 0x2e
      then if isdigit (at (tl fmt) 0)
        then (let (p, fmt') = skip_atoi (tl fmt) in
              decode_qualifier fmt' (spec\<lparr>ps_precision := (if p <s 0 then 0 else p)\<rparr>))
        else if at (tl fmt) 0 = 0x2a then (tl (tl fmt), spec\<lparr>ps_precision := -1, ps_type := FORMAT_TYPE_PRECISION\<rparr>)
        else decode_qualifier (tl fmt) (spec\<lparr>ps_precision := -1\<rparr>)
      else decode_qualifier fmt (spec\<lparr>ps_precision := -1\<rparr>))"

text \<open>The loop over the flags, from behind the percent sign on.\<close>

fun decode_flags :: "cstr \<Rightarrow> u32 \<Rightarrow> cstr \<times> u32" where
  "decode_flags [] flags = ([], flags)"
| "decode_flags (c # fmt) flags =
     (if c = 0x2d then decode_flags fmt (flags OR LEFT)
      else if c = 0x2b then decode_flags fmt (flags OR PLUS)
      else if c = 0x20 then decode_flags fmt (flags OR SPACE)
      else if c = 0x23 then decode_flags fmt (flags OR SPECIAL)
      else if c = 0x30 then decode_flags fmt (flags OR ZEROPAD)
      else (c # fmt, flags))"

definition format_decode :: "cstr \<Rightarrow> printf_spec \<Rightarrow> cstr \<times> printf_spec" where
  "format_decode fmt spec =
     (if ps_type spec = FORMAT_TYPE_WIDTH
      then decode_precision fmt
        ((if ps_width spec <s 0 then spec\<lparr>ps_width := - ps_width spec, ps_flags := ps_flags spec OR LEFT\<rparr> else spec)
          \<lparr>ps_type := FORMAT_TYPE_NONE\<rparr>)
      else if ps_type spec = FORMAT_TYPE_PRECISION
      then decode_qualifier fmt
        ((if ps_precision spec <s 0 then spec\<lparr>ps_precision := 0\<rparr> else spec)\<lparr>ps_type := FORMAT_TYPE_NONE\<rparr>)
      else
        let spec = spec\<lparr>ps_type := FORMAT_TYPE_NONE\<rparr>;
            fmt1 = dropWhile (\<lambda>c. c \<noteq> 0x25) fmt in
        if fmt1 \<noteq> fmt \<or> fmt1 = [] then (fmt1, spec)
        else
          let (fmt2, flags) = decode_flags (tl fmt1) 0;
              spec = spec\<lparr>ps_flags := flags, ps_width := -1\<rparr> in
          if isdigit (at fmt2 0)
          then (let (w, fmt3) = skip_atoi fmt2 in decode_precision fmt3 (spec\<lparr>ps_width := w\<rparr>))
          else if at fmt2 0 = 0x2a then (tl fmt2, spec\<lparr>ps_type := FORMAT_TYPE_WIDTH\<rparr>)
          else decode_precision fmt2 spec)"

section \<open>\<open>vsnprintf\<close>\<close>

text \<open>A variable argument of 32 or 64 bits.\<close>

datatype va = VA32 u32 | VA64 u64

fun va_arg32 :: "va list \<Rightarrow> (u32 \<times> va list) option" where
  "va_arg32 (VA32 w # args) = Some (w, args)"
| "va_arg32 _ = None"

fun va_arg64 :: "va list \<Rightarrow> (u64 \<times> va list) option" where
  "va_arg64 (VA64 w # args) = Some (w, args)"
| "va_arg64 _ = None"

text \<open>The inner switch: the number an integer directive prints.\<close>

definition va_number :: "format_type \<Rightarrow> va list \<Rightarrow> (u64 \<times> va list) option" where
  "va_number ty args =
     (if ty = FORMAT_TYPE_LONG_LONG then va_arg64 args
      else map_option (\<lambda>(w, args').
        (case ty of
           FORMAT_TYPE_ULONG \<Rightarrow> ucast w
         | FORMAT_TYPE_LONG \<Rightarrow> scast w
         | FORMAT_TYPE_SIZE_T \<Rightarrow> ucast w
         | FORMAT_TYPE_PTRDIFF \<Rightarrow> scast w
         | FORMAT_TYPE_UBYTE \<Rightarrow> ucast (ucast w :: u8)
         | FORMAT_TYPE_BYTE \<Rightarrow> scast (ucast w :: u8)
         | FORMAT_TYPE_USHORT \<Rightarrow> ucast (ucast w :: u16)
         | FORMAT_TYPE_SHORT \<Rightarrow> scast (ucast w :: u16)
         | FORMAT_TYPE_INT \<Rightarrow> scast w
         | _ \<Rightarrow> ucast w, args')) (va_arg32 args))"

text \<open>The characters of \<^verbatim>\<open>%c\<close>.\<close>

definition char_chars :: "u32 \<Rightarrow> printf_spec \<Rightarrow> cstr" where
  "char_chars a spec =
     (let (lead, width) = (if ps_flags spec AND LEFT = 0 then pad 0x20 1 (ps_width spec) else ([], ps_width spec)) in
      lead @ [ucast a] @ fst (pad 0x20 1 width))"

text \<open>
  One turn of the loop, \<open>pos\<close> characters after the start: the rest of the format, the specification for
  the next turn, the characters to store, the arguments left and the memory (\<^verbatim>\<open>%n\<close> stores to it).
\<close>

record token =
  tk_fmt :: cstr
  tk_spec :: printf_spec
  tk_chars :: cstr
  tk_args :: "va list"
  tk_mem :: mem

definition vsn_token :: "ksym \<Rightarrow> u32 \<Rightarrow> cstr \<Rightarrow> printf_spec \<Rightarrow> va list \<Rightarrow> mem \<Rightarrow> token option" where
  "vsn_token ksym pos old_fmt spec0 args m =
     (let (fmt, spec) = format_decode old_fmt spec0;
          read = length old_fmt - length fmt;
          tk = \<lparr>tk_fmt = fmt, tk_spec = spec, tk_chars = [], tk_args = args, tk_mem = m\<rparr> in
      case ps_type spec of
        FORMAT_TYPE_NONE \<Rightarrow> Some (tk\<lparr>tk_chars := take read old_fmt\<rparr>)
      | FORMAT_TYPE_WIDTH \<Rightarrow>
          map_option (\<lambda>(w, args'). tk\<lparr>tk_spec := spec\<lparr>ps_width := w\<rparr>, tk_args := args'\<rparr>) (va_arg32 args)
      | FORMAT_TYPE_PRECISION \<Rightarrow>
          map_option (\<lambda>(w, args'). tk\<lparr>tk_spec := spec\<lparr>ps_precision := w\<rparr>, tk_args := args'\<rparr>) (va_arg32 args)
      | FORMAT_TYPE_CHAR \<Rightarrow>
          map_option (\<lambda>(w, args'). tk\<lparr>tk_chars := char_chars w spec, tk_args := args'\<rparr>) (va_arg32 args)
      | FORMAT_TYPE_STR \<Rightarrow>
          Option.bind (va_arg32 args) (\<lambda>(w, args').
            map_option (\<lambda>cs. tk\<lparr>tk_chars := cs, tk_args := args'\<rparr>) (string_arg m w spec))
      | FORMAT_TYPE_PTR \<Rightarrow>
          Option.bind (va_arg32 args) (\<lambda>(w, args').
            map_option (\<lambda>cs. tk\<lparr>tk_fmt := dropWhile isalnum fmt, tk_chars := cs, tk_args := args'\<rparr>)
              (pointer ksym m (tl fmt) w spec))
      | FORMAT_TYPE_PERCENT_CHAR \<Rightarrow> Some (tk\<lparr>tk_chars := [0x25]\<rparr>)
      | FORMAT_TYPE_INVALID \<Rightarrow> Some (tk\<lparr>tk_chars := [0x25]\<rparr>)
      | FORMAT_TYPE_NRCHARS \<Rightarrow>
          Option.bind (va_arg32 args) (\<lambda>(w, args').
            map_option (\<lambda>m'. tk\<lparr>tk_args := args', tk_mem := m'\<rparr>) (store_u32 m w pos))
      | _ \<Rightarrow>
          map_option (\<lambda>(num, args'). tk\<lparr>tk_chars := number num spec, tk_args := args'\<rparr>) (va_number (ps_type spec) args))"

text \<open>
  The buffer is at \<open>buf\<close>, \<open>fin\<close> is the pointer \<^verbatim>\<open>end\<close>, the list is what the caller really has, and the
  second component is \<^verbatim>\<open>str\<close>.
\<close>

definition put_char :: "u32 \<Rightarrow> u32 \<Rightarrow> u8 \<Rightarrow> u8 list \<times> u32 \<Rightarrow> (u8 list \<times> u32) option" where
  "put_char buf fin c = (\<lambda>(bs, str).
     if str < fin
     then (let i = unat (str - buf) in if i < length bs then Some (bs[i := c], str + 1) else None)
     else Some (bs, str + 1))"

fun put_chars :: "u32 \<Rightarrow> u32 \<Rightarrow> cstr \<Rightarrow> u8 list \<times> u32 \<Rightarrow> (u8 list \<times> u32) option" where
  "put_chars buf fin [] st = Some st"
| "put_chars buf fin (c # cs) st = Option.bind (put_char buf fin c st) (put_chars buf fin cs)"

text \<open>Text between directives is copied in one piece; a negative \<^verbatim>\<open>copy\<close> is a huge \<^verbatim>\<open>size_t\<close>.\<close>

definition put_text :: "u32 \<Rightarrow> u32 \<Rightarrow> cstr \<Rightarrow> u8 list \<times> u32 \<Rightarrow> (u8 list \<times> u32) option" where
  "put_text buf fin cs = (\<lambda>(bs, str).
     let read = int (length cs) in
     if str < fin
     then (let copy = (if read > sint (fin - str) then sint (fin - str) else read) in
           if copy < 0 then None
           else map_option (\<lambda>bs'. (bs', str + of_int read)) (memcpy bs (unat (str - buf)) cs 0 (nat copy)))
     else Some (bs, str + of_int read))"

text \<open>A directive that reads nothing was begun by a width or precision argument, and ends there.\<close>

abbreviation arg_pending :: "printf_spec \<Rightarrow> bool" where
  "arg_pending spec \<equiv> ps_type spec = FORMAT_TYPE_WIDTH \<or> ps_type spec = FORMAT_TYPE_PRECISION"

definition loop_measure :: "cstr \<Rightarrow> printf_spec \<Rightarrow> nat" where
  "loop_measure fmt spec = 2 * length fmt + (if arg_pending spec then 1 else 0)"

lemma number_type_not_pending: "number_type spec \<noteq> FORMAT_TYPE_WIDTH" "number_type spec \<noteq> FORMAT_TYPE_PRECISION"
  by (simp_all add: number_type_def Let_def)

lemma decode_conversion_progress:
  "length (fst (decode_conversion fmt spec)) \<le> length fmt \<and> \<not> arg_pending (snd (decode_conversion fmt spec))"
  by (simp add: decode_conversion_def Let_def number_type_not_pending)

lemma decode_conversion_tl:
  "length (fst (decode_conversion (tl fmt) x)) \<le> length fmt" "length (fst (decode_conversion (tl (tl fmt)) x)) \<le> length fmt"
  using decode_conversion_progress [of "tl fmt" x] decode_conversion_progress [of "tl (tl fmt)" x]
  by (auto intro: le_trans)

lemma decode_qualifier_progress:
  "length (fst (decode_qualifier fmt spec)) \<le> length fmt \<and> \<not> arg_pending (snd (decode_qualifier fmt spec))"
  using decode_conversion_progress decode_conversion_tl unfolding decode_qualifier_def Let_def by simp

lemma skip_atoi_length: "length (snd (skip_atoi s)) \<le> length s"
proof -
  have "length (snd (skip_atoi_loop i s)) \<le> length s" for i by (induction s arbitrary: i) (auto simp: le_SucI)
  then show ?thesis by (simp add: skip_atoi_def)
qed

lemma decode_precision_progress:
  "length (fst (decode_precision fmt spec)) \<le> length fmt \<and>
   (arg_pending (snd (decode_precision fmt spec)) \<longrightarrow> length (fst (decode_precision fmt spec)) < length fmt)"
proof -
  have q1: "length (fst (decode_qualifier (tl fmt) x)) \<le> length fmt" for x
    using decode_qualifier_progress [of "tl fmt" x] by (auto intro: le_trans)
  have q2: "length (fst (decode_qualifier (snd (skip_atoi (tl fmt))) x)) \<le> length fmt" for x
    using decode_qualifier_progress [of "snd (skip_atoi (tl fmt))" x] skip_atoi_length [of "tl fmt"]
    by (auto intro: le_trans)
  have "at fmt 0 = 0x2e \<Longrightarrow> fmt \<noteq> []" by auto
  then show ?thesis using q1 q2 decode_qualifier_progress
    unfolding decode_precision_def by (auto simp: case_prod_beta)
qed

lemma decode_flags_length: "length (fst (decode_flags fmt flags)) \<le> length fmt"
  by (induction fmt arbitrary: flags) (auto simp: le_SucI)

lemma decode_precision_measure:
  "length (fst (decode_precision f x)) \<le> length f \<and> loop_measure (fst (decode_precision f x)) (snd (decode_precision f x)) \<le> 2 * length f"
  using decode_precision_progress [of f x] by (auto simp: loop_measure_def)

lemma format_decode_directive:
  assumes "\<not> arg_pending spec" and "fmt = 0x25 # f"
  shows "length (fst (format_decode fmt spec)) \<le> length f \<and>
    loop_measure (fst (format_decode fmt spec)) (snd (format_decode fmt spec)) \<le> 2 * length f"
proof -
  obtain f2 fl where fl: "decode_flags f 0 = (f2, fl)" by (cases "decode_flags f 0")
  then have f2: "length f2 \<le> length f" using decode_flags_length [of f 0] by simp
  obtain w f3 where f3: "skip_atoi f2 = (w, f3)" by (cases "skip_atoi f2")
  define P where "P r \<longleftrightarrow> length (fst r) \<le> length f \<and> loop_measure (fst r) (snd r) \<le> 2 * length f" for r
  have "length f3 \<le> length f" using skip_atoi_length [of f2] f2 f3 by simp
  then have P: "P (decode_precision f3 x)" "P (decode_precision f2 x)" for x
    using f2 decode_precision_measure [of f3 x] decode_precision_measure [of f2 x] by (auto simp: P_def)
  have "at f2 0 = 0x2a \<Longrightarrow> P (tl f2, x)" for x
    using f2 by (cases f2) (auto simp: P_def loop_measure_def)
  then have "P (format_decode fmt spec)"
    using assms P f3 fl unfolding format_decode_def Let_def by simp
  then show ?thesis by (simp add: P_def)
qed

lemma format_decode_progress:
  assumes "fmt \<noteq> []"
  shows "length (fst (format_decode fmt spec)) \<le> length fmt \<and>
    loop_measure (fst (format_decode fmt spec)) (snd (format_decode fmt spec)) < loop_measure fmt spec"
proof (cases "arg_pending spec")
  case True
  have "loop_measure (fst (decode_qualifier f x)) (snd (decode_qualifier f x)) \<le> 2 * length f" for f x
    using decode_qualifier_progress [of f x] by (auto simp: loop_measure_def)
  then show ?thesis
    using True decode_precision_measure [of fmt] decode_qualifier_progress [of fmt]
    by (auto simp: format_decode_def loop_measure_def [of fmt] le_imp_less_Suc)
next
  case False
  obtain c f where f: "fmt = c # f" using assms by (cases fmt) auto
  show ?thesis
  proof (cases "c = 0x25")
    case True
    then show ?thesis using format_decode_directive [OF False, of fmt f] f by (simp add: loop_measure_def [of "0x25 # f"])
  next
    case c: False
    have "length (dropWhile (\<lambda>c. c \<noteq> 0x25) f) \<le> length f" by (rule length_dropWhile_le)
    then show ?thesis using False c f by (auto simp: format_decode_def Let_def loop_measure_def dest: arg_cong [where f = length])
  qed
qed

lemma vsn_token_progress:
  assumes "vsn_token ksym pos fmt spec args m = Some tk" and "fmt \<noteq> []"
  shows "loop_measure (tk_fmt tk) (tk_spec tk) < loop_measure fmt spec"
proof -
  obtain fmt' spec' where d: "format_decode fmt spec = (fmt', spec')" by (cases "format_decode fmt spec")
  have m: "loop_measure fmt' spec' < loop_measure fmt spec" using format_decode_progress [OF assms(2), of spec] d by simp
  have "length (dropWhile isalnum fmt') \<le> length fmt'" by (rule length_dropWhile_le)
  then have "loop_measure (tk_fmt tk) (tk_spec tk) \<le> loop_measure fmt' spec'"
    using assms(1) unfolding vsn_token_def d Let_def
    by (auto simp: loop_measure_def bind_eq_Some_conv split: format_type.splits prod.splits if_splits)
  then show ?thesis using m by simp
qed

definition vsn_store :: "u32 \<Rightarrow> u32 \<Rightarrow> token \<Rightarrow> u8 list \<times> u32 \<Rightarrow> (u8 list \<times> u32) option" where
  "vsn_store buf fin tk st =
     (if ps_type (tk_spec tk) = FORMAT_TYPE_NONE then put_text buf fin (tk_chars tk) st else put_chars buf fin (tk_chars tk) st)"

function vsn_loop ::
  "ksym \<Rightarrow> u32 \<Rightarrow> u32 \<Rightarrow> cstr \<Rightarrow> printf_spec \<Rightarrow> va list \<Rightarrow> mem \<Rightarrow> u8 list \<times> u32 \<Rightarrow> (u8 list \<times> u32 \<times> mem) option" where
  "vsn_loop ksym buf fin fmt spec args m st =
     (if fmt = [] then Some (fst st, snd st, m)
      else case vsn_token ksym (snd st - buf) fmt spec args m of
          None \<Rightarrow> None
        | Some tk \<Rightarrow>
            (case vsn_store buf fin tk st of
               None \<Rightarrow> None
             | Some st' \<Rightarrow> vsn_loop ksym buf fin (tk_fmt tk) (tk_spec tk) (tk_args tk) (tk_mem tk) st'))"
  by pat_completeness auto
termination
  by (relation "measure (\<lambda>(ksym, buf, fin, fmt, spec, args, m, st). loop_measure fmt spec)")
     (auto dest: vsn_token_progress)

declare vsn_loop.simps [simp del]

definition empty_spec :: printf_spec where
  "empty_spec = \<lparr>ps_type = FORMAT_TYPE_NONE, ps_flags = 0, ps_width = 0, ps_base = 0, ps_precision = 0, ps_qualifier = 0\<rparr>"

text \<open>\<open>buf\<close> is the address of the buffer, \<open>bs\<close> what is really there. The result is the C int \<^verbatim>\<open>str - buf\<close>.\<close>

definition vsnprintf ::
  "ksym \<Rightarrow> u32 \<Rightarrow> u8 list \<Rightarrow> u32 \<Rightarrow> cstr \<Rightarrow> va list \<Rightarrow> mem \<Rightarrow> (u8 list \<times> s32 \<times> mem) option" where
  "vsnprintf ksym buf bs sz0 fmt args m =
     (if sz0 <s 0 then Some (bs, 0, m)
      else
        let fin0 = buf + sz0;
            (fin, sz) = (if fin0 < buf then (- 1, - 1 - buf) else (fin0, sz0)) in
        Option.bind (vsn_loop ksym buf fin fmt empty_spec args m (bs, buf)) (\<lambda>(bs1, str, m').
          if sz > 0
          then let i = unat ((if str < fin then str else fin - 1) - buf) in
            if i < length bs1 then Some (bs1[i := 0], str - buf, m') else None
          else Some (bs1, str - buf, m')))"

text \<open>The comparison of the C int with the \<^verbatim>\<open>size_t\<close> is unsigned.\<close>

definition vscnprintf ::
  "ksym \<Rightarrow> u32 \<Rightarrow> u8 list \<Rightarrow> u32 \<Rightarrow> cstr \<Rightarrow> va list \<Rightarrow> mem \<Rightarrow> (u8 list \<times> s32 \<times> mem) option" where
  "vscnprintf ksym buf bs sz fmt args m =
     map_option (\<lambda>(bs', i, m'). (bs', if i \<ge> sz then sz - 1 else i, m')) (vsnprintf ksym buf bs sz fmt args m)"

definition vsprintf ::
  "ksym \<Rightarrow> u32 \<Rightarrow> u8 list \<Rightarrow> cstr \<Rightarrow> va list \<Rightarrow> mem \<Rightarrow> (u8 list \<times> s32 \<times> mem) option" where
  "vsprintf ksym buf bs fmt args m = vsnprintf ksym buf bs 0x7fffffff fmt args m"

section \<open>The output of a format\<close>

text \<open>The characters a format stands for, without any buffer, from the position \<open>pos\<close> (which \<^verbatim>\<open>%n\<close> stores) on.\<close>

function vformat :: "ksym \<Rightarrow> u32 \<Rightarrow> cstr \<Rightarrow> printf_spec \<Rightarrow> va list \<Rightarrow> mem \<Rightarrow> (cstr \<times> mem) option" where
  "vformat ksym pos fmt spec args m =
     (if fmt = [] then Some ([], m)
      else case vsn_token ksym pos fmt spec args m of
          None \<Rightarrow> None
        | Some tk \<Rightarrow>
            map_option (\<lambda>(cs, m'). (tk_chars tk @ cs, m'))
              (vformat ksym (pos + of_nat (length (tk_chars tk))) (tk_fmt tk) (tk_spec tk) (tk_args tk) (tk_mem tk)))"
  by pat_completeness auto
termination
  by (relation "measure (\<lambda>(ksym, pos, fmt, spec, args, m). loop_measure fmt spec)")
     (auto dest: vsn_token_progress)

declare vformat.simps [simp del]

text \<open>What is in a buffer after \<open>cs\<close> was output from its start: a prefix.\<close>

definition overlay :: "nat \<Rightarrow> cstr \<Rightarrow> u8 list \<Rightarrow> u8 list option" where
  "overlay sz cs buf =
     (if min (length cs) sz \<le> length buf then Some (take sz cs @ drop (min (length cs) sz) buf) else None)"

lemma overlay_below:
  assumes "overlay sz cs buf = Some b" and "length cs < sz"
  shows "length cs \<le> length buf" and "b = cs @ drop (length cs) buf"
  using assms by (auto simp: overlay_def split: if_splits)

lemma overlay_above:
  assumes "sz \<le> length cs" shows "overlay sz (cs @ ds) buf = overlay sz cs buf"
  using assms by (simp add: overlay_def)

lemma overlay_below_append:
  assumes "length cs < sz" and "length cs \<le> length buf"
  shows "overlay sz (cs @ ds) buf =
    (if length cs + min (length ds) (sz - length cs) \<le> length buf
     then Some (cs @ take (sz - length cs) ds @ drop (length cs + min (length ds) (sz - length cs)) buf) else None)"
proof -
  have "min (length (cs @ ds)) sz = length cs + min (length ds) (sz - length cs)" using assms(1) by (simp only: length_append)
  then show ?thesis using assms(1) by (simp add: overlay_def)
qed

lemma sint_nonneg: "\<not> w <s 0 \<Longrightarrow> sint (w :: s32) = int (unat w)"
proof -
  assume "\<not> w <s 0"
  then have "take_bit 32 (sint w) = sint w" using sint_range [of w] by (simp add: word_sless_alt take_bit_int_eq_self_iff)
  moreover have "uint w = take_bit 32 (sint w)" by (simp add: uint_sint)
  ultimately show "sint w = int (unat w)" by simp
qed

text \<open>A position that has not wrapped around, in a buffer of \<open>sz\<close> bytes.\<close>

lemma position:
  fixes buf sz :: u32
  assumes "\<not> buf + sz < buf" and "unat buf + k < 2 ^ 32"
  shows "buf + of_nat k < buf + sz \<longleftrightarrow> k < unat sz" "unat (of_nat k :: u32) = k"
proof -
  have "unat (buf + sz) = unat buf + unat sz"
  proof (cases "unat buf + unat sz < 2 ^ 32")
    case False
    then have "(unat buf + unat sz) mod 2 ^ 32 \<le> unat buf + unat sz - 2 ^ 32" by (simp add: le_mod_geq)
    then have "unat (buf + sz) < unat buf" using unat_bound [of sz] False unfolding unat_word_ariths by simp
    with assms(1) show ?thesis by (simp add: word_less_nat_alt)
  qed (simp add: unat_word_ariths)
  moreover show k: "unat (of_nat k :: u32) = k" using assms(2) by (intro unat_of_nat_small) simp
  moreover from k have "unat (buf + of_nat k) = unat buf + k"
    using assms(2) by (simp add: unat_word_ariths)
  ultimately show "buf + of_nat k < buf + sz \<longleftrightarrow> k < unat sz" by (simp add: word_less_nat_alt)
qed

lemma put_char_overlay:
  assumes "overlay (unat sz) cs bs = Some b" and fits: "\<not> buf + sz < buf" "unat buf + length cs < 2 ^ 32"
  shows "put_char buf (buf + sz) c (b, buf + of_nat (length cs)) =
    map_option (\<lambda>b. (b, buf + of_nat (length (cs @ [c])))) (overlay (unat sz) (cs @ [c]) bs)"
proof (cases "length cs < unat sz")
  case True
  note b = overlay_below [OF assms(1) True]
  have "(drop (length cs) bs)[0 := c] = c # drop (Suc (length cs)) bs" if "length cs < length bs"
    using that by (cases "drop (length cs) bs") (simp_all add: drop_Suc tl_drop [symmetric])
  then show ?thesis using True b position [OF fits]
    by (auto simp: put_char_def overlay_below_append list_update_append Suc_leI min_def Let_def ac_simps)
qed (use assms position [OF fits] in \<open>simp add: put_char_def overlay_above ac_simps\<close>)

lemma overlay_mono: "overlay sz (cs @ ds) bs = Some b \<Longrightarrow> \<exists>b'. overlay sz cs bs = Some b'"
  by (auto simp: overlay_def split: if_splits)

lemma put_chars_overlay:
  assumes "\<not> buf + sz < buf"
  shows "overlay (unat sz) cs bs = Some b \<Longrightarrow> unat buf + length (cs @ ds) < 2 ^ 32 \<Longrightarrow>
   put_chars buf (buf + sz) ds (b, buf + of_nat (length cs)) =
     map_option (\<lambda>b. (b, buf + of_nat (length (cs @ ds)))) (overlay (unat sz) (cs @ ds) bs)"
proof (induction ds arbitrary: cs b)
  case (Cons c ds)
  have "unat buf + length cs < 2 ^ 32" using Cons.prems(2) by simp
  note step = put_char_overlay [OF Cons.prems(1) assms this, of c]
  show ?case
  proof (cases "overlay (unat sz) (cs @ [c]) bs")
    case None
    then have "overlay (unat sz) (cs @ c # ds) bs = None" using overlay_mono [of _ "cs @ [c]" ds bs] by fastforce
    then show ?thesis using None step by simp
  next
    case (Some b')
    then show ?thesis using Cons.IH [OF Some] Cons.prems(2) step by simp
  qed
qed simp

lemma put_text_overlay:
  assumes "overlay (unat sz) cs bs = Some b" and fits: "\<not> buf + sz < buf" "unat buf + length cs < 2 ^ 32" and "\<not> sz <s 0"
  shows "put_text buf (buf + sz) ds (b, buf + of_nat (length cs)) =
    map_option (\<lambda>b. (b, buf + of_nat (length (cs @ ds)))) (overlay (unat sz) (cs @ ds) bs)"
proof (cases "length cs < unat sz")
  case True
  note b = overlay_below [OF assms(1) True] and p = position [OF fits]
  define n where "n = min (length ds) (unat sz - length cs)"
  have "sint sz = int (unat sz)" by (rule sint_nonneg [OF assms(4)])
  then have small: "int (unat sz) < 2 ^ 31" using sint_range(2) [of sz] by simp
  have room: "sint (buf + sz - (buf + of_nat (length cs))) = int (unat sz - length cs)"
  proof -
    have "buf + sz - (buf + of_nat (length cs)) = of_int (int (unat sz - length cs))"
      using True by (simp add: of_nat_diff)
    then show ?thesis using small sint_of_int_small [of "int (unat sz - length cs)"] by (simp only:)
  qed
  have copy: "(if int (length ds) > int (unat sz - length cs) then int (unat sz - length cs) else int (length ds)) = int n"
    by (simp add: n_def)
  have "take n ds = take (unat sz - length cs) ds" "n \<le> length ds" by (simp_all add: n_def min_def)
  then show ?thesis using True b p unfolding put_text_def Let_def prod.case room copy
    by (simp add: memcpy_def overlay_below_append n_def [symmetric] ac_simps)
qed (use assms position [OF fits] in \<open>simp add: put_text_def overlay_above ac_simps\<close>)

lemma vsn_store_overlay:
  assumes "overlay (unat sz) cs bs = Some b" and "\<not> buf + sz < buf" "\<not> sz <s 0" "unat buf + length (cs @ tk_chars tk) < 2 ^ 32"
  shows "vsn_store buf (buf + sz) tk (b, buf + of_nat (length cs)) =
    map_option (\<lambda>b. (b, buf + of_nat (length (cs @ tk_chars tk)))) (overlay (unat sz) (cs @ tk_chars tk) bs)"
  unfolding vsn_store_def
  using put_chars_overlay [OF assms(2,1,4)] put_text_overlay [OF assms(1,2) _ assms(3), of "tk_chars tk"] assms(4) by simp

text \<open>A format without output makes the loop fail, whatever the buffer.\<close>

lemma put_chars_pos: "put_chars buf fin cs st = Some st' \<Longrightarrow> snd st' = snd st + of_nat (length cs)"
  by (induction cs arbitrary: st) (auto simp: put_char_def Let_def bind_eq_Some_conv split: if_splits prod.splits)

lemma vsn_store_pos: "vsn_store buf fin tk st = Some st' \<Longrightarrow> snd st' = snd st + of_nat (length (tk_chars tk))"
  by (auto simp: vsn_store_def put_text_def Let_def put_chars_pos split: if_splits prod.splits)

lemma vsn_loop_None:
  "vformat ksym (snd st - buf) fmt spec args m = None \<Longrightarrow> vsn_loop ksym buf fin fmt spec args m st = None"
proof (induction ksym buf fin fmt spec args m st rule: vsn_loop.induct)
  case (1 ksym buf fin fmt spec args m st)
  from "1.prems" have fmt: "fmt \<noteq> []" by (auto simp: vformat.simps)
  show ?case
  proof (cases "vsn_token ksym (snd st - buf) fmt spec args m")
    case (Some tk)
    have "vsn_loop ksym buf fin (tk_fmt tk) (tk_spec tk) (tk_args tk) (tk_mem tk) st' = None" if "vsn_store buf fin tk st = Some st'" for st'
      using "1.IH" [OF fmt Some that] "1.prems" fmt Some vsn_store_pos [OF that]
      by (simp add: vformat.simps [of _ _ fmt] algebra_simps)
    then show ?thesis using fmt Some by (subst vsn_loop.simps) (simp split: option.splits)
  qed (use fmt in \<open>subst vsn_loop.simps, simp\<close>)
qed

lemma vsn_loop_overlay:
  assumes sz: "\<not> buf + sz < buf" "\<not> sz <s 0"
  shows "overlay (unat sz) cs bs = Some b \<Longrightarrow> vformat ksym (of_nat (length cs)) fmt spec args m = Some (ds, m') \<Longrightarrow>
    unat buf + length (cs @ ds) < 2 ^ 32 \<Longrightarrow>
    vsn_loop ksym buf (buf + sz) fmt spec args m (b, buf + of_nat (length cs)) =
      map_option (\<lambda>b'. (b', buf + of_nat (length (cs @ ds)), m')) (overlay (unat sz) (cs @ ds) bs)"
proof (induction "loop_measure fmt spec" arbitrary: cs b fmt spec args m ds rule: less_induct)
  case less
  show ?case
  proof (cases "fmt = []")
    case True
    then show ?thesis using less.prems by (auto simp: vsn_loop.simps [of _ _ _ "[]"] vformat.simps [of _ _ "[]"])
  next
    case False
    then obtain tk ds' where tk: "vsn_token ksym (of_nat (length cs)) fmt spec args m = Some tk"
      and rest: "vformat ksym (of_nat (length (cs @ tk_chars tk))) (tk_fmt tk) (tk_spec tk) (tk_args tk) (tk_mem tk) = Some (ds', m')"
      and ds: "ds = tk_chars tk @ ds'"
      using less.prems(2) by (auto simp: vformat.simps [of _ _ fmt] split: option.splits)
    have fits: "unat buf + length (cs @ tk_chars tk) < 2 ^ 32" "unat buf + length ((cs @ tk_chars tk) @ ds') < 2 ^ 32"
      using less.prems(3) ds by simp_all
    note step = vsn_loop.simps [of ksym buf "buf + sz" fmt] tk vsn_store_overlay [OF less.prems(1) sz fits(1)]
    show ?thesis
    proof (cases "overlay (unat sz) (cs @ tk_chars tk) bs")
      case None
      then have "overlay (unat sz) (cs @ ds) bs = None"
        using overlay_mono [of _ "cs @ tk_chars tk" ds' bs] unfolding ds by fastforce
      then show ?thesis using None False by (simp add: step)
    next
      case (Some b')
      from less.hyps [OF vsn_token_progress [OF tk False] Some rest fits(2)] show ?thesis
        using Some False by (simp add: step ds)
    qed
  qed
qed

text \<open>The terminating zero.\<close>

lemma terminate_overlay:
  assumes "0 < sz"
  shows "Option.bind (overlay sz cs buf) (\<lambda>b.
      let i = (if length cs < sz then length cs else sz - 1) in if i < length b then Some (b[i := 0]) else None) =
    (let n = min (length cs) (sz - 1) in if n < length buf then Some (take n cs @ 0 # drop (n + 1) buf) else None)"
proof (cases "length cs < sz")
  case True
  have "(drop (length cs) buf)[0 := 0] = 0 # drop (Suc (length cs)) buf" if "length cs < length buf"
    using that by (cases "drop (length cs) buf") (simp_all add: drop_Suc tl_drop [symmetric])
  moreover have "min (length cs) (sz - 1) = length cs" using True by simp
  ultimately show ?thesis using True overlay_below_append [of cs sz buf "[]"]
    by (auto simp: overlay_def Let_def list_update_append)
next
  case False
  have "(take sz cs)[sz - 1 := 0] = take (sz - 1) cs @ [0]"
    using False assms by (simp add: upd_conv_take_nth_drop min_absorb1)
  moreover have "min (length cs) (sz - 1) = sz - 1" using False by simp
  ultimately show ?thesis using False assms by (auto simp: overlay_def Let_def list_update_append)
qed

lemma vsnprintf_output:
  assumes "0 <s sz" and "\<not> buf + sz < buf" and "vformat ksym 0 fmt empty_spec args m = Some (cs, m')" and "unat buf + length cs < 2 ^ 32"
  shows "vsnprintf ksym buf bs sz fmt args m =
    (let n = min (length cs) (unat sz - 1) in
     if n < length bs then Some (take n cs @ 0 # drop (n + 1) bs, of_nat (length cs), m') else None)"
proof -
  have pos: "0 < sz" "0 < unat sz" "\<not> sz <s 0" using assms(1) by (auto simp: word_gt_0 unat_gt_0 word_sless_alt)
  have "overlay (unat sz) [] bs = Some bs" by (simp add: overlay_def)
  note loop = vsn_loop_overlay [OF assms(2) pos(3) this, of ksym fmt empty_spec args m cs m']
  have i: "unat ((if buf + of_nat (length cs) < buf + sz then buf + of_nat (length cs) else buf + sz - 1) - buf) =
      (if length cs < unat sz then length cs else unat sz - 1)"
    using position [OF assms(2,4)] pos(1) by (simp add: unat_minus_one word_gt_0 algebra_simps)
  have len: "buf + of_nat (length cs) - buf = of_nat (length cs)" by simp
  show ?thesis
    using terminate_overlay [OF pos(2), of cs bs] loop assms(2-4) pos unfolding vsnprintf_def
    by (cases "overlay (unat sz) cs bs") (auto simp: Let_def i split: if_splits)
qed

text \<open>
  C7. Bounded output: let the size be positive as a C int, the buffer end within the address space, and the
  output of the format, from the start of the buffer on, end within it too. Then \<^verbatim>\<open>vsnprintf\<close> returns the length of the
  full output of the format and leaves in the buffer the longest prefix of that output that fits with a
  terminating zero, the rest of the buffer as it was. It fails only when a directive fails (an argument of another type,
  or a pointer to memory that is not there), or when the caller's buffer is smaller than the size claims and
  the output reaches its end. The output of a format is computed without any buffer.
\<close>

theorem vsnprintf_bounded:
  assumes "0 <s sz" and "\<not> buf + sz < buf"
    and "\<And>cs m'. vformat ksym 0 fmt empty_spec args m = Some (cs, m') \<Longrightarrow> unat buf + length cs < 2 ^ 32"
  shows "vsnprintf ksym buf bs sz fmt args m =
    (case vformat ksym 0 fmt empty_spec args m of
       None \<Rightarrow> None
     | Some (cs, m') \<Rightarrow>
         let n = min (length cs) (unat sz - 1) in
         if n < length bs then Some (take n cs @ 0 # drop (n + 1) bs, of_nat (length cs), m') else None)"
proof (cases "vformat ksym 0 fmt empty_spec args m")
  case None
  have "\<not> sz <s 0" using assms(1) by (simp add: word_sless_alt)
  then show ?thesis using None vsn_loop_None [of ksym "(bs, buf)" buf fmt empty_spec args m] by (simp add: vsnprintf_def)
next
  case (Some r)
  then show ?thesis using vsnprintf_output [OF assms(1,2)] assms(3) by (cases r) simp
qed

theorem vsnprintf_bounded_witness:
  "vsnprintf (\<lambda>_ _. []) 0x1000 (replicate 4 0xff) 4 [0x61, 0x62, 0x63, 0x64] [] Map.empty =
     Some ([0x61, 0x62, 0x63, 0], 4, Map.empty)"
proof -
  have "vformat (\<lambda>_ _. []) 0 [0x61, 0x62, 0x63, 0x64] empty_spec [] Map.empty = Some ([0x61, 0x62, 0x63, 0x64], Map.empty)"
    by (simp add: vformat.simps vsn_token_def format_decode_def empty_spec_def)
  then show ?thesis
    by (subst vsnprintf_bounded) (simp_all add: word_sless_alt)
qed

text \<open>Output that passes the end of the address space comes back below \<^verbatim>\<open>end\<close> and is stored at address zero.\<close>

lemma put_chars_wraps:
  assumes "0 < fin" and "0 < buf" and "unat buf + length bs \<le> 2 ^ 32"
    and "str = 0 \<and> cs \<noteq> [] \<or> unat str + length cs > 2 ^ 32"
  shows "put_chars buf fin cs (bs, str) = None"
  using assms(3,4)
proof (induction cs arbitrary: bs str)
  case Nil
  then show ?case using unat_bound [of str] by simp
next
  case (Cons c cs)
  show ?case
  proof (cases "str = 0")
    case True
    have "unat (- buf) = 2 ^ 32 - unat buf" 
    proof -
      have "- buf = of_nat (2 ^ 32 - unat buf)" using unat_bound [of buf] by (subst of_nat_diff) simp_all
      moreover have "unat (of_nat (2 ^ 32 - unat buf) :: u32) = 2 ^ 32 - unat buf"
        using assms(2) by (intro unat_of_nat_small) (simp add: word_gt_0 unat_gt_0)
      ultimately show ?thesis by simp
    qed
    then have "\<not> unat (- buf) < length bs" using Cons.prems(1) by simp
    then show ?thesis using True assms(1) by (simp add: put_char_def Let_def)
  next
    case False
    then have long: "unat str + length (c # cs) > 2 ^ 32" using Cons.prems(2) by simp
    have "str + 1 = 0 \<and> cs \<noteq> [] \<or> unat (str + 1) + length cs > 2 ^ 32"
    proof (cases "unat str + 1 < 2 ^ 32")
      case True
      then show ?thesis using long by (simp add: unat_word_ariths)
    next
      case False
      then have "unat str = 2 ^ 32 - 1" using unat_bound [of str] by simp
      moreover have "str = of_nat (unat str)" by simp
      ultimately have "str + 1 = 0" by simp
      then show ?thesis using long \<open>unat str = 2 ^ 32 - 1\<close> by (cases cs) simp_all
    qed
    moreover have "length bs' = length bs" if "put_char buf fin c (bs, str) = Some (bs', str')" for bs' str'
      using that by (auto simp: put_char_def Let_def split: if_splits)
    moreover have "str' = str + 1" if "put_char buf fin c (bs, str) = Some (bs', str')" for bs' str'
      using that by (auto simp: put_char_def Let_def split: if_splits)
    ultimately show ?thesis using Cons.IH Cons.prems(1) by (cases "put_char buf fin c (bs, str)") auto
  qed
qed

text \<open>
  With a field wide enough \<^verbatim>\<open>vsnprintf\<close> stores outside a buffer that is as large as the size says: \<^verbatim>\<open>str\<close> is
  compared with \<^verbatim>\<open>end\<close> only, and has passed the end of the address space.
\<close>

lemma vsnprintf_wraps:
  "vsnprintf ksym 0xc0000000 (replicate 16 0) 16 [0x25, 0x2a, 0x63] [VA32 0x40000001, VA32 0x61] m = None"
proof -
  define w :: s32 where "w = 0x40000001"
  define spec where "spec = \<lparr>ps_type = FORMAT_TYPE_WIDTH, ps_flags = 0, ps_width = w, ps_base = 0, ps_precision = 0, ps_qualifier = 0\<rparr>"
  have "length (fst (pad 0x20 1 w)) = 0x40000000" by (simp add: pad_eq w_def)
  then have "0x40000000 < length (char_chars 0x61 spec')" if "ps_width spec' = w" "ps_flags spec' = 0" for spec'
    using that by (simp add: char_chars_def Let_def case_prod_beta)
  then have chars: "put_chars 0xc0000000 0xc0000010 (char_chars 0x61 spec') (replicate 16 0, 0xc0000000) = None"
    if "ps_width spec' = w" "ps_flags spec' = 0" for spec'
    using that by (intro put_chars_wraps) auto
  show ?thesis
    by (simp add: vsnprintf_def vsn_loop.simps vsn_token_def format_decode_def empty_spec_def chars w_def
        decode_precision_def decode_qualifier_def decode_conversion_def vsn_store_def word_sless_alt isdigit_iff Let_def)
qed

text \<open>
  \<^verbatim>\<open>vscnprintf\<close> and \<^verbatim>\<open>scnprintf\<close> return, against their comments, -1 and not 0 for a size of 0, whatever
  the output.
\<close>

lemma vscnprintf_size_0:
  assumes "\<And>cs m'. vformat ksym 0 fmt empty_spec args m = Some (cs, m') \<Longrightarrow> unat buf + length cs < 2 ^ 32"
  shows "vscnprintf ksym buf bs 0 fmt args m =
     map_option (\<lambda>(cs, m'). (bs, - 1, m')) (vformat ksym 0 fmt empty_spec args m)"
proof (cases "vformat ksym 0 fmt empty_spec args m")
  case None
  then show ?thesis using vsn_loop_None [of ksym "(bs, buf)" buf fmt empty_spec args m]
    by (simp add: vscnprintf_def vsnprintf_def)
next
  case (Some r)
  obtain cs m' where r: "r = (cs, m')" by (cases r)
  have o0: "overlay 0 xs bs = Some bs" for xs by (simp add: overlay_def)
  note loop = vsn_loop_overlay [of buf 0 "[]" bs bs ksym fmt empty_spec args m cs m']
  then show ?thesis using o0 Some assms r by (simp add: vscnprintf_def vsnprintf_def)
qed

section \<open>The local buffers\<close>

lemma length_number:
  assumes "ps_base spec = 8 \<or> ps_base spec = 10 \<or> ps_base spec = 16"
    and "width_ok spec"
  shows "length (number num spec) =
    max (nat (sint (ps_width spec)))
      (length (number_sign (ps_flags spec) num) + length (number_prefix (ps_flags spec) (ps_base spec)) +
       max (nat (sint (ps_precision spec)))
         (length (digits_of (ps_flags spec AND SMALL = 0) (ps_base spec) (unat (number_abs (ps_flags spec) num)))))"
proof -
  note tmp = rev_number_tmp_flags [OF assms(1)]
  have len: "length (number_tmp (ps_base spec) (ucast (ps_flags spec AND SMALL)) n) =
      length (digits_of (ps_flags spec AND SMALL = 0) (ps_base spec) (unat n))" for n
    by (simp add: tmp [symmetric])
  show ?thesis unfolding number_eq_layout [OF assms] number_layout_def Let_def by (auto simp: len max_def)
qed

lemma put_dec_trunc_byte: "0 < length (put_dec_trunc (ucast (b :: u8))) \<and> length (put_dec_trunc (ucast b)) \<le> 3"
proof -
  have "unat b < 256" using unat_bound [of b] by simp
  then have "length (digits_of False 10 (unat b)) \<le> 3" using digits_of_length [of "unat b" 10 2 False] by simp
  moreover have "put_dec_trunc (ucast b) = rev (digits_of False 10 (unat b))"
    using put_dec_trunc_nat [of "unat b" False] \<open>unat b < 256\<close> by simp
  ultimately show ?thesis by simp
qed

lemma ip4_loop_length:
  "i + length addr = 4 \<Longrightarrow> addr \<noteq> [] \<Longrightarrow> length (ip4_loop z addr i) + 1 \<le> 4 * length addr"
proof (induction addr arbitrary: i)
  case (Cons b addr)
  define temp where "temp = put_dec_trunc (ucast b)"
  define quad where "quad = (if z then (if length temp < 3 then [0x30] else []) @ (if length temp < 2 then [0x30] else []) else []) @ rev temp"
  have quad: "length quad \<le> 3" using put_dec_trunc_byte [of b] by (auto simp: quad_def temp_def)
  have loop: "ip4_loop z (b # addr) i = quad @ (if i < 3 then [0x2e] else []) @ ip4_loop z addr (i + 1)"
    by (simp add: quad_def temp_def Let_def)
  show ?case
  proof (cases "addr = []")
    case True
    then show ?thesis unfolding loop using Cons.prems quad by simp
  next
    case False
    then show ?thesis unfolding loop using Cons.prems quad Cons.IH [of "i + 1"] by simp
  qed
qed simp

lemma hex_word_length: "length (hex_word w) \<le> 4"
  by (simp add: hex_word_def pack_hex_byte_def Let_def)

lemma ip6_emit_length:
  "length (fst (ip6_emit a rng l cp i nc)) + (if nc \<or> rng \<le> i then 0 else 1) \<le> 5 * (rng - i)"
proof (induction a rng l cp i nc rule: ip6_emit.induct)
  case (1 a rng l cp i nc)
  show ?case
  proof (cases "i < rng")
    case True
    then have step: "5 * (rng - i) = 5 + 5 * (rng - (i + 1))" "5 * (rng - (i + (l - 1) + 1)) \<le> 5 * (rng - (i + 1))" by simp_all
    show ?thesis
    proof (cases "Some i = cp")
      case c: True
      then show ?thesis using "1.IH"(1) [OF True c] True step
        by (subst ip6_emit.simps) (auto simp: case_prod_beta split: if_splits)
    next
      case c: False
      then show ?thesis using "1.IH"(2) [OF True c] True step hex_word_length [of "s6_addr16 a i"]
        by (subst ip6_emit.simps) (auto simp: case_prod_beta)
    qed
  qed (subst ip6_emit.simps, simp)
qed

lemma ip6_string_length: "length addr = 16 \<Longrightarrow> length (ip6_string addr fmt) \<le> 39"
  by (auto simp: length_Suc_conv numeral_eq_Suc ip6_string_def pack_hex_byte_def)

lemma mac_loop_length: "length addr = 6 \<Longrightarrow> length (mac_loop fmt addr 0) \<le> 17"
  by (auto simp: length_Suc_conv numeral_eq_Suc pack_hex_byte_def)

lemma ip6_compressed_length:
  assumes "length a = 16" shows "length (ip6_compressed_string a) \<le> 45"
proof -
  define v4 where "v4 \<longleftrightarrow> ipv6_addr_v4mapped a \<or> ipv6_addr_is_isatap a"
  define rng :: nat where "rng = (if v4 then 6 else 8)"
  obtain l cp where run: "longest_run a rng = (l, cp)" by (cases "longest_run a rng")
  obtain cs nc where emit: "ip6_emit a rng l cp 0 False = (cs, nc)" by (cases "ip6_emit a rng l cp 0 False")
  have "length cs + 1 \<le> 5 * rng" using ip6_emit_length [of a rng l cp 0 False] emit by (simp add: rng_def split: if_splits)
  moreover have "length (ip4_string (drop 12 a) False) \<le> 15"
    using ip4_loop_length [of 0 "take 4 (drop 12 a)" False] assms by (simp add: ip4_string_def)
  ultimately show ?thesis
    unfolding ip6_compressed_string_def v4_def [symmetric] rng_def [symmetric] Let_def run using emit
    by (auto simp: rng_def split: if_splits)
qed

lemma resource_number_length:
  assumes "- 1 \<le> sint fw" "sint fw \<le> 8" shows "length (number (ucast (v :: u32)) \<lparr>ps_type = FORMAT_TYPE_NONE, ps_flags = SPECIAL OR SMALL OR ZEROPAD,
    ps_width = fw, ps_base = 16, ps_precision = -1, ps_qualifier = 0\<rparr>) \<le> 10"
proof -
  have "unat (ucast v :: u64) < 16 ^ Suc 7" using unat_bound [of v] by (simp add: unat_ucast_up)
  then have "length (digits_of False 16 (unat (ucast v :: u64))) \<le> 8" using digits_of_length [of _ 16 7 False] by simp
  then show ?thesis using assms 
    by (subst length_number) (simp_all add: width_ok_def number_sign_def number_prefix_def number_abs_def)
qed

text \<open>
  C29. The extensions of \<^verbatim>\<open>%p\<close> build their text in arrays on the stack without checking bounds; every one
  fits with its terminating zero. The text of a resource fits its 24 bytes, a MAC address, an IPv4
  address with or without leading zeros, and an IPv6 address in both forms fit the arrays sized after
  the longest example, and the digits of a number of any of the three bases fit \<^verbatim>\<open>tmp[66]\<close>.
\<close>

theorem format_buffers_fit:
  assumes "length mac = 6" and "length ip4 = 4" and "length ip6 = 16" and "base = 8 \<or> base = 10 \<or> base = 16"
  shows "length (resource_sym rstart rend rflags) < 24 \<and>
    length (mac_loop fmt mac 0) < 18 \<and>
    length (ip4_string ip4 zeros) < 16 \<and>
    length (ip6_string ip6 fmt) < 46 \<and> length (ip6_compressed_string ip6) < 46 \<and>
    length (number_tmp base (ucast (flags AND SMALL)) num) \<le> 66"
proof -
  have "length (number_tmp base (ucast (flags AND SMALL)) num) \<le> 66"
    using number_tmp_length [OF assms(4), of flags num] by simp
  moreover have "length (resource_sym rstart rend rflags) < 24"
  proof -
    define fw :: s32 where "fw = (if rflags AND IORESOURCE_IO \<noteq> 0 then 4 else if rflags AND IORESOURCE_MEM \<noteq> 0 then 8 else -1)"
    have "- 1 \<le> sint fw" "sint fw \<le> 8" by (simp_all add: fw_def)
    then show ?thesis
      using resource_number_length [of fw rstart] resource_number_length [of fw rend]
      unfolding resource_sym_def Let_def fw_def [symmetric] by simp
  qed
  moreover have "length (ip4_string ip4 zeros) < 16"
    using ip4_loop_length [of 0 ip4 zeros] assms(2) by (cases "ip4 = []") (simp_all add: ip4_string_def)
  ultimately show ?thesis
    using mac_loop_length [OF assms(1), of fmt] ip6_string_length [OF assms(3), of fmt] ip6_compressed_length [OF assms(3)]
    by simp
qed

theorem format_buffers_fit_witness:
  "length (ip6_compressed_string [0, 0, 0, 0, 0, 0, 0, 0, 0, 0, 0xff, 0xff, 255, 255, 255, 255]) < 46"
  using format_buffers_fit [of "[0, 0, 0, 0, 0, 0]" "[0, 0, 0, 0]" "[0, 0, 0, 0, 0, 0, 0, 0, 0, 0, 0xff, 0xff, 255, 255, 255, 255]" 10]
  by simp

end
