(* ===== verification/Wmt_Env.thy ===== *)
theory Wmt_Env
  imports Crc Strtox
begin

text \<open>
  The boot environment of the board (\<^verbatim>\<open>drivers/mtd/wmt_env.c\<close>): entries \<open>name=value\<close>, each ended by a
  zero byte, the last one by two, in a buffer that is kept in flash. This theory has the search and the
  update of the buffer in memory, as \<^verbatim>\<open>wmt_getsyspara\<close> and \<^verbatim>\<open>wmt_setsyspara\<close> do them, and their relation
  to a list of name/value pairs. Strings given by callers are lists without the final zero; an access
  outside a buffer or past the end of a string is \<^const>\<open>None\<close>.
\<close>

section \<open>Searching\<close>

definition env_get_char :: "u8 list \<Rightarrow> nat \<Rightarrow> u8 option" where
  "env_get_char data index = (if index < length data then Some (data ! index) else None)"

definition env_set_char :: "u8 list \<Rightarrow> nat \<Rightarrow> u8 \<Rightarrow> u8 list option" where
  "env_set_char data index c = (if index < length data then Some (data[index := c]) else None)"

abbreviation EQ :: u8 where "EQ \<equiv> 0x3d"

text \<open>\<^verbatim>\<open>envmatch\<close>: the index of the value, or none (-1) when the names differ. When both strings end
  at once the loop runs on past the end of \<open>s1\<close>.\<close>

fun envmatch :: "u8 list \<Rightarrow> u8 list \<Rightarrow> nat \<Rightarrow> nat option option" where
  "envmatch data [] i2 =
     Option.bind (env_get_char data i2) (\<lambda>c. if c = 0 then None else Some (if c = EQ then Some (i2 + 1) else None))"
| "envmatch data (x # s1) i2 =
     Option.bind (env_get_char data i2) (\<lambda>c.
       if x = c then (if x = EQ then Some (Some (i2 + 1)) else envmatch data s1 (i2 + 1)) else Some None)"

text \<open>The inner loop: the zero byte that ends an entry.\<close>

function scan_nul :: "u8 list \<Rightarrow> nat \<Rightarrow> nat option" where
  "scan_nul data nxt =
     Option.bind (env_get_char data nxt) (\<lambda>c. if c = 0 then Some nxt else scan_nul data (nxt + 1))"
  by pat_completeness auto
termination
  by (relation "measure (\<lambda>(data, nxt). length data - nxt)")
     (auto simp: env_get_char_def split: if_splits)

declare scan_nul.simps [simp del]

text \<open>The outer loop: start, value and end of the first entry with the name.\<close>

lemma scan_nul_bound: "scan_nul data j = Some nxt \<Longrightarrow> j \<le> nxt \<and> nxt < length data"
proof (induction data j rule: scan_nul.induct)
  case (1 data j)
  then show ?case by (subst (asm) (2) scan_nul.simps)
    (auto simp: env_get_char_def split: if_splits dest: Suc_leD)
qed

function find_var :: "u8 list \<Rightarrow> u8 list \<Rightarrow> nat \<Rightarrow> (nat \<times> nat \<times> nat) option option" where
  "find_var data varname j =
     Option.bind (env_get_char data j) (\<lambda>c.
       if c = 0 then Some None
       else case scan_nul data j of
           None \<Rightarrow> None
         | Some nxt \<Rightarrow>
             (case envmatch data varname j of
                None \<Rightarrow> None
              | Some (Some val) \<Rightarrow> Some (Some (j, val, nxt))
              | Some None \<Rightarrow> find_var data varname (nxt + 1)))"
  by pat_completeness auto
termination
  by (relation "measure (\<lambda>(data, varname, j). length data - j)")
     (auto simp: env_get_char_def dest: scan_nul_bound split: if_splits)

declare find_var.simps [simp del]

section \<open>Reading a parameter\<close>

text \<open>The part of \<^verbatim>\<open>wmt_getsyspara\<close> after the buffer is loaded: the return code, the caller's buffer and
  the caller's length. The value is copied before its length is compared with the caller's.\<close>

record getsyspara_result =
  gs_rcode :: nat
  gs_varval :: "u8 list"
  gs_varlen :: int

definition getsyspara_data :: "u8 list \<Rightarrow> u8 list \<Rightarrow> u8 list \<Rightarrow> int \<Rightarrow> getsyspara_result option" where
  "getsyspara_data data varname buf len =
     (case find_var data varname 0 of
        None \<Rightarrow> None
      | Some found \<Rightarrow>
          (let (k, nxt) = (case found of None \<Rightarrow> (0, 0) | Some (j, k, nxt) \<Rightarrow> (k, nxt)); i = nxt - k in
           Option.bind (memcpy buf 0 data k i) (\<lambda>buf1.
           Option.bind (env_set_char buf1 i 0) (\<lambda>buf2.
             if int i > len then Some \<lparr>gs_rcode = 1, gs_varval = buf2, gs_varlen = int i\<rparr>
             else if found = None then Some \<lparr>gs_rcode = 1, gs_varval = buf2, gs_varlen = len\<rparr>
             else Some \<lparr>gs_rcode = 0, gs_varval = buf2, gs_varlen = len\<rparr>))))"

section \<open>Setting a parameter\<close>

definition baudrate_table :: "u32 list" where
  "baudrate_table = [9600, 19200, 38400, 57600, 115200]"

definition baudrate_name :: "u8 list" where
  "baudrate_name = [0x62, 0x61, 0x75, 0x64, 0x72, 0x61, 0x74, 0x65]"

text \<open>The check for the name \<^verbatim>\<open>"baudrate"\<close>; the value may be a null pointer.\<close>

definition baudrate_ok :: "u8 list \<Rightarrow> u8 list option \<Rightarrow> bool option" where
  "baudrate_ok varname varval =
     (if varname = baudrate_name
      then map_option (\<lambda>v. fst (simple_strtoul v 10) \<in> set baudrate_table) varval
      else Some True)"

text \<open>Moving the later entries over the deleted one, up to the double zero.\<close>

function shift_down :: "u8 list \<Rightarrow> nat \<Rightarrow> nat \<Rightarrow> (u8 list \<times> nat) option" where
  "shift_down data env nxt =
     (case env_get_char data nxt of
        None \<Rightarrow> None
      | Some c \<Rightarrow>
          (case env_set_char data env c of
             None \<Rightarrow> None
           | Some data' \<Rightarrow>
               if c \<noteq> 0 then shift_down data' (env + 1) (nxt + 1)
               else (case env_get_char data' (nxt + 1) of
                       None \<Rightarrow> None
                     | Some c' \<Rightarrow> if c' = 0 then Some (data', env) else shift_down data' (env + 1) (nxt + 1))))"
  by pat_completeness auto
termination
  by (relation "measure (\<lambda>(data, env, nxt). length data - nxt)")
     (auto simp: env_get_char_def env_set_char_def split: if_splits)

declare shift_down.simps [simp del]

definition delete_entry :: "u8 list \<Rightarrow> nat \<Rightarrow> nat \<Rightarrow> u8 list option" where
  "delete_entry data env nxt =
     Option.bind (env_get_char data (nxt + 1)) (\<lambda>c.
     Option.bind
       (if c = 0 then (if env > 0 then Some (data, env - 1) else map_option (\<lambda>d. (d, env)) (env_set_char data env 0))
        else shift_down data env (nxt + 1))
       (\<lambda>(data', env'). env_set_char data' (env' + 1) 0))"

text \<open>The double zero at the end of the entries.\<close>

function find_end :: "u8 list \<Rightarrow> nat \<Rightarrow> nat option" where
  "find_end data env =
     (case env_get_char data env of
        None \<Rightarrow> None
      | Some c \<Rightarrow>
          if c \<noteq> 0 then find_end data (env + 1)
          else (case env_get_char data (env + 1) of
                  None \<Rightarrow> None
                | Some c' \<Rightarrow> if c' \<noteq> 0 then find_end data (env + 1) else Some env))"
  by pat_completeness auto
termination
  by (relation "measure (\<lambda>(data, env). length data - env)")
     (auto simp: env_get_char_def split: if_splits)

declare find_end.simps [simp del]

fun store_string :: "u8 list \<Rightarrow> nat \<Rightarrow> u8 list \<Rightarrow> u8 list option" where
  "store_string data env [] = Some data"
| "store_string data env (c # cs) = Option.bind (env_set_char data env c) (\<lambda>d. store_string d (env + 1) cs)"

text \<open>What \<^verbatim>\<open>wmt_setsyspara\<close> does with the buffer: refuse with the buffer as it is (the deletion may
  have happened already), or go on to \<^verbatim>\<open>env_update\<close>. \<open>limit\<close> is \<^verbatim>\<open>ENV_MAX_SIZE\<close>.\<close>

datatype set_result = Refused "u8 list" | Changed "u8 list"

definition append_entry :: "nat \<Rightarrow> u8 list \<Rightarrow> u8 list \<Rightarrow> u8 list \<Rightarrow> set_result option" where
  "append_entry limit data varname val =
     Option.bind (find_end data 0) (\<lambda>e.
       let env = (if e > 0 then e + 1 else e);
           len = int (length varname) + 2 + int (length val) in
       if len > int limit - int env then Some (Refused data)
       else map_option Changed (store_string data env (varname @ EQ # val @ [0, 0])))"

definition setsyspara_data :: "nat \<Rightarrow> u8 list \<Rightarrow> u8 list \<Rightarrow> u8 list option \<Rightarrow> set_result option" where
  "setsyspara_data limit data varname val =
     Option.bind (find_var data varname 0) (\<lambda>old.
     Option.bind (case old of None \<Rightarrow> Some True | Some _ \<Rightarrow> baudrate_ok varname val) (\<lambda>ok.
       if \<not> ok then Some (Refused data)
       else
         Option.bind (case old of None \<Rightarrow> Some data | Some (env, _, nxt) \<Rightarrow> delete_entry data env nxt) (\<lambda>data1.
           case val of
             None \<Rightarrow> Some (if old = None then Refused data1 else Changed data1)
           | Some v \<Rightarrow>
               if v = [] then Some (if old = None then Refused data1 else Changed data1)
               else append_entry limit data1 varname v)))"

section \<open>The environment as a list of pairs\<close>

type_synonym var = "u8 list \<times> u8 list"

definition entry :: "var \<Rightarrow> u8 list" where
  "entry x = fst x @ EQ # snd x @ [0]"

definition body :: "var list \<Rightarrow> u8 list" where
  "body vs = concat (map entry vs)"

definition enc :: "var list \<Rightarrow> u8 list" where
  "enc vs = (if vs = [] then [0, 0] else body vs @ [0])"

definition name_ok :: "u8 list \<Rightarrow> bool" where
  "name_ok n \<longleftrightarrow> 0 \<notin> set n \<and> EQ \<notin> set n"

definition value_ok :: "u8 list \<Rightarrow> bool" where
  "value_ok v \<longleftrightarrow> 0 \<notin> set v"

definition vars_ok :: "var list \<Rightarrow> bool" where
  "vars_ok vs \<longleftrightarrow> (\<forall>(n, v) \<in> set vs. name_ok n \<and> value_ok v)"

definition represents :: "u8 list \<Rightarrow> var list \<Rightarrow> bool" where
  "represents data vs \<longleftrightarrow> (\<exists>rest. data = enc vs @ rest)"

lemma body_simps [simp]: "body [] = []" "body (x # vs) = entry x @ body vs" "body (us @ vs) = body us @ body vs"
  by (simp_all add: body_def)

lemma vars_ok_simps [simp]:
  "vars_ok []" "vars_ok (x # vs) \<longleftrightarrow> name_ok (fst x) \<and> value_ok (snd x) \<and> vars_ok vs"
  "vars_ok (us @ vs) \<longleftrightarrow> vars_ok us \<and> vars_ok vs"
  by (auto simp: vars_ok_def)

lemma entry_neq_Nil [simp]: "entry x \<noteq> []"
  by (simp add: entry_def)

lemma body_eq_Nil [simp]: "body vs = [] \<longleftrightarrow> vs = []"
  by (cases vs) simp_all

text \<open>Every represented buffer is the entries followed by a zero; without entries, by two.\<close>

lemma representsE:
  assumes "represents data vs"
  obtains rest where "data = body vs @ 0 # rest" and "vs = [] \<longrightarrow> rest \<noteq> [] \<and> hd rest = 0"
  using assms by (auto simp: represents_def enc_def split: if_splits)

lemma representsI: "data = body vs @ 0 # rest \<Longrightarrow> (vs = [] \<Longrightarrow> rest \<noteq> [] \<and> hd rest = 0) \<Longrightarrow> represents data vs"
  by (cases rest) (auto simp: represents_def enc_def)

subsection \<open>Reading\<close>

lemma env_get_char_append [simp]: "env_get_char (pre @ c # rest) (length pre) = Some c"
  by (simp add: env_get_char_def)

lemma env_get_char_Suc: "env_get_char (pre @ b # c # rest) (Suc (length pre)) = Some c"
  by (simp add: env_get_char_def nth_append)

lemma envmatch_entry:
  "name_ok name \<Longrightarrow> name_ok n \<Longrightarrow>
   envmatch (pre @ n @ EQ # rest) name (length pre) = Some (if name = n then Some (length pre + length n + 1) else None)"
proof (induction name arbitrary: pre n)
  case Nil
  then show ?case by (cases n) (auto simp: name_ok_def)
next
  case (Cons x xs)
  show ?case
  proof (cases n)
    case Nil
    then show ?thesis using Cons.prems by (auto simp: name_ok_def)
  next
    case (Cons y ys)
    have "envmatch ((pre @ [y]) @ ys @ EQ # rest) xs (length (pre @ [y])) =
        Some (if xs = ys then Some (length (pre @ [y]) + length ys + 1) else None)"
      using Cons.prems \<open>n = y # ys\<close> by (intro Cons.IH) (auto simp: name_ok_def)
    then show ?thesis using Cons.prems \<open>n = y # ys\<close> by (auto simp: name_ok_def)
  qed
qed

lemma scan_nul_append: "0 \<notin> set s \<Longrightarrow> scan_nul (pre @ s @ 0 # rest) (length pre) = Some (length pre + length s)"
proof (induction s arbitrary: pre)
  case Nil
  then show ?case by (subst scan_nul.simps) simp
next
  case (Cons c s)
  from Cons.IH [of "pre @ [c]"] Cons.prems show ?case by (subst scan_nul.simps) auto
qed

lemma find_var_step:
  assumes "name_ok name" and "name_ok n" and "value_ok v"
  shows "find_var (pre @ entry (n, v) @ rest) name (length pre) =
    (if name = n then Some (Some (length pre, length pre + length n + 1, length pre + length n + 1 + length v))
     else find_var (pre @ entry (n, v) @ rest) name (length (pre @ entry (n, v))))"
proof -
  define D where "D = pre @ entry (n, v) @ rest"
  have D: "D = pre @ (n @ EQ # v) @ 0 # rest" by (simp add: D_def entry_def)
  have "scan_nul D (length pre) = Some (length pre + length (n @ EQ # v))"
    unfolding D using assms by (intro scan_nul_append) (auto simp: name_ok_def value_ok_def)
  moreover have "envmatch D name (length pre) = Some (if name = n then Some (length pre + length n + 1) else None)"
    using envmatch_entry [of name n pre "v @ 0 # rest"] assms by (simp add: D)
  moreover have "\<exists>c. env_get_char D (length pre) = Some c \<and> c \<noteq> 0"
    unfolding D using assms by (cases n) (auto simp: name_ok_def)
  ultimately have "find_var D name (length pre) =
    (if name = n then Some (Some (length pre, length pre + length n + 1, length pre + length n + 1 + length v))
     else find_var D name (length (pre @ entry (n, v))))"
    by (subst find_var.simps) (auto simp: entry_def add.assoc)
  then show ?thesis by (simp only: D_def)
qed

lemma find_var_found:
  "name_ok name \<Longrightarrow> value_ok v \<Longrightarrow> vars_ok us \<Longrightarrow> name \<notin> fst ` set us \<Longrightarrow>
   find_var (pre @ body us @ entry (name, v) @ rest) name (length pre) =
     (let j = length pre + length (body us); k = j + length name + 1 in Some (Some (j, k, k + length v)))"
proof (induction us arbitrary: pre)
  case Nil
  then show ?case using find_var_step [of name name v pre rest] by (simp add: Let_def)
next
  case (Cons x us)
  from Cons.IH [of "pre @ entry x"] Cons.prems show ?case
    using find_var_step [of name "fst x" "snd x" pre "body us @ entry (name, v) @ rest"] by (auto simp: Let_def add.assoc)
qed

lemma find_var_missing:
  "name_ok name \<Longrightarrow> vars_ok vs \<Longrightarrow> name \<notin> fst ` set vs \<Longrightarrow>
   find_var (pre @ body vs @ 0 # rest) name (length pre) = Some None"
proof (induction vs arbitrary: pre)
  case Nil
  then show ?case by (subst find_var.simps) simp
next
  case (Cons x vs)
  from Cons.IH [of "pre @ entry x"] Cons.prems show ?case
    using find_var_step [of name "fst x" "snd x" pre "body vs @ 0 # rest"] by auto
qed

text \<open>The first entry with a name splits the list.\<close>

lemma split_first:
  assumes "map_of vs name = Some v"
  obtains us ws where "vs = us @ (name, v) # ws" and "name \<notin> fst ` set us"
  using assms
proof (induction vs arbitrary: thesis)
  case (Cons x vs)
  show ?case
  proof (cases "fst x = name")
    case True
    then show ?thesis using Cons.prems(2) Cons.prems(1) [of "[]" vs] by (cases x) simp
  next
    case False
    then have "map_of vs name = Some v" using Cons.prems(2) by (cases x) simp
    then obtain us ws where "vs = us @ (name, v) # ws" "name \<notin> fst ` set us" using Cons.IH by blast
    then show ?thesis using False Cons.prems(1) [of "x # us" ws] by simp
  qed
qed simp

lemma find_var_represents:
  assumes "represents data vs" and "vars_ok vs" and "name_ok name"
  shows "case map_of vs name of
      None \<Rightarrow> find_var data name 0 = Some None
    | Some v \<Rightarrow> \<exists>j k. find_var data name 0 = Some (Some (j, k, k + length v)) \<and> k + length v < length data \<and>
        take (length v) (drop k data) = v"
proof -
  obtain rest where data: "data = body vs @ 0 # rest" using assms(1) by (rule representsE)
  show ?thesis
  proof (cases "map_of vs name")
    case None
    then have "name \<notin> fst ` set vs" by (simp add: map_of_eq_None_iff)
    then show ?thesis using None data assms(2,3) find_var_missing [of name vs "[]" rest] by simp
  next
    case (Some v)
    then obtain us ws where vs: "vs = us @ (name, v) # ws" "name \<notin> fst ` set us" by (rule split_first)
    define k where "k = length (body us) + length name + 1"
    have "find_var data name 0 = Some (Some (length (body us), k, k + length v))"
      using find_var_found [of name v us "[]" "body ws @ 0 # rest"] assms(2,3) vs data by (simp add: k_def Let_def)
    moreover have "data = (body us @ name @ [EQ]) @ v @ 0 # body ws @ 0 # rest" using data vs by (simp add: entry_def)
    moreover have "k = length (body us @ name @ [EQ])" by (simp add: k_def)
    ultimately show ?thesis using Some by auto
  qed
qed

subsection \<open>Writing\<close>

lemma env_set_char_append: "env_set_char (pre @ c # rest) (length pre) x = Some (pre @ x # rest)"
  by (simp add: env_set_char_def)

text \<open>No two zeros in a row: true of the entries, so the loops stop at the end of the last one only.\<close>

fun no00 :: "u8 list \<Rightarrow> bool" where
  "no00 (c # d # cs) \<longleftrightarrow> (c \<noteq> 0 \<or> d \<noteq> 0) \<and> no00 (d # cs)"
| "no00 _ \<longleftrightarrow> True"

lemma no00_append: "0 \<notin> set s \<Longrightarrow> no00 cs \<Longrightarrow> cs = [] \<or> hd cs \<noteq> 0 \<Longrightarrow> no00 (s @ 0 # cs)"
proof (induction s)
  case Nil
  then show ?case by (cases cs) auto
next
  case (Cons c s)
  then show ?case by (cases s) auto
qed

lemma body_no00: "vars_ok vs \<Longrightarrow> no00 (body vs) \<and> (vs = [] \<or> hd (body vs) \<noteq> 0 \<and> last (body vs) = 0)"
proof (induction vs)
  case (Cons x vs)
  then have IH: "no00 (body vs)" "body vs = [] \<or> hd (body vs) \<noteq> 0" "vs \<noteq> [] \<Longrightarrow> last (body vs) = 0" by auto
  have e: "body (x # vs) = (fst x @ EQ # snd x) @ 0 # body vs" by (simp add: entry_def)
  have "no00 (body (x # vs))" unfolding e using Cons.prems IH
    by (intro no00_append) (auto simp: name_ok_def value_ok_def)
  moreover have "hd (body (x # vs)) \<noteq> 0" using Cons.prems by (cases "fst x") (auto simp: entry_def name_ok_def)
  moreover have "last (body (x # vs)) = 0" unfolding e using IH(3) by (cases "vs = []") auto
  ultimately show ?case by simp
qed simp

lemma shift_down_entries:
  "no00 S \<Longrightarrow> S \<noteq> [] \<Longrightarrow> last S = 0 \<Longrightarrow> B \<noteq> [] \<Longrightarrow>
   shift_down (A @ B @ S @ 0 # R) (length A) (length A + length B) =
     Some (A @ S @ drop (length S) (B @ S) @ 0 # R, length A + length S - 1)"
proof (induction S arbitrary: A B)
  case (Cons c S)
  obtain b B0 where B: "B = b # B0" using Cons.prems by (cases B) auto
  define D where "D = A @ B @ (c # S) @ 0 # R"
  define D' where "D' = (A @ [c]) @ (B0 @ [c]) @ S @ 0 # R"
  have get: "env_get_char D (length A + length B) = Some c"
    using env_get_char_append [of "A @ B" c "S @ 0 # R"] by (simp add: D_def)
  have set: "env_set_char D (length A) c = Some D'" by (simp add: D_def D'_def B env_set_char_append)
  have get': "env_get_char D' (length A + length B + 1) = Some (if S = [] then 0 else hd S)"
    using env_get_char_append [of "A @ c # B0 @ [c]" "if S = [] then 0 else hd S" "tl (S @ 0 # R)"]
    by (cases S) (simp_all add: D'_def B)
  show ?case
  proof (cases "S = []")
    case True
    then have "c = 0" using Cons.prems by simp
    then have "shift_down D (length A) (length A + length B) = Some (D', length A)"
      using get set get' True by (subst shift_down.simps) simp
    then show ?thesis using True \<open>c = 0\<close> by (simp add: D_def D'_def B)
  next
    case False
    then have "c \<noteq> 0 \<or> hd S \<noteq> 0" using Cons.prems by (cases S) auto
    then have "shift_down D (length A) (length A + length B) = shift_down D' (length A + 1) (length A + length B + 1)"
      using get set get' False by (subst shift_down.simps) simp
    also have "\<dots> = Some ((A @ [c]) @ S @ drop (length S) ((B0 @ [c]) @ S) @ 0 # R, length (A @ [c]) + length S - 1)"
      using Cons.IH [of "B0 @ [c]" "A @ [c]"] Cons.prems False B by (cases S) (simp_all add: D'_def)
    finally show ?thesis using False by (simp add: D_def B)
  qed
qed simp

lemma find_end_entries:
  "no00 S \<Longrightarrow> S \<noteq> [] \<Longrightarrow> last S = 0 \<Longrightarrow> find_end (A @ S @ 0 # R) (length A) = Some (length A + length S - 1)"
proof (induction S arbitrary: A)
  case (Cons c S)
  define D where "D = A @ (c # S) @ 0 # R"
  have get: "env_get_char D (length A) = Some c" by (simp add: D_def)
  have get': "env_get_char D (length A + 1) = Some (if S = [] then 0 else hd S)"
    using env_get_char_append [of "A @ [c]" "if S = [] then 0 else hd S" "tl (S @ 0 # R)"] by (cases S) (simp_all add: D_def)
  show ?case
  proof (cases "S = []")
    case True
    then have "find_end D (length A) = Some (length A)" using get get' Cons.prems by (subst find_end.simps) simp
    then show ?thesis using True by (simp add: D_def)
  next
    case False
    then have "c \<noteq> 0 \<or> hd S \<noteq> 0" using Cons.prems by (cases S) auto
    then have "find_end D (length A) = find_end D (length A + 1)"
      using get get' False by (subst find_end.simps) simp
    also have "\<dots> = Some (length (A @ [c]) + length S - 1)"
      using Cons.IH [of "A @ [c]"] Cons.prems False by (cases S) (simp_all add: D_def)
    finally show ?thesis using False by (simp add: D_def)
  qed
qed simp

lemma store_string_append:
  "length cs \<le> length old \<Longrightarrow> store_string (pre @ old) (length pre) cs = Some (pre @ cs @ drop (length cs) old)"
proof (induction cs arbitrary: pre old)
  case (Cons c cs)
  then obtain x xs where "old = x # xs" by (cases old) auto
  then show ?case using Cons.IH [of xs "pre @ [c]"] Cons.prems by (simp add: env_set_char_append)
qed simp

lemma store_string_outside:
  "length data < env + length cs \<Longrightarrow> cs \<noteq> [] \<Longrightarrow> store_string data env cs = None"
proof (induction cs arbitrary: data env)
  case (Cons c cs)
  show ?case
  proof (cases "cs = []")
    case False
    then show ?thesis using Cons.IH [of "data[env := c]" "env + 1"] Cons.prems by (simp add: env_set_char_def)
  qed (use Cons.prems in \<open>simp add: env_set_char_def\<close>)
qed simp

lemma delete_entry_represents:
  assumes data: "data = body us @ entry (n, v) @ body ws @ 0 # rest" and ok: "vars_ok us" "vars_ok ws"
  shows "\<exists>data'. delete_entry data (length (body us)) (length (body us) + length n + 1 + length v) = Some data' \<and>
    represents data' (us @ ws) \<and> length data' = length data"
proof -
  define env nxt where "env = length (body us)" and "nxt = length (body us @ n @ EQ # v)"
  have "\<exists>data'. delete_entry data env nxt = Some data' \<and> represents data' (us @ ws) \<and> length data' = length data"
  proof (cases "ws = []")
    case True
    have d: "data = (body us @ n @ EQ # v) @ 0 # 0 # rest" using data True by (simp add: entry_def)
    have last: "env_get_char data (nxt + 1) = Some 0"
      using env_get_char_Suc [of "body us @ n @ EQ # v" 0 0 rest] by (simp add: d nxt_def)
    obtain e0 e1 es where e: "entry (n, v) = e0 # e1 # es"
      by (cases n; cases "tl (entry (n, v))") (auto simp: entry_def)
    have d2: "data = body us @ e0 # e1 # es @ 0 # rest" using data True e by simp
    have "delete_entry data env nxt = Some (if us = [] then 0 # 0 # es @ 0 # rest else body us @ 0 # e1 # es @ 0 # rest)"
      using last unfolding delete_entry_def d2 by (simp add: env_set_char_def env_def less_imp_diff_less)
    moreover have "represents (if us = [] then 0 # 0 # es @ 0 # rest else body us @ 0 # e1 # es @ 0 # rest) us"
      by (rule representsI [where rest = "(if us = [] then 0 else e1) # es @ 0 # rest"]) auto
    ultimately show ?thesis using True d2 by auto
  next
    case False
    note b = body_no00 [OF ok(2)]
    have nxt: "nxt + 1 = env + length (entry (n, v))" by (simp add: nxt_def env_def entry_def)
    obtain c cs where c: "body ws = c # cs" using False by (cases "body ws") auto
    have "env_get_char data (nxt + 1) = Some (hd (body ws))"
      using env_get_char_append [of "body us @ entry (n, v)" c "cs @ 0 # rest"]
      unfolding nxt by (simp add: data c env_def)
    moreover have "length (drop (length (body ws)) (entry (n, v) @ body ws)) \<noteq> 0"
      unfolding length_drop by simp
    then obtain x xs where x: "drop (length (body ws)) (entry (n, v) @ body ws) = x # xs"
      unfolding length_0_conv neq_Nil_conv by blast
    have "shift_down data env (nxt + 1) = Some (body us @ body ws @ (x # xs) @ 0 # rest, env + length (body ws) - 1)"
      using shift_down_entries [of "body ws" "entry (n, v)" "body us" rest] b False
      unfolding nxt x by (simp add: data env_def)
    moreover have "env + length (body ws) - 1 + 1 = length (body us @ body ws)" using False by (simp add: env_def)
    moreover have "env_set_char (body us @ body ws @ (x # xs) @ 0 # rest) (length (body us @ body ws)) 0 =
        Some (body us @ body ws @ 0 # xs @ 0 # rest)"
      using env_set_char_append [of "body us @ body ws" x "xs @ 0 # rest" 0] by simp
    ultimately have "delete_entry data env nxt = Some (body us @ body ws @ 0 # xs @ 0 # rest)"
      using b False by (simp add: delete_entry_def)
    moreover have "represents (body us @ body ws @ 0 # xs @ 0 # rest) (us @ ws)"
      using False by (intro representsI [where rest = "xs @ 0 # rest"]) auto
    moreover have "length (entry (n, v)) = Suc (length xs)" using arg_cong [OF x, of length] by simp
    ultimately show ?thesis by (simp add: data)
  qed
  then show ?thesis by (simp add: env_def nxt_def add.assoc)
qed

lemma find_end_represents:
  assumes "represents data vs" and "vars_ok vs"
  obtains e where "find_end data 0 = Some e" and "(if e > 0 then e + 1 else e) = length (body vs)"
proof -
  obtain rest where data: "data = body vs @ 0 # rest" and rest: "vs = [] \<longrightarrow> rest \<noteq> [] \<and> hd rest = 0"
    using assms(1) by (rule representsE)
  show thesis
  proof (cases vs)
    case Nil
    then obtain r where "data = 0 # 0 # r" using data rest by (cases rest) auto
    then have "find_end data 0 = Some 0" by (subst find_end.simps) (simp add: env_get_char_def)
    then show thesis using that Nil by simp
  next
    case (Cons x us)
    then have "find_end data 0 = Some (length (body vs) - 1)"
      using find_end_entries [of "body vs" "[]" rest] body_no00 [OF assms(2)] data by simp
    moreover have "length (body vs) \<ge> 2" using Cons by (simp add: entry_def)
    ultimately show thesis by (intro that) auto
  qed
qed

text \<open>Appending: when the entry and both zeros fit the data, and when they do not.\<close>

lemma append_entry_represents:
  assumes "represents data vs" and "vars_ok vs" and "length (body vs) + length n + length v + 3 \<le> length data"
  shows "if length (body vs) + length n + length v + 2 \<le> limit
    then \<exists>data'. append_entry limit data n v = Some (Changed data') \<and> represents data' (vs @ [(n, v)]) \<and> length data' = length data
    else append_entry limit data n v = Some (Refused data)"
proof -
  obtain rest where data: "data = body vs @ 0 # rest" using assms(1) by (rule representsE)
  obtain e where e: "find_end data 0 = Some e" "(if e > 0 then e + 1 else e) = length (body vs)"
    using find_end_represents [OF assms(1,2)] .
  define new where "new = n @ EQ # v @ [0, 0]"
  have len: "length new \<le> length (0 # rest)" using assms(3) by (simp add: new_def data)
  have "store_string data (length (body vs)) new = Some (body vs @ new @ drop (length new) (0 # rest))"
    unfolding data by (rule store_string_append [OF len])
  then have "append_entry limit data n v = (if length (body vs) + length n + length v + 2 \<le> limit
      then Some (Changed (body vs @ new @ drop (length new) (0 # rest))) else Some (Refused data))"
    using e by (auto simp: append_entry_def Let_def new_def)
  moreover have "represents (body vs @ new @ drop (length new) (0 # rest)) (vs @ [(n, v)])"
    by (rule representsI [where rest = "drop (length new) (0 # rest)"]) (simp_all add: new_def entry_def)
  ultimately show ?thesis using len data by auto
qed

lemma append_entry_outside:
  assumes "represents data vs" and "vars_ok vs" and "length data < length (body vs) + length n + length v + 3"
  shows "append_entry limit data n v =
    (if int (length n + 2 + length v) > int limit - int (length (body vs)) then Some (Refused data) else None)"
proof -
  obtain e where e: "find_end data 0 = Some e" "(if e > 0 then e + 1 else e) = length (body vs)"
    using find_end_represents [OF assms(1,2)] .
  have "store_string data (length (body vs)) (n @ EQ # v @ [0, 0]) = None"
    using assms(3) by (intro store_string_outside) simp_all
  then show ?thesis using e by (simp add: append_entry_def Let_def)
qed

section \<open>Reading and setting parameters\<close>

text \<open>A small environment for the examples: \<^verbatim>\<open>a=1\<close>.\<close>

definition example_data :: "u8 list" where
  "example_data = [0x61, EQ, 0x31, 0, 0, 0xff, 0xff, 0xff, 0xff, 0xff]"

lemma example_data_represents: "represents example_data [([0x61], [0x31])] \<and> vars_ok [([0x61], [0x31])]"
  by (simp add: represents_def enc_def example_data_def entry_def name_ok_def value_ok_def)

text \<open>Copying a value that was found, or nothing, to the caller's buffer.\<close>

lemma getsyspara_copy:
  assumes "find_var data name 0 = Some found"
    and "case found of None \<Rightarrow> v = [] | Some (j, k, nxt) \<Rightarrow> nxt = k + length v \<and> nxt < length data \<and> take (length v) (drop k data) = v"
    and "length v < length buf"
  shows "getsyspara_data data name buf len =
    Some \<lparr>gs_rcode = (if int (length v) > len \<or> found = None then 1 else 0), gs_varval = v @ 0 # drop (length v + 1) buf,
          gs_varlen = (if int (length v) > len then int (length v) else len)\<rparr>"
proof -
  have "env_set_char (v @ drop (length v) buf) (length v) 0 = Some (v @ 0 # drop (length v + 1) buf)"
    using assms(3) by (cases "drop (length v) buf") (simp_all add: env_set_char_def drop_Suc tl_drop [symmetric])
  then show ?thesis using assms by (auto simp: getsyspara_data_def memcpy_def Let_def split: option.splits)
qed

text \<open>
  Reading a parameter: in a buffer that holds a list of well-formed entries, \<^verbatim>\<open>wmt_getsyspara\<close> finds
  the first entry with the name and copies its value and a final zero to the caller's buffer; the code
  is 0 exactly when the name is defined and the value not longer than the caller's length, and a value
  that is longer has its length reported. The caller's buffer must have room for value and zero, since
  the length is compared only after copying.
\<close>

theorem getsyspara_value:
  assumes "represents data vs" and "vars_ok vs" and "name_ok name"
    and "length (case map_of vs name of None \<Rightarrow> [] | Some v \<Rightarrow> v) < length buf"
  shows "getsyspara_data data name buf len =
    (let v = (case map_of vs name of None \<Rightarrow> [] | Some v \<Rightarrow> v);
         short = (int (length v) > len) in
     Some \<lparr>gs_rcode = (if short \<or> map_of vs name = None then 1 else 0),
           gs_varval = v @ 0 # drop (length v + 1) buf,
           gs_varlen = (if short then int (length v) else len)\<rparr>)"
  using find_var_represents [OF assms(1-3)] assms(4) by (auto simp: getsyspara_copy Let_def split: option.splits)

theorem getsyspara_value_witness:
  "getsyspara_data example_data [0x61] [9, 9, 9] 3 = Some \<lparr>gs_rcode = 0, gs_varval = [0x31, 0, 9], gs_varlen = 3\<rparr>"
  using getsyspara_value [of example_data "[([0x61], [0x31])]" "[0x61]" "[9, 9, 9]" 3] example_data_represents
  by (simp add: name_ok_def)

text \<open>The list after an update: the first entry with the name is dropped.\<close>

fun drop_var :: "u8 list \<Rightarrow> var list \<Rightarrow> var list" where
  "drop_var name [] = []"
| "drop_var name (x # vs) = (if fst x = name then vs else x # drop_var name vs)"

lemma drop_var_split: "name \<notin> fst ` set us \<Longrightarrow> drop_var name (us @ (name, v) # ws) = us @ ws"
  by (induction us) auto

lemma drop_var_missing: "name \<notin> fst ` set vs \<Longrightarrow> drop_var name vs = vs"
  by (induction vs) auto

lemma vars_ok_drop_var: "vars_ok vs \<Longrightarrow> vars_ok (drop_var name vs)"
  by (induction vs) auto

lemma map_of_drop_var: "name' \<noteq> name \<Longrightarrow> map_of (drop_var name vs) name' = map_of vs name'"
  by (induction vs) (auto simp: fun_upd_def)

text \<open>The state of the buffer between deletion and appending.\<close>

lemma delete_var_represents:
  assumes "represents data vs" and "vars_ok vs" and "name_ok name"
  shows "\<exists>old data1. find_var data name 0 = Some old \<and> (old = None \<longleftrightarrow> map_of vs name = None) \<and>
    (case old of None \<Rightarrow> Some data | Some (env, _, nxt) \<Rightarrow> delete_entry data env nxt) = Some data1 \<and>
    represents data1 (drop_var name vs) \<and> length data1 = length data"
proof (cases "map_of vs name")
  case None
  then have "name \<notin> fst ` set vs" by (simp add: map_of_eq_None_iff)
  then show ?thesis using None find_var_represents [OF assms] assms(1) by (simp add: drop_var_missing)
next
  case (Some v)
  then obtain us ws where vs: "vs = us @ (name, v) # ws" "name \<notin> fst ` set us" by (rule split_first)
  obtain rest where data: "data = body vs @ 0 # rest" using assms(1) by (rule representsE)
  have d: "data = body us @ entry (name, v) @ body ws @ 0 # rest" by (simp add: data vs)
  have "find_var data name 0 = Some (Some (length (body us), length (body us) + length name + 1,
      length (body us) + length name + 1 + length v))"
    using find_var_found [of name v us "[]" "body ws @ 0 # rest"] assms(2,3) vs d by (simp add: Let_def)
  then show ?thesis
    using delete_entry_represents [OF d] assms(2) vs Some by (auto simp: drop_var_split)
qed

lemma setsyspara_steps:
  assumes "represents data vs" and "vars_ok vs" and "name_ok name"
  obtains old :: "(nat \<times> nat \<times> nat) option" and data1 where "old = None \<longleftrightarrow> map_of vs name = None" and "old = None \<longrightarrow> data1 = data"
    and "represents data1 (drop_var name vs)" and "length data1 = length data"
    and "setsyspara_data limit data name val =
      Option.bind (case old of None \<Rightarrow> Some True | Some _ \<Rightarrow> baudrate_ok name val) (\<lambda>ok.
        if \<not> ok then Some (Refused data)
        else case val of
            None \<Rightarrow> Some (if old = None then Refused data1 else Changed data1)
          | Some v \<Rightarrow>
              if v = [] then Some (if old = None then Refused data1 else Changed data1)
              else append_entry limit data1 name v)"
proof -
  obtain old data1 where old: "find_var data name 0 = Some old" "old = None \<longleftrightarrow> map_of vs name = None"
    "(case old of None \<Rightarrow> Some data | Some (env, _, nxt) \<Rightarrow> delete_entry data env nxt) = Some data1"
    and data1: "represents data1 (drop_var name vs)" "length data1 = length data"
    using delete_var_represents [OF assms] by (elim exE conjE) (rule that)
  have same: "old = None \<longrightarrow> data1 = data" using old(3) by auto
  show thesis
    by (rule that [OF old(2) same data1]) (simp only: setsyspara_data_def old(1,3) Option.bind.simps)
qed

text \<open>
  What setting a parameter means on the list of entries, for data of \<open>len\<close> bytes: a new list, with or without an
  error code, or one of the two accesses the code has no right to make.
\<close>

datatype list_result = NullValue | Overrun | RefusedList "var list" | ChangedList "var list"

definition set_var :: "nat \<Rightarrow> nat \<Rightarrow> var list \<Rightarrow> u8 list \<Rightarrow> u8 list option \<Rightarrow> list_result" where
  "set_var limit len vs name val =
     (let old = map_of vs name \<noteq> None;
          v = (case val of None \<Rightarrow> [] | Some v \<Rightarrow> v);
          rest = drop_var name vs;
          need = length (body rest) + length name + length v in
      if old \<and> name = baudrate_name \<and> val = None then NullValue
      else if old \<and> name = baudrate_name \<and> fst (simple_strtoul v 10) \<notin> set baudrate_table then RefusedList vs
      else if v = [] then (if old then ChangedList rest else RefusedList vs)
      else if need + 2 > limit then RefusedList rest
      else if need + 3 \<le> len then ChangedList (rest @ [(name, v)])
      else Overrun)"

lemma length_drop_var: "map_of vs name \<noteq> None \<Longrightarrow> length (drop_var name vs) < length vs"
  by (induction vs) (auto split: if_splits)

lemma append_entry_cases:
  fixes n v :: "u8 list"
  assumes "represents data vs" and "vars_ok vs"
  defines "need \<equiv> length (body vs) + length n + length v"
  shows "need + 2 > limit \<Longrightarrow> append_entry limit data n v = Some (Refused data)"
    "need + 2 \<le> limit \<Longrightarrow> need + 3 \<le> length data \<Longrightarrow> \<exists>data'. append_entry limit data n v = Some (Changed data') \<and>
       represents data' (vs @ [(n, v)]) \<and> length data' = length data"
    "need + 2 \<le> limit \<Longrightarrow> need + 3 > length data \<Longrightarrow> append_entry limit data n v = None"
  using append_entry_represents [OF assms(1,2), of n v limit] append_entry_outside [OF assms(1,2), of n v limit]
  by (cases "need + 3 \<le> length data"; simp add: need_def)+

text \<open>
  C14. Setting a parameter refines that update of the list, on every branch: whatever the name, the value (a null pointer
  included), the size of the data and the limit of the overflow test are, \<^verbatim>\<open>wmt_setsyspara\<close> leaves in the buffer
  entries that represent the new list, so every other name keeps its value. An unsupported baud rate and the
  deletion of an undefined name are refused with the buffer as it was; an empty or missing value deletes; any other value is
  appended behind the remaining entries; a value too long for the overflow test is refused after the old
  entry is gone. The code reads through the null pointer exactly when it clears a defined \<^verbatim>\<open>baudrate\<close> with it, and
  writes past the data exactly when an entry passes the overflow test but does not fit with its two zeros.
\<close>

theorem setsyspara_refines:
  assumes "represents data vs" and "vars_ok vs" and "name_ok name"
  shows "case set_var limit (length data) vs name val of
      NullValue \<Rightarrow> setsyspara_data limit data name val = None
    | Overrun \<Rightarrow> setsyspara_data limit data name val = None
    | RefusedList us \<Rightarrow> \<exists>data'. setsyspara_data limit data name val = Some (Refused data') \<and>
        represents data' us \<and> length data' = length data \<and> (us = vs \<longrightarrow> data' = data)
    | ChangedList us \<Rightarrow> \<exists>data'. setsyspara_data limit data name val = Some (Changed data') \<and>
        represents data' us \<and> length data' = length data"
proof -
  obtain old :: "(nat \<times> nat \<times> nat) option" and data1 where old: "old = None \<longleftrightarrow> map_of vs name = None" and same: "old = None \<longrightarrow> data1 = data"
    and data1: "represents data1 (drop_var name vs)" "length data1 = length data"
    and set: "setsyspara_data limit data name val =
      Option.bind (case old of None \<Rightarrow> Some True | Some _ \<Rightarrow> baudrate_ok name val) (\<lambda>ok.
        if \<not> ok then Some (Refused data)
        else case val of
            None \<Rightarrow> Some (if old = None then Refused data1 else Changed data1)
          | Some v \<Rightarrow>
              if v = [] then Some (if old = None then Refused data1 else Changed data1)
              else append_entry limit data1 name v)"
    by (rule setsyspara_steps [OF assms, where val = val and limit = limit])
  note app = append_entry_cases [OF data1(1) vars_ok_drop_var [OF assms(2)], where n = name and limit = limit, unfolded data1(2)]
  have kept: "drop_var name vs = vs \<longleftrightarrow> old = None"
  proof (cases "map_of vs name")
    case None
    then show ?thesis using old by (simp add: map_of_eq_None_iff drop_var_missing)
  next
    case (Some v)
    then show ?thesis using length_drop_var [of vs name] old by auto
  qed
  show ?thesis
  proof (cases val)
    case None
    then show ?thesis using assms(1) data1 old same unfolding set
      by (cases old) (auto simp: set_var_def baudrate_ok_def Let_def)
  next
    case (Some v)
    define bad where "bad \<longleftrightarrow> map_of vs name \<noteq> None \<and> name = baudrate_name \<and> fst (simple_strtoul v 10) \<notin> set baudrate_table"
    define need where "need = length (body (drop_var name vs)) + length name + length v"
    have new: "setsyspara_data limit data name val = (if bad then Some (Refused data)
        else if v = [] then Some (if old = None then Refused data1 else Changed data1) else append_entry limit data1 name v)"
      using old unfolding set unfolding Some bad_def by (cases old) (simp_all add: baudrate_ok_def)
    have spec: "set_var limit (length data) vs name val = (if bad then RefusedList vs
        else if v = [] then (if old = None then RefusedList vs else ChangedList (drop_var name vs))
        else if need + 2 > limit then RefusedList (drop_var name vs)
        else if need + 3 \<le> length data then ChangedList (drop_var name vs @ [(name, v)]) else Overrun)"
      unfolding set_var_def Some Let_def option.case bad_def need_def old
      by (cases "map_of vs name = None"; simp only: option.distinct simp_thms if_False if_True not_True_eq_False not_False_eq_True)
    note app = app [where v = v, folded need_def]
    show ?thesis
    proof (cases "bad \<or> v = []")
      case True
      then show ?thesis using assms(1) data1 same by (auto simp: new spec)
    next
      case False
      then have "\<not> bad" "v \<noteq> []" by simp_all
      moreover consider "limit < need + 2" | "need + 2 \<le> limit" "need + 3 \<le> length data" | "need + 2 \<le> limit" "length data < need + 3"
        by linarith
      ultimately show ?thesis using data1 same kept app by (cases; simp add: new spec)
    qed
  qed
qed

theorem setsyspara_refines_witness:
  "\<exists>data'. setsyspara_data 15 example_data [0x62] (Some [0x32]) = Some (Changed data') \<and>
     represents data' [([0x61], [0x31]), ([0x62], [0x32])]"
  using setsyspara_refines [of example_data "[([0x61], [0x31])]" "[0x62]" 15 "Some [0x32]"] example_data_represents
  by (auto simp: set_var_def name_ok_def example_data_def entry_def baudrate_name_def)

text \<open>
  The overflow test is too weak: it compares the length of name, value, equal sign and one zero
  with the distance to \<^verbatim>\<open>ENV_MAX_SIZE\<close> bytes after the start of the data, while the data, which follow a
  checksum and a flag, are shorter and two zeros are stored. Whenever the new entry passes the test but
  does not fit, \<^verbatim>\<open>wmt_setsyspara\<close> writes past the end of the data, for a data area of \<open>limit - 5\<close> bytes up to
  six bytes.
\<close>

lemma setsyspara_overflow:
  assumes "represents data vs" and "vars_ok vs" and "name_ok name" and "v \<noteq> []" and "map_of vs name = None"
    and "length data < length (body vs) + length name + length v + 3"
    and "length (body vs) + length name + length v + 2 \<le> limit"
  shows "setsyspara_data limit data name (Some v) = None"
proof -
  have "find_var data name 0 = Some None" using find_var_represents [OF assms(1-3)] assms(5) by simp
  moreover have "append_entry limit data name v = None"
    using append_entry_outside [OF assms(1,2,6), of limit] assms(7) by simp
  ultimately show ?thesis using assms(4) by (simp add: setsyspara_data_def)
qed

lemma setsyspara_overflow_example:
  "setsyspara_data 15 example_data [0x62] (Some [0x32, 0x32, 0x32, 0x32, 0x32, 0x32, 0x32, 0x32]) = None"
  using setsyspara_overflow [of example_data "[([0x61], [0x31])]" "[0x62]" "[0x32, 0x32, 0x32, 0x32, 0x32, 0x32, 0x32, 0x32]" 15]
    example_data_represents
  by (simp add: name_ok_def example_data_def entry_def)

section \<open>A store of parameters\<close>

text \<open>What a client of the environment relies on: a successful update is read back and leaves the
  other names alone. Then a sequence of updates leaves under each name what was written last.\<close>

locale param_store =
  fixes inv :: "'s \<Rightarrow> bool" and key_ok :: "'k \<Rightarrow> bool" and val_ok :: "'v \<Rightarrow> bool"
    and get :: "'s \<Rightarrow> 'k \<Rightarrow> 'v option" and put :: "'k \<Rightarrow> 'v \<Rightarrow> 's \<Rightarrow> 's option"
  assumes put_inv: "inv s \<Longrightarrow> key_ok k \<Longrightarrow> val_ok v \<Longrightarrow> put k v s = Some s' \<Longrightarrow> inv s'"
    and get_put: "inv s \<Longrightarrow> key_ok k \<Longrightarrow> val_ok v \<Longrightarrow> put k v s = Some s' \<Longrightarrow> key_ok k' \<Longrightarrow>
      get s' k' = (if k' = k then Some v else get s k')"
begin

primrec puts :: "('k \<times> 'v) list \<Rightarrow> 's \<Rightarrow> 's option" where
  "puts [] s = Some s"
| "puts (x # xs) s = Option.bind (put (fst x) (snd x) s) (puts xs)"

lemma get_puts:
  "inv s \<Longrightarrow> \<forall>(k, v) \<in> set xs. key_ok k \<and> val_ok v \<Longrightarrow> puts xs s = Some s' \<Longrightarrow> key_ok k' \<Longrightarrow>
   inv s' \<and> get s' k' = (case map_of (rev xs) k' of None \<Rightarrow> get s k' | Some v \<Rightarrow> Some v)"
proof (induction xs arbitrary: s)
  case (Cons x xs)
  obtain s1 where s1: "put (fst x) (snd x) s = Some s1" "puts xs s1 = Some s'"
    using Cons.prems(3) by (auto simp: bind_eq_Some_conv)
  have x: "key_ok (fst x)" "val_ok (snd x)" using Cons.prems(2) by (cases x; simp)+
  from Cons.IH [OF put_inv [OF Cons.prems(1) x s1(1)] _ s1(2) Cons.prems(4)] Cons.prems(2)
  show ?case using get_put [OF Cons.prems(1) x s1(1) Cons.prems(4)]
    by (cases x) (auto simp: map_add_def split: option.splits)
qed simp

end

text \<open>The environment in a buffer of any size and with any limit for the overflow test: its parameters and
  the update with a non-empty value.\<close>

definition env_lookup :: "u8 list \<Rightarrow> u8 list \<Rightarrow> u8 list option" where
  "env_lookup data name =
     (case find_var data name 0 of Some (Some (j, k, nxt)) \<Rightarrow> Some (take (nxt - k) (drop k data)) | _ \<Rightarrow> None)"

definition env_put :: "nat \<Rightarrow> u8 list \<Rightarrow> u8 list \<Rightarrow> u8 list \<Rightarrow> u8 list option" where
  "env_put limit name v data =
     (case setsyspara_data limit data name (Some v) of Some (Changed data') \<Rightarrow> Some data' | _ \<Rightarrow> None)"

lemma env_lookup_represents:
  assumes "represents data vs" and "vars_ok vs" and "name_ok name"
  shows "env_lookup data name = map_of vs name"
  using find_var_represents [OF assms] by (auto simp: env_lookup_def split: option.splits)

lemma env_put_represents:
  assumes "represents data vs" and "vars_ok vs" and "name_ok name" and "v \<noteq> []" and "env_put limit name v data = Some data'"
  shows "represents data' (drop_var name vs @ [(name, v)]) \<and> length data' = length data"
proof -
  obtain old :: "(nat \<times> nat \<times> nat) option" and data1 where "old = None \<longleftrightarrow> map_of vs name = None"
    and "old = None \<longrightarrow> data1 = data" and step: "represents data1 (drop_var name vs)" "length data1 = length data"
    and set: "setsyspara_data limit data name (Some v) =
      Option.bind (case old of None \<Rightarrow> Some True | Some _ \<Rightarrow> baudrate_ok name (Some v)) (\<lambda>ok.
        if \<not> ok then Some (Refused data)
        else case Some v of
            None \<Rightarrow> Some (if old = None then Refused data1 else Changed data1)
          | Some v \<Rightarrow>
              if v = [] then Some (if old = None then Refused data1 else Changed data1)
              else append_entry limit data1 name v)"
    by (rule setsyspara_steps [OF assms(1-3), where val = "Some v" and limit = limit])
  have app: "append_entry limit data1 name v = Some (Changed data')"
    using assms(4,5) unfolding env_put_def set
    by (auto simp: bind_eq_Some_conv split: option.splits set_result.splits if_splits)
  have ok: "vars_ok (drop_var name vs)" using assms(2) by (rule vars_ok_drop_var)
  show ?thesis
  proof (cases "length (body (drop_var name vs)) + length name + length v + 3 \<le> length data1")
    case True
    then show ?thesis using append_entry_represents [OF step(1) ok True, of limit] app step(2) by (auto split: if_splits)
  next
    case False
    then show ?thesis using append_entry_outside [OF step(1) ok, of name v limit] app by (auto split: if_splits)
  qed
qed

lemma env_put_fits:
  assumes "represents data vs" and "vars_ok vs" and "name_ok name" and "v \<noteq> []" and "map_of vs name = None"
    and "length (body vs) + length name + length v + 3 \<le> length data" and "length data \<le> limit"
  shows "\<exists>data'. env_put limit name v data = Some data'"
proof -
  have "find_var data name 0 = Some None" using find_var_represents [OF assms(1-3)] assms(5) by simp
  moreover obtain data' where "append_entry limit data name v = Some (Changed data')"
    using append_entry_represents [OF assms(1,2,6), of limit] assms(6,7) by (auto split: if_splits)
  ultimately show ?thesis using assms(4) by (simp add: env_put_def setsyspara_data_def)
qed

definition env_inv :: "u8 list \<Rightarrow> bool" where
  "env_inv data \<longleftrightarrow> (\<exists>vs. represents data vs \<and> vars_ok vs \<and> distinct (map fst vs))"

definition env_value_ok :: "u8 list \<Rightarrow> bool" where
  "env_value_ok v \<longleftrightarrow> value_ok v \<and> v \<noteq> []"

lemma distinct_drop_var: "distinct (map fst vs) \<Longrightarrow> distinct (map fst (drop_var name vs)) \<and> name \<notin> fst ` set (drop_var name vs)"
proof (induction vs)
  case (Cons x vs)
  have "set (drop_var name vs) \<subseteq> set vs" by (induction vs) auto
  then show ?case using Cons by auto
qed simp

interpretation env: param_store env_inv name_ok env_value_ok env_lookup "env_put limit" for limit
proof
  fix s s' name v name'
  assume "env_inv s" and ok: "name_ok name" "env_value_ok v" and put: "env_put limit name v s = Some s'"
  then obtain vs where vs: "represents s vs" "vars_ok vs" "distinct (map fst vs)" by (auto simp: env_inv_def)
  have v: "v \<noteq> []" "value_ok v" using ok(2) by (simp_all add: env_value_ok_def)
  define vs' where "vs' = drop_var name vs @ [(name, v)]"
  have rep: "represents s' vs'" unfolding vs'_def using env_put_represents [OF vs(1,2) ok(1) v(1) put] ..
  have ok': "vars_ok vs'" "distinct (map fst vs')"
    using vs(2,3) ok(1) v(2) distinct_drop_var [of vs name] by (auto simp: vs'_def vars_ok_drop_var)
  show "env_inv s'" using rep ok' by (auto simp: env_inv_def)
  assume name': "name_ok name'"
  have "map_of (drop_var name vs) name = None"
    using distinct_drop_var [OF vs(3), of name] by (simp add: map_of_eq_None_iff)
  then have "map_of vs' name' = (if name' = name then Some v else map_of vs name')"
    by (auto simp: vs'_def map_of_drop_var map_add_def split: option.splits)
  then show "env_lookup s' name' = (if name' = name then Some v else env_lookup s name')"
    using env_lookup_represents [OF rep ok'(1) name'] env_lookup_represents [OF vs(1,2) name'] by simp
qed

text \<open>
  C38. A sequence of successful updates, starting from a buffer with well-formed entries and no name twice,
  keeps that shape, and reading any name afterwards gives the value it was set to last, or the original
  one if it was not set.
\<close>

theorem env_last_write:
  assumes "env_inv data" and "list_all (\<lambda>x. name_ok (fst x) \<and> env_value_ok (snd x)) xs"
    and "env.puts limit xs data = Some data'" and "name_ok name"
  shows "env_inv data' \<and>
    env_lookup data' name = (case map_of (rev xs) name of None \<Rightarrow> env_lookup data name | Some v \<Rightarrow> Some v)"
proof -
  have "\<forall>(k, v) \<in> set xs. name_ok k \<and> env_value_ok v" using assms(2) by (auto simp: list_all_iff)
  then show ?thesis by (rule env.get_puts [OF assms(1) _ assms(3,4)])
qed

theorem env_last_write_witness:
  "\<exists>data'. env.puts 15 [([0x62], [0x32])] example_data = Some data' \<and> env_lookup data' [0x62] = Some [0x32] \<and>
     env_lookup data' [0x61] = Some [0x31]"
proof -
  have ok: "name_ok [0x61]" "name_ok [0x62]" "env_value_ok [0x32]" by (simp_all add: name_ok_def env_value_ok_def value_ok_def)
  have inv: "env_inv example_data" using example_data_represents
    unfolding env_inv_def by (intro exI [of _ "[([0x61], [0x31])]"]) simp
  obtain data' where "env_put 15 [0x62] [0x32] example_data = Some data'"
    using env_put_fits [OF conjunct1 [OF example_data_represents] conjunct2 [OF example_data_represents] ok(2), of "[0x32]" 15]
    by (auto simp: example_data_def entry_def)
  then have puts: "env.puts 15 [([0x62], [0x32])] example_data = Some data'" by simp
  have "env_lookup example_data [0x61] = Some [0x31]"
    using env_lookup_represents [OF conjunct1 [OF example_data_represents] conjunct2 [OF example_data_represents] ok(1)] by simp
  then show ?thesis
    using puts env_last_write [OF inv _ puts ok(1)] env_last_write [OF inv _ puts ok(2)] ok by auto
qed

end
