(* ===== verification/Wmt_Env_Flash.thy ===== *)
theory Wmt_Env_Flash
  imports Wmt_Env
begin

text \<open>
  The boot environment in flash (\<^verbatim>\<open>drivers/mtd/wmt_env.c\<close>): finding the valid copy at start
  (\<^verbatim>\<open>env_init\<close>), writing a changed one (\<^verbatim>\<open>env_update\<close>) and the two entry points \<^verbatim>\<open>wmt_getsyspara\<close> and
  \<^verbatim>\<open>wmt_setsyspara\<close>. Serial and NOR flash keep two copies, of which one carries the flag 1; NAND flash
  keeps one copy that moves through the blocks of a partition. The build is the one of the board's
  configuration (\<^verbatim>\<open>CONFIG_MTD_WMT_SF\<close>, no \<^verbatim>\<open>CONFIG_MTD_WMT_NOR\<close>).

  The flash is a list of bytes per device: an erased region reads \<open>0xff\<close>, writing can only clear bits, and
  an operation that fails leaves anything in its region, a failing read in its buffer. Which operations fail is given by the record of
  the hardware, as are the strap pins, the success of \<^verbatim>\<open>ioremap\<close> and \<^verbatim>\<open>kmalloc\<close>, and what memory
  holds behind the ends of \<^verbatim>\<open>mtd_table\<close> and \<^verbatim>\<open>boot_partitions\<close>, which the code also reads. A null dereference and a read outside the flash window are \<^const>\<open>None\<close>.
\<close>

section \<open>Devices\<close>

datatype bootflash = SPI_FLASH_TYPE | NAND_FLASH_TYPE | NOR_FLASH_TYPE

record mtd =
  mtd_name :: string
  mtd_size :: nat
  mtd_erasesize :: nat
  mtd_bad :: "nat \<Rightarrow> bool"
  mtd_data :: "u8 list"

record hw =
  hw_strap :: u32
  hw_env_max :: nat
  hw_ioremap :: bool
  hw_kmalloc :: "u8 list option"
  hw_read_ok :: "nat \<Rightarrow> nat \<Rightarrow> bool"
  hw_erase_ok :: "nat \<Rightarrow> nat \<Rightarrow> bool"
  hw_write_ok :: "nat \<Rightarrow> nat \<Rightarrow> bool"
  hw_torn :: "nat \<Rightarrow> nat \<Rightarrow> u8 list"
  hw_beyond :: "nat \<Rightarrow> mtd option"
  hw_past_parts :: "nat \<Rightarrow> (string \<times> nat) option"

text \<open>The static variables of the file, the table of devices and the window on the serial flash.\<close>

record env_state =
  fs_mtd :: "mtd option list"
  fs_raw :: "u8 list"
  env_valid :: nat
  env_invalid :: nat
  nand_block :: nat
  env_valid_offs :: "nat option"
  env_invalid_offs :: "nat option"
  env_ptr :: "u8 list option"

definition ENV_INVALID :: nat where "ENV_INVALID = 0xFF"
definition NAND_ENV_BLK_LENGTH :: nat where "NAND_ENV_BLK_LENGTH = 9"
definition MAX_MTD_DEVICES :: nat where "MAX_MTD_DEVICES = 32"

definition boot_flash :: "u32 \<Rightarrow> bootflash" where
  "boot_flash gpio =
     (let val = drop_bit 1 gpio AND 3 in
      if val = 0 then SPI_FLASH_TYPE else if val = 1 then NAND_FLASH_TYPE
      else if val = 2 then NOR_FLASH_TYPE else SPI_FLASH_TYPE)"

definition SF_UBOOT_ENV1 :: string where "SF_UBOOT_ENV1 = ''u-boot env. cfg. 1-SF''"
definition SF_UBOOT_ENV2 :: string where "SF_UBOOT_ENV2 = ''u-boot env. cfg. 2-SF''"
definition NAND_UBOOT_ENV1 :: string where "NAND_UBOOT_ENV1 = ''u-boot env. cfg. 1-NAND''"
definition NAND_UBOOT_ENV2 :: string where "NAND_UBOOT_ENV2 = ''u-boot env. cfg. 2-NAND''"
definition NOR_UBOOT_ENV1 :: string where "NOR_UBOOT_ENV1 = ''u-boot env. cfg. 1-NOR''"
definition NOR_UBOOT_ENV2 :: string where "NOR_UBOOT_ENV2 = ''u-boot env. cfg. 2-NOR''"

fun env_name1 :: "bootflash \<Rightarrow> string" where
  "env_name1 SPI_FLASH_TYPE = SF_UBOOT_ENV1"
| "env_name1 NAND_FLASH_TYPE = NAND_UBOOT_ENV1"
| "env_name1 NOR_FLASH_TYPE = NOR_UBOOT_ENV1"

fun env_name2 :: "bootflash \<Rightarrow> string" where
  "env_name2 SPI_FLASH_TYPE = SF_UBOOT_ENV2"
| "env_name2 NAND_FLASH_TYPE = NAND_UBOOT_ENV2"
| "env_name2 NOR_FLASH_TYPE = NOR_UBOOT_ENV2"

definition boot_partitions :: "(string \<times> nat) list" where
  "boot_partitions = [(''filesystem-SF'', 0x00000000), (''kernel-SF'', 0x00D00000), (''u-boot-SF'', 0x00F80000),
     (''u-boot env. cfg. 1-SF'', 0x00FD0000), (''u-boot env. cfg. 2-SF'', 0x00FE0000), (''w-load-SF'', 0x00FF0000)]"

text \<open>\<^verbatim>\<open>mtd_table[i]\<close>; the code also indexes with \<^const>\<open>ENV_INVALID\<close>, behind the end of the table.\<close>

definition mtd_table :: "hw \<Rightarrow> env_state \<Rightarrow> nat \<Rightarrow> mtd option" where
  "mtd_table h fs i = (if i < length (fs_mtd fs) then fs_mtd fs ! i else hw_beyond h i)"

subsection \<open>Flash operations\<close>

definition put_region :: "u8 list \<Rightarrow> nat \<Rightarrow> u8 list \<Rightarrow> u8 list" where
  "put_region flash off bs = take off flash @ bs @ drop (off + length bs) flash"

definition fit :: "nat \<Rightarrow> u8 list \<Rightarrow> u8 list" where
  "fit n bs = take n (bs @ replicate n 0xff)"

definition flash_erase :: "hw \<Rightarrow> nat \<Rightarrow> u8 list \<Rightarrow> nat \<Rightarrow> nat \<Rightarrow> u8 list \<times> bool" where
  "flash_erase h dev flash addr n =
     (if addr + n \<le> length flash
      then if hw_erase_ok h dev addr then (put_region flash addr (replicate n 0xff), True)
           else (put_region flash addr (fit n (hw_torn h dev addr)), False)
      else (flash, False))"

definition flash_write :: "hw \<Rightarrow> nat \<Rightarrow> u8 list \<Rightarrow> nat \<Rightarrow> u8 list \<Rightarrow> u8 list \<times> bool" where
  "flash_write h dev flash addr bs =
     (if addr + length bs \<le> length flash
      then if hw_write_ok h dev addr
           then (put_region flash addr (map2 (AND) (take (length bs) (drop addr flash)) bs), True)
           else (put_region flash addr (fit (length bs) (hw_torn h dev addr)), False)
      else (flash, False))"

definition flash_read :: "hw \<Rightarrow> nat \<Rightarrow> u8 list \<Rightarrow> nat \<Rightarrow> nat \<Rightarrow> u8 list option" where
  "flash_read h dev flash addr n =
     (if addr + n \<le> length flash \<and> hw_read_ok h dev addr then Some (take n (drop addr flash)) else None)"

definition set_mtd_data :: "env_state \<Rightarrow> nat \<Rightarrow> u8 list \<Rightarrow> env_state" where
  "set_mtd_data fs i d = fs\<lparr>fs_mtd := (fs_mtd fs)[i := map_option (\<lambda>m. m\<lparr>mtd_data := d\<rparr>) (fs_mtd fs ! i)]\<rparr>"

text \<open>The erase and write functions of a device of the table; the flag says whether they succeed.\<close>

definition mtd_erase :: "hw \<Rightarrow> env_state \<Rightarrow> nat \<Rightarrow> nat \<Rightarrow> nat \<Rightarrow> (env_state \<times> bool) option" where
  "mtd_erase h fs i addr n =
     map_option (\<lambda>m. let (d, ok) = flash_erase h i (mtd_data m) addr n in (set_mtd_data fs i d, ok)) (mtd_table h fs i)"

definition mtd_write :: "hw \<Rightarrow> env_state \<Rightarrow> nat \<Rightarrow> nat \<Rightarrow> u8 list \<Rightarrow> (env_state \<times> bool) option" where
  "mtd_write h fs i addr bs =
     map_option (\<lambda>m. let (d, ok) = flash_write h i (mtd_data m) addr bs in (set_mtd_data fs i d, ok)) (mtd_table h fs i)"

text \<open>The window on the serial flash before its driver is there counts as a device of its own; its
  erase works on the 64 kB sector of the address.\<close>

definition RAW :: nat where "RAW = 256"

definition spi_flash_sector_erase :: "hw \<Rightarrow> env_state \<Rightarrow> nat \<Rightarrow> env_state \<times> bool" where
  "spi_flash_sector_erase h fs addr =
     (let (d, ok) = flash_erase h RAW (fs_raw fs) (addr div 0x10000 * 0x10000) 0x10000 in (fs\<lparr>fs_raw := d\<rparr>, ok))"

definition spi_flash_sector_write :: "hw \<Rightarrow> env_state \<Rightarrow> nat \<Rightarrow> u8 list \<Rightarrow> env_state \<times> bool" where
  "spi_flash_sector_write h fs addr bs =
     (let (d, ok) = flash_write h RAW (fs_raw fs) addr bs in (fs\<lparr>fs_raw := d\<rparr>, ok))"

section \<open>Images\<close>

text \<open>The checksum, the flag (not on NAND) and the data of a copy.\<close>

definition image_crc :: "u8 list \<Rightarrow> u32" where
  "image_crc img = ucast (img ! 0) OR push_bit 8 (ucast (img ! 1)) OR push_bit 16 (ucast (img ! 2)) OR push_bit 24 (ucast (img ! 3))"

definition image_flags :: "u8 list \<Rightarrow> u8" where
  "image_flags img = img ! 4"

definition hdr_len :: "hw \<Rightarrow> nat" where
  "hdr_len h = (if hw_strap h AND 6 = 2 then 4 else 5)"

definition env_data :: "hw \<Rightarrow> u8 list \<Rightarrow> u8 list" where
  "env_data h img = drop (hdr_len h) img"

definition crc_bytes :: "u32 \<Rightarrow> u8 list" where
  "crc_bytes c = [ucast c, ucast (drop_bit 8 c), ucast (drop_bit 16 c), ucast (drop_bit 24 c)]"

definition crc_good :: "hw \<Rightarrow> u8 list \<Rightarrow> bool" where
  "crc_good h img \<longleftrightarrow> image_crc img = env_crc32 (env_data h img)"

section \<open>\<open>env_init\<close>\<close>

record probe =
  p_env1 :: nat
  p_env2 :: nat
  p_offset1 :: "nat option"
  p_offset2 :: "nat option"
  p_count :: nat

definition probe_part :: "nat \<Rightarrow> string \<times> nat \<Rightarrow> probe \<Rightarrow> probe" where
  "probe_part i part p =
     (if fst part = SF_UBOOT_ENV1 then p\<lparr>p_offset1 := Some (snd part), p_env1 := i, p_count := p_count p + 1\<rparr>
      else if fst part = SF_UBOOT_ENV2 then p\<lparr>p_offset2 := Some (snd part), p_env2 := i, p_count := p_count p + 1\<rparr>
      else p)"

definition probe_mtd :: "bootflash \<Rightarrow> nat \<Rightarrow> string \<Rightarrow> probe \<Rightarrow> probe" where
  "probe_mtd bf i name p =
     (if name = env_name1 bf then p\<lparr>p_env1 := i\<rparr> else if name = env_name2 bf then p\<lparr>p_env2 := i\<rparr> else p)"

text \<open>\<^verbatim>\<open>boot_partitions[i]\<close>, also behind the last one, where a name that is no valid pointer is \<^const>\<open>None\<close>.\<close>

definition partition_at :: "hw \<Rightarrow> nat \<Rightarrow> (string \<times> nat) option" where
  "partition_at h i = (if i < length boot_partitions then Some (boot_partitions ! i) else hw_past_parts h i)"

text \<open>The loop over the table.\<close>

fun probe_loop :: "hw \<Rightarrow> env_state \<Rightarrow> bootflash \<Rightarrow> nat list \<Rightarrow> probe \<Rightarrow> probe option" where
  "probe_loop h fs bf [] p = Some p"
| "probe_loop h fs bf (i # is) p =
     (case mtd_table h fs i of
        None \<Rightarrow>
          if bf = SPI_FLASH_TYPE
          then (case partition_at h i of
              None \<Rightarrow> None
            | Some part \<Rightarrow>
                (let p' = probe_part i part p in if p_count p' = 2 then Some p' else probe_loop h fs bf is p'))
          else Some p
      | Some m \<Rightarrow> probe_loop h fs bf is (probe_mtd bf i (mtd_name m) p))"

definition probe0 :: probe where
  "probe0 = \<lparr>p_env1 = ENV_INVALID, p_env2 = ENV_INVALID, p_offset1 = None, p_offset2 = None, p_count = 0\<rparr>"

text \<open>NAND: the inner loop over bad blocks, from the label \<open>next_blk\<close> on. The \<^verbatim>\<open>goto\<close> at the ninth bad block
  leaves \<open>offs\<close> as it is.\<close>

function nand_skip :: "mtd \<Rightarrow> nat \<Rightarrow> nat \<Rightarrow> nat \<times> nat" where
  "nand_skip m offs blk_cnt =
     (if offs < NAND_ENV_BLK_LENGTH * mtd_erasesize m \<and> mtd_bad m offs
      then if blk_cnt + 1 = NAND_ENV_BLK_LENGTH then nand_skip m offs (blk_cnt + 1)
           else nand_skip m (offs + mtd_erasesize m) (blk_cnt + 1)
      else (offs, blk_cnt))"
  by pat_completeness auto
termination
  by (relation "measure (\<lambda>(m, offs, blk_cnt). 2 * (NAND_ENV_BLK_LENGTH * mtd_erasesize m - offs) +
        (if blk_cnt < NAND_ENV_BLK_LENGTH then 1 else 0))")
     (auto simp: NAND_ENV_BLK_LENGTH_def)

declare nand_skip.simps [simp del]

lemma nand_skip_count: "blk_cnt \<le> snd (nand_skip m offs blk_cnt)"
proof (induction m offs blk_cnt rule: nand_skip.induct)
  case (1 m offs blk_cnt)
  then show ?case by (subst nand_skip.simps) (auto dest: Suc_leD)
qed

text \<open>The search: the counter where the copy was found, if any, and the buffer, which holds the last image read,
  or what a failing read leaves in it.\<close>

function nand_search :: "hw \<Rightarrow> nat \<Rightarrow> mtd \<Rightarrow> nat \<Rightarrow> nat \<Rightarrow> u8 list \<Rightarrow> nat option \<times> u8 list" where
  "nand_search h env m offs0 blk_cnt0 buf =
     (case nand_skip m offs0 blk_cnt0 of (offs, blk_cnt) \<Rightarrow>
      if blk_cnt \<ge> NAND_ENV_BLK_LENGTH * 2 then (None, buf)
      else case flash_read h env (mtd_data m) offs (hw_env_max h) of
          None \<Rightarrow> (None, fit (hw_env_max h) (hw_torn h env offs))
        | Some img \<Rightarrow>
            if image_crc img = 0xffffffff \<and> blk_cnt < NAND_ENV_BLK_LENGTH
            then nand_search h env m (if blk_cnt + 1 = NAND_ENV_BLK_LENGTH then 0 else offs + mtd_erasesize m) (blk_cnt + 1) img
            else if crc_good h img then (Some blk_cnt, img)
            else if blk_cnt + 1 < NAND_ENV_BLK_LENGTH * 2
            then nand_search h env m (if blk_cnt + 1 = NAND_ENV_BLK_LENGTH then 0 else offs + mtd_erasesize m) (blk_cnt + 1) img
            else (None, img))"
  by pat_completeness auto
termination
proof (relation "measure (\<lambda>(h, env, m, offs, blk_cnt, buf). 2 * NAND_ENV_BLK_LENGTH - blk_cnt)", goal_cases)
  case (2 h env m offs0 blk_cnt0 buf x y img)
  then show ?case using nand_skip_count [of blk_cnt0 m offs0] by (auto dest: sym)
next
  case (3 h env m offs0 blk_cnt0 buf x y img)
  then show ?case using nand_skip_count [of blk_cnt0 m offs0] by (auto dest: sym)
qed simp

declare nand_search.simps [simp del]

text \<open>Serial and NOR flash: one of the two copies, by the window or by its device. \<open>Ret\<close> is a return of
  \<^verbatim>\<open>env_init\<close>, \<open>Next\<close> the next turn of its loop.\<close>

datatype init_step = Ret nat env_state | Next env_state

definition select_copy :: "probe \<Rightarrow> nat \<Rightarrow> env_state \<Rightarrow> env_state" where
  "select_copy p env fs =
     fs\<lparr>env_valid := env, env_invalid := (if env = p_env1 p then p_env2 p else p_env1 p)\<rparr>"

definition early_copy :: "hw \<Rightarrow> probe \<Rightarrow> nat \<Rightarrow> nat option \<Rightarrow> env_state \<Rightarrow> init_step option" where
  "early_copy h p env offset fs =
     (if \<not> hw_ioremap h then Some (Ret 1 fs)
      else case offset of
          None \<Rightarrow> None
        | Some off \<Rightarrow>
            if off + hw_env_max h \<le> length (fs_raw fs)
            then (let img = take (hw_env_max h) (drop off (fs_raw fs)); fs' = fs\<lparr>env_ptr := Some img\<rparr> in
                  if image_flags img = 1
                  then if crc_good h img
                    then Some (Ret 0 ((select_copy p env fs')
                           \<lparr>env_valid_offs := offset,
                            env_invalid_offs := (if env = p_env1 p then p_offset2 p else p_offset1 p)\<rparr>))
                    else None
                  else Some (Next fs'))
            else None)"

definition init_copy :: "hw \<Rightarrow> probe \<Rightarrow> nat \<Rightarrow> nat option \<Rightarrow> env_state \<Rightarrow> init_step option" where
  "init_copy h p env offset fs =
     (case mtd_table h fs env of
        None \<Rightarrow> if env \<noteq> ENV_INVALID then early_copy h p env offset fs else Some (Ret 1 fs)
      | Some m \<Rightarrow>
          if env = ENV_INVALID then Some (Ret 1 fs)
          else (case flash_read h env (mtd_data m) 0 (hw_env_max h) of
              None \<Rightarrow> Some (Ret 1 (fs\<lparr>env_ptr := Some (fit (hw_env_max h) (hw_torn h env 0))\<rparr>))
            | Some img \<Rightarrow>
                (let fs' = fs\<lparr>env_ptr := Some img\<rparr> in
                 if image_flags img = 1 \<and> crc_good h img then Some (Ret 0 (select_copy p env fs')) else Some (Next fs'))))"

definition env_init_copies :: "hw \<Rightarrow> probe \<Rightarrow> env_state \<Rightarrow> (nat \<times> env_state) option" where
  "env_init_copies h p fs =
     (case init_copy h p (p_env1 p) (p_offset1 p) fs of
        None \<Rightarrow> None
      | Some (Ret rc fs1) \<Rightarrow> Some (rc, fs1)
      | Some (Next fs1) \<Rightarrow>
          (case init_copy h p (p_env2 p) (p_offset2 p) fs1 of
             None \<Rightarrow> None
           | Some (Ret rc fs2) \<Rightarrow> Some (rc, fs2)
           | Some (Next fs2) \<Rightarrow> Some (1, fs2)))"

definition env_init_nand :: "hw \<Rightarrow> probe \<Rightarrow> env_state \<Rightarrow> (nat \<times> env_state) option" where
  "env_init_nand h p fs =
     (let env = p_env1 p in
      case mtd_table h fs env of
        None \<Rightarrow> Some (1, fs)
      | Some m \<Rightarrow>
          if env = ENV_INVALID then Some (1, fs)
          else (case nand_search h env m 0 0 (the (env_ptr fs)) of
              (None, img) \<Rightarrow> Some (1, fs\<lparr>env_ptr := Some img\<rparr>)
            | (Some blk_cnt, img) \<Rightarrow>
                Some (0, fs\<lparr>env_ptr := Some img, env_valid := env, nand_block := blk_cnt mod NAND_ENV_BLK_LENGTH\<rparr>)))"

definition env_init :: "hw \<Rightarrow> env_state \<Rightarrow> (nat \<times> env_state) option" where
  "env_init h fs =
     (let bf = boot_flash (hw_strap h) in
      case probe_loop h fs bf [0..<MAX_MTD_DEVICES] probe0 of
        None \<Rightarrow> None
      | Some p \<Rightarrow> if bf = NAND_FLASH_TYPE then env_init_nand h p fs else env_init_copies h p fs)"

section \<open>\<open>env_update\<close>\<close>

definition seal :: "hw \<Rightarrow> u8 list \<Rightarrow> u8 list" where
  "seal h img = crc_bytes (env_crc32 (env_data h img)) @ drop 4 img"

text \<open>NAND: the next good block after the present one. With an erase size of 0 and a bad block the loop
  does not end.\<close>

function nand_next :: "mtd \<Rightarrow> nat \<Rightarrow> nat \<Rightarrow> (nat \<times> nat option) option" where
  "nand_next m chk_offs offs =
     (if chk_offs < mtd_size m
      then if mtd_bad m offs
        then if mtd_erasesize m = 0 then None
             else nand_next m (chk_offs + mtd_erasesize m)
               (if offs + mtd_erasesize m \<ge> mtd_size m then 0 else offs + mtd_erasesize m)
        else Some (chk_offs + mtd_erasesize m, Some offs)
      else Some (chk_offs, None))"
  by pat_completeness auto
termination
  by (relation "measure (\<lambda>(m, chk_offs, offs). mtd_size m - chk_offs)") auto

declare nand_next.simps [simp del]

definition env_update_nand :: "hw \<Rightarrow> env_state \<Rightarrow> u8 list \<Rightarrow> (nat \<times> env_state) option" where
  "env_update_nand h fs img =
     (case mtd_table h fs (env_valid fs) of
        None \<Rightarrow> None
      | Some m \<Rightarrow>
          let es = mtd_erasesize m;
              orig_block = nand_block fs;
              offs = (if (orig_block + 1) * es \<ge> mtd_size m then 0 else (orig_block + 1) * es) in
          (case nand_next m 0 offs of
             None \<Rightarrow> None
           | Some (chk_offs, blk) \<Rightarrow>
               if chk_offs \<ge> mtd_size m \<or> blk = None then Some (1, fs)
               else
                 Option.bind (mtd_erase h fs (env_valid fs) (the blk) es) (\<lambda>(fs1, ok).
                 if \<not> ok then Some (1, fs1) else
                 Option.bind (mtd_write h fs1 (env_valid fs) (the blk) (take (hw_env_max h) img)) (\<lambda>(fs2, ok).
                 if \<not> ok then Some (1, fs2) else
                 let fs3 = fs2\<lparr>nand_block := the blk div es\<rparr> in
                 Option.bind (mtd_erase h fs3 (env_valid fs) (orig_block * es) es) (\<lambda>(fs4, ok).
                 if \<not> ok then Some (1, fs4) else Some (0, fs4))))))"

definition swap_copies :: "env_state \<Rightarrow> env_state" where
  "swap_copies fs =
     fs\<lparr>env_valid := env_invalid fs, env_invalid := env_valid fs,
        env_valid_offs := env_invalid_offs fs, env_invalid_offs := env_valid_offs fs\<rparr>"

text \<open>Serial flash before its driver is there; the results of the two writes are ignored.\<close>

definition env_update_early :: "hw \<Rightarrow> env_state \<Rightarrow> u8 list \<Rightarrow> (nat \<times> env_state) option" where
  "env_update_early h fs img =
     (if \<not> hw_ioremap h then Some (1, fs)
      else case (env_invalid_offs fs, env_valid_offs fs) of
          (Some ioffs, Some voffs) \<Rightarrow>
            (let (fs1, ok) = spi_flash_sector_erase h fs ioffs in
             if \<not> ok then Some (1, fs1)
             else
               let fs2 = fst (spi_flash_sector_write h fs1 ioffs (take (hw_env_max h) img));
                   fs3 = fst (spi_flash_sector_write h fs2 (voffs + 4) [0]) in
               Some (0, swap_copies fs3))
        | _ \<Rightarrow> None)"

definition env_update_mtd :: "hw \<Rightarrow> env_state \<Rightarrow> u8 list \<Rightarrow> (nat \<times> env_state) option" where
  "env_update_mtd h fs img =
     Option.bind (mtd_table h fs (env_invalid fs)) (\<lambda>m.
     Option.bind (mtd_erase h fs (env_invalid fs) 0 (mtd_size m)) (\<lambda>(fs1, ok).
     if \<not> ok then Some (1, fs1) else
     Option.bind (mtd_write h fs1 (env_invalid fs) 0 (take (hw_env_max h) img)) (\<lambda>(fs2, ok).
     if \<not> ok then Some (1, fs2) else
     Option.bind (mtd_write h fs2 (env_valid fs) 4 [0]) (\<lambda>(fs3, ok).
     if \<not> ok then Some (1, fs3) else Some (0, swap_copies fs3)))))"

definition env_update :: "hw \<Rightarrow> env_state \<Rightarrow> (nat \<times> env_state) option" where
  "env_update h fs =
     (case env_ptr fs of
        None \<Rightarrow> None
      | Some img0 \<Rightarrow>
          let bf = boot_flash (hw_strap h); img = seal h img0; fs = fs\<lparr>env_ptr := Some img\<rparr> in
          if bf = NAND_FLASH_TYPE then env_update_nand h fs img
          else if mtd_table h fs (env_invalid fs) = None \<and> env_invalid fs \<noteq> ENV_INVALID
          then if bf = SPI_FLASH_TYPE then env_update_early h fs img
               else if \<not> hw_ioremap h then Some (1, fs) else None
          else env_update_mtd h fs img)"

section \<open>The entry points\<close>

text \<open>Loading the buffer, if there is none yet. A failing \<^verbatim>\<open>env_init\<close> leaves the buffer in place.\<close>

definition load_env :: "hw \<Rightarrow> env_state \<Rightarrow> (nat \<times> env_state) option" where
  "load_env h fs =
     (if env_ptr fs = None
      then case hw_kmalloc h of
          None \<Rightarrow> Some (1, fs)
        | Some garbage \<Rightarrow> env_init h (fs\<lparr>env_ptr := Some (fit (hw_env_max h) garbage), nand_block := 0\<rparr>)
      else Some (0, fs))"

definition wmt_getsyspara ::
  "hw \<Rightarrow> env_state \<Rightarrow> u8 list \<Rightarrow> u8 list \<Rightarrow> int \<Rightarrow> (getsyspara_result \<times> env_state) option" where
  "wmt_getsyspara h fs varname varval varlen =
     Option.bind (load_env h fs) (\<lambda>(rc, fs').
       if rc \<noteq> 0 then Some (\<lparr>gs_rcode = 1, gs_varval = varval, gs_varlen = varlen\<rparr>, fs')
       else map_option (\<lambda>r. (r, fs')) (getsyspara_data (env_data h (the (env_ptr fs'))) varname varval varlen))"



section \<open>Facts about the flash\<close>

lemma strap_nand: "hw_strap h AND 6 = 2 \<longleftrightarrow> boot_flash (hw_strap h) = NAND_FLASH_TYPE"
proof -
  define g where "g = hw_strap h"
  have "drop_bit 1 (g AND 6) = drop_bit 1 g AND drop_bit 1 6" by (rule drop_bit_and)
  then have 1: "g AND 6 = 2 \<Longrightarrow> drop_bit 1 g AND 3 = 1" by simp
  have "g AND push_bit k m = push_bit k (drop_bit k g AND m)" for k and m :: u32
    by (rule bit_eqI) (auto simp: bit_simps)
  from this [of 1 3] have 2: "drop_bit 1 g AND 3 = 1 \<Longrightarrow> g AND 6 = 2" by simp
  show ?thesis using 1 2 unfolding g_def boot_flash_def Let_def by auto
qed

lemma length_put_region [simp]: "off + length bs \<le> length flash \<Longrightarrow> length (put_region flash off bs) = length flash"
  by (simp add: put_region_def)

lemma take_put_region_0: "length bs \<le> length flash \<Longrightarrow> n \<le> length bs \<Longrightarrow> take n (put_region flash 0 bs) = take n bs"
  by (simp add: put_region_def)

lemma length_fit [simp]: "length (fit n bs) = n"
  by (simp add: fit_def)

lemma length_flash_erase [simp]: "length (fst (flash_erase h dev flash addr n)) = length flash"
  by (simp add: flash_erase_def)

lemma length_flash_write [simp]: "length (fst (flash_write h dev flash addr bs)) = length flash"
  by (simp add: flash_write_def)

lemma map2_and_ff: "map2 (AND) (replicate (length bs) 0xff) bs = (bs :: u8 list)"
proof (induction bs)
  case (Cons b bs)
  have "0xff AND b = b" by (rule bit_eqI) (auto simp: bit_simps bit_0xff)
  then show ?case using Cons by simp
qed simp

lemma hdr_len_copies: "boot_flash (hw_strap h) \<noteq> NAND_FLASH_TYPE \<Longrightarrow> hdr_len h = 5"
  by (simp add: hdr_len_def strap_nand)

lemma image_crc_seal: "image_crc (crc_bytes c @ rest) = c"
proof -
  have "image_crc (crc_bytes c @ rest) =
      ucast (ucast c :: u8) OR push_bit 8 (ucast (ucast (drop_bit 8 c) :: u8)) OR
      push_bit 16 (ucast (ucast (drop_bit 16 c) :: u8)) OR push_bit 24 (ucast (ucast (drop_bit 24 c) :: u8))"
    by (simp add: image_crc_def crc_bytes_def numeral_2_eq_2 numeral_3_eq_3)
  also have "\<dots> = c"
  proof (rule bit_word_eqI)
    fix n
    assume "n < LENGTH(32)"
    then show "bit (ucast (ucast c :: u8) OR push_bit 8 (ucast (ucast (drop_bit 8 c) :: u8)) OR
      push_bit 16 (ucast (ucast (drop_bit 16 c) :: u8)) OR push_bit 24 (ucast (ucast (drop_bit 24 c) :: u8)) :: u32) n \<longleftrightarrow> bit c n"
      by (cases "24 \<le> n"; cases "16 \<le> n") (auto simp: bit_simps)
  qed
  finally show ?thesis .
qed

text \<open>The copy of the environment on a device, and what \<^verbatim>\<open>env_init\<close> accepts.\<close>

definition copy_at :: "hw \<Rightarrow> env_state \<Rightarrow> nat \<Rightarrow> u8 list" where
  "copy_at h fs i = (case mtd_table h fs i of None \<Rightarrow> [] | Some m \<Rightarrow> take (hw_env_max h) (mtd_data m))"

definition accepted :: "hw \<Rightarrow> u8 list \<Rightarrow> bool" where
  "accepted h img \<longleftrightarrow> image_flags img = 1 \<and> crc_good h img"

text \<open>A device that can hold a copy.\<close>

definition holds_copy :: "hw \<Rightarrow> env_state \<Rightarrow> nat \<Rightarrow> bool" where
  "holds_copy h fs i \<longleftrightarrow> i < length (fs_mtd fs) \<and> i \<noteq> ENV_INVALID \<and>
     (\<exists>m. fs_mtd fs ! i = Some m \<and> mtd_size m = length (mtd_data m) \<and> hw_env_max h \<le> mtd_size m)"

lemma holds_copyE:
  assumes "holds_copy h fs i"
  obtains m where "mtd_table h fs i = Some m" and "i < length (fs_mtd fs)" and "i \<noteq> ENV_INVALID"
    and "mtd_size m = length (mtd_data m)" and "hw_env_max h \<le> length (mtd_data m)"
  using assms by (auto simp: holds_copy_def mtd_table_def)

lemma mtd_table_set_data:
  assumes "i < length (fs_mtd fs)"
  shows "mtd_table h (set_mtd_data fs i d) j = (if j = i then map_option (\<lambda>m. m\<lparr>mtd_data := d\<rparr>) (mtd_table h fs i) else mtd_table h fs j)"
  using assms by (auto simp: mtd_table_def set_mtd_data_def)

lemma holds_copy_set_data:
  assumes "holds_copy h fs i" and "mtd_table h fs j = Some m" and "length d = length (mtd_data m)" and "j < length (fs_mtd fs)"
  shows "holds_copy h (set_mtd_data fs j d) i"
  using assms by (cases "i = j") (auto simp: holds_copy_def set_mtd_data_def mtd_table_def)

lemma copy_at_set_data:
  assumes "holds_copy h fs i"
  shows "copy_at h (set_mtd_data fs i d) j = (if j = i then take (hw_env_max h) d else copy_at h fs j)"
  using assms by (auto simp: copy_at_def mtd_table_set_data elim: holds_copyE)

text \<open>Probing looks at names only.\<close>

lemma probe_loop_names:
  "hw_past_parts h' = hw_past_parts h \<Longrightarrow>
   (\<And>i. i \<in> set is \<Longrightarrow> map_option mtd_name (mtd_table h' fs' i) = map_option mtd_name (mtd_table h fs i)) \<Longrightarrow>
   probe_loop h' fs' bf is p = probe_loop h fs bf is p"
proof (induction "is" arbitrary: p)
  case (Cons i "is")
  have "map_option mtd_name (mtd_table h' fs' i) = map_option mtd_name (mtd_table h fs i)" using Cons.prems by simp
  moreover have "partition_at h' i = partition_at h i" using Cons.prems by (simp add: partition_at_def)
  ultimately show ?case using Cons
    by (cases bf; cases "mtd_table h fs i"; cases "mtd_table h' fs' i"; cases "partition_at h i") (simp_all add: Let_def)
qed simp

section \<open>Serial and NOR flash with its driver\<close>

text \<open>The devices for the two copies are there and found by probing.\<close>

definition copies_ok :: "hw \<Rightarrow> probe \<Rightarrow> env_state \<Rightarrow> bool" where
  "copies_ok h p fs \<longleftrightarrow> boot_flash (hw_strap h) \<noteq> NAND_FLASH_TYPE \<and> 5 \<le> hw_env_max h \<and>
     length (fs_mtd fs) = MAX_MTD_DEVICES \<and> p_env1 p \<noteq> p_env2 p \<and>
     holds_copy h fs (p_env1 p) \<and> holds_copy h fs (p_env2 p) \<and>
     probe_loop h fs (boot_flash (hw_strap h)) [0..<MAX_MTD_DEVICES] probe0 = Some p"

lemma copies_ok_set_data:
  assumes "copies_ok h p fs" and "mtd_table h fs j = Some m" and "length d = length (mtd_data m)" and "j < length (fs_mtd fs)"
  shows "copies_ok h p (set_mtd_data fs j d)"
proof -
  have "probe_loop h (set_mtd_data fs j d) bf [0..<MAX_MTD_DEVICES] probe0 = probe_loop h fs bf [0..<MAX_MTD_DEVICES] probe0" for bf
    using assms(2,4) by (intro probe_loop_names) (simp_all add: mtd_table_set_data)
  then show ?thesis using assms holds_copy_set_data [OF _ assms(2-4)]
    by (auto simp: copies_ok_def) (simp add: set_mtd_data_def)
qed

text \<open>The state after power was lost, and hardware that reads and allocates without failure.\<close>

definition reboot :: "env_state \<Rightarrow> env_state" where
  "reboot fs = fs\<lparr>env_valid := ENV_INVALID, env_invalid := ENV_INVALID, nand_block := 0,
     env_valid_offs := Some 0, env_invalid_offs := Some 0, env_ptr := None\<rparr>"

definition readable :: "hw \<Rightarrow> hw \<Rightarrow> bool" where
  "readable h h' \<longleftrightarrow> hw_strap h' = hw_strap h \<and> hw_env_max h' = hw_env_max h \<and> hw_kmalloc h' \<noteq> None \<and>
     hw_past_parts h' = hw_past_parts h \<and> (\<forall>d a. hw_read_ok h' d a)"

lemma init_copy_device:
  assumes "holds_copy h fs env" and "readable h h'"
  shows "init_copy h' p env off fs =
    (let fs' = fs\<lparr>env_ptr := Some (copy_at h fs env)\<rparr> in
     if accepted h (copy_at h fs env) then Some (Ret 0 (select_copy p env fs')) else Some (Next fs'))"
proof -
  obtain m where m: "mtd_table h fs env = Some m" "env < length (fs_mtd fs)" "env \<noteq> ENV_INVALID"
    "hw_env_max h \<le> length (mtd_data m)" using assms(1) by (rule holds_copyE)
  then have "mtd_table h' fs env = Some m" by (simp add: mtd_table_def)
  moreover have "crc_good h' = crc_good h"
    using assms(2) by (simp add: fun_eq_iff crc_good_def env_data_def hdr_len_def readable_def)
  ultimately show ?thesis using m assms(2)
    by (simp add: init_copy_def copy_at_def accepted_def flash_read_def readable_def Let_def)
qed

lemma load_reboot:
  assumes "copies_ok h p fs" and "readable h h'"
  shows "\<exists>fs'. fs_mtd fs' = fs_mtd fs \<and>
    (if accepted h (copy_at h fs (p_env1 p))
     then load_env h' (reboot fs) = Some (0, fs') \<and> env_ptr fs' = Some (copy_at h fs (p_env1 p)) \<and>
       env_valid fs' = p_env1 p \<and> env_invalid fs' = p_env2 p
     else if accepted h (copy_at h fs (p_env2 p))
     then load_env h' (reboot fs) = Some (0, fs') \<and> env_ptr fs' = Some (copy_at h fs (p_env2 p)) \<and>
       env_valid fs' = p_env2 p \<and> env_invalid fs' = p_env1 p
     else load_env h' (reboot fs) = Some (1, fs') \<and> env_ptr fs' = Some (copy_at h fs (p_env2 p)))"
proof -
  obtain g where g: "hw_kmalloc h' = Some g" using assms(2) by (auto simp: readable_def)
  define fs1 where "fs1 = (reboot fs)\<lparr>env_ptr := Some (fit (hw_env_max h') g), nand_block := 0\<rparr>"
  have tab: "fs_mtd fs1 = fs_mtd fs" by (simp add: fs1_def reboot_def)
  have same: "holds_copy h f i = holds_copy h fs i" "mtd_table h f i = mtd_table h fs i" "copy_at h f i = copy_at h fs i"
    if "fs_mtd f = fs_mtd fs" for f i
    using that by (simp_all add: holds_copy_def mtd_table_def copy_at_def)
  have "probe_loop h' fs1 bf [0..<MAX_MTD_DEVICES] probe0 = probe_loop h fs bf [0..<MAX_MTD_DEVICES] probe0" for bf
    using assms by (intro probe_loop_names) (auto simp: mtd_table_def tab copies_ok_def readable_def)
  then have load: "load_env h' (reboot fs) = env_init_copies h' p fs1"
    using assms g by (simp add: load_env_def reboot_def env_init_def copies_ok_def readable_def Let_def fs1_def)
  have hold: "holds_copy h fs (p_env1 p)" "holds_copy h fs (p_env2 p)" "p_env1 p \<noteq> p_env2 p"
    using assms(1) by (simp_all add: copies_ok_def)
  have i1: "init_copy h' p (p_env1 p) off f = (let f' = f\<lparr>env_ptr := Some (copy_at h fs (p_env1 p))\<rparr> in
      if accepted h (copy_at h fs (p_env1 p)) then Some (Ret 0 (select_copy p (p_env1 p) f')) else Some (Next f'))"
    if "fs_mtd f = fs_mtd fs" for f off
    using init_copy_device [OF _ assms(2), of f "p_env1 p" p off] hold same [OF that] by simp
  have i2: "init_copy h' p (p_env2 p) off f = (let f' = f\<lparr>env_ptr := Some (copy_at h fs (p_env2 p))\<rparr> in
      if accepted h (copy_at h fs (p_env2 p)) then Some (Ret 0 (select_copy p (p_env2 p) f')) else Some (Next f'))"
    if "fs_mtd f = fs_mtd fs" for f off
    using init_copy_device [OF _ assms(2), of f "p_env2 p" p off] hold same [OF that] by simp
  show ?thesis using hold(3)
    by (cases "accepted h (copy_at h fs (p_env1 p))"; cases "accepted h (copy_at h fs (p_env2 p))")
       (simp_all add: load env_init_copies_def i1 [OF tab] i2 tab select_copy_def Let_def)
qed

lemma take_fit: "m \<le> n \<Longrightarrow> take m (fit n bs) = fit m bs"
  by (simp add: fit_def min_def take_append split: nat_diff_split)

text \<open>One operation on a device, seen on the copies.\<close>

lemma set_data_copies:
  assumes "copies_ok h p fs" and "holds_copy h fs i" and "mtd_table h fs i = Some m" and "length d = length (mtd_data m)"
  shows "copies_ok h p (set_mtd_data fs i d) \<and> holds_copy h (set_mtd_data fs i d) i \<and>
    (\<forall>j. copy_at h (set_mtd_data fs i d) j = (if j = i then take (hw_env_max h) d else copy_at h fs j)) \<and>
    mtd_table h (set_mtd_data fs i d) i = Some (m\<lparr>mtd_data := d\<rparr>)"
proof -
  have i: "i < length (fs_mtd fs)" using assms(2) by (simp add: holds_copy_def)
  show ?thesis
    using copies_ok_set_data [OF assms(1,3,4) i] holds_copy_set_data [OF assms(2-4) i] copy_at_set_data [OF assms(2)]
      mtd_table_set_data [OF i] assms(3) by simp
qed

lemma mtd_erase_copy:
  assumes "copies_ok h p fs" and "holds_copy h fs i" and "mtd_table h fs i = Some m"
  shows "\<exists>fs' ok. mtd_erase h fs i 0 (mtd_size m) = Some (fs', ok) \<and> copies_ok h p fs' \<and> holds_copy h fs' i \<and>
    (\<forall>j. j \<noteq> i \<longrightarrow> copy_at h fs' j = copy_at h fs j) \<and>
    (ok \<longrightarrow> (\<exists>m'. mtd_table h fs' i = Some m' \<and> mtd_data m' = replicate (length (mtd_data m')) 0xff)) \<and>
    (\<not> ok \<longrightarrow> copy_at h fs' i = fit (hw_env_max h) (hw_torn h i 0))"
proof -
  have size: "mtd_size m = length (mtd_data m)" "hw_env_max h \<le> length (mtd_data m)"
    using assms(2,3) by (auto elim: holds_copyE)
  define n where "n = length (mtd_data m)"
  define d where "d = (if hw_erase_ok h i 0 then replicate n 0xff else fit n (hw_torn h i 0))"
  have "mtd_erase h fs i 0 (mtd_size m) = Some (set_mtd_data fs i d, hw_erase_ok h i 0)"
    using assms(3) size by (simp add: mtd_erase_def flash_erase_def put_region_def d_def n_def)
  moreover have "length d = length (mtd_data m)" by (simp add: d_def n_def)
  note set_data_copies [OF assms this]
  ultimately show ?thesis using size by (auto simp: d_def n_def take_fit)
qed

lemma mtd_write_copy:
  assumes "copies_ok h p fs" and "holds_copy h fs i" and "mtd_table h fs i = Some m"
    and "mtd_data m = replicate (length (mtd_data m)) 0xff" and "length img = hw_env_max h"
  shows "\<exists>fs' ok. mtd_write h fs i 0 img = Some (fs', ok) \<and> copies_ok h p fs' \<and>
    (\<forall>j. j \<noteq> i \<longrightarrow> copy_at h fs' j = copy_at h fs j) \<and>
    copy_at h fs' i = (if ok then img else fit (hw_env_max h) (hw_torn h i 0))"
proof -
  have size: "hw_env_max h \<le> length (mtd_data m)" using assms(2,3) by (auto elim: holds_copyE)
  have "take (length img) (mtd_data m) = replicate (length img) 0xff"
    using size assms(5) by (subst assms(4)) (simp add: min_absorb1)
  then have and_img: "map2 (AND) (take (length img) (mtd_data m)) img = img" by (simp only: map2_and_ff)
  define bs where "bs = (if hw_write_ok h i 0 then img else fit (length img) (hw_torn h i 0))"
  have "mtd_write h fs i 0 img = Some (set_mtd_data fs i (put_region (mtd_data m) 0 bs), hw_write_ok h i 0)"
    using assms(3,5) size and_img by (simp add: mtd_write_def flash_write_def bs_def)
  moreover have "length bs = hw_env_max h" using assms(5) by (simp add: bs_def)
  moreover from this have "length (put_region (mtd_data m) 0 bs) = length (mtd_data m)" using size by simp
  note set_data_copies [OF assms(1-3) this]
  ultimately show ?thesis using size assms(5)
    by (auto simp: bs_def put_region_def)
qed

lemma mtd_write_flag:
  assumes "copies_ok h p fs" and "holds_copy h fs i"
  shows "\<exists>fs' ok x. mtd_write h fs i 4 [0] = Some (fs', ok) \<and> copies_ok h p fs' \<and>
    (\<forall>j. j \<noteq> i \<longrightarrow> copy_at h fs' j = copy_at h fs j) \<and>
    copy_at h fs' i = (copy_at h fs i)[4 := x] \<and> (ok \<longrightarrow> x = 0)"
proof -
  obtain m where m: "mtd_table h fs i = Some m" "hw_env_max h \<le> length (mtd_data m)" using assms(2) by (rule holds_copyE)
  have len: "5 \<le> hw_env_max h" using assms(1) by (simp add: copies_ok_def)
  define x where "x = (if hw_write_ok h i 4 then 0 else hd (fit (Suc 0) (hw_torn h i 4)))"
  have fit1: "[hd (fit (Suc 0) bs)] = fit (Suc 0) bs" for bs by (cases bs) (simp_all add: fit_def)
  have "take 1 (drop 4 (mtd_data m)) = [mtd_data m ! 4]" using m(2) len by (simp add: take_Suc_conv_app_nth hd_drop_conv_nth take_Suc)
  then have "mtd_write h fs i 4 [0] = Some (set_mtd_data fs i (put_region (mtd_data m) 4 [x]), hw_write_ok h i 4)"
    using m len by (simp add: mtd_write_def flash_write_def x_def fit1)
  moreover have reg: "put_region (mtd_data m) 4 [x] = (mtd_data m)[4 := x]"
    using m(2) len by (simp add: put_region_def upd_conv_take_nth_drop)
  moreover have "length ((mtd_data m)[4 := x]) = length (mtd_data m)" by simp
  note set_data_copies [OF assms m(1) this]
  moreover have "take (hw_env_max h) ((mtd_data m)[4 := x]) = (copy_at h fs i)[4 := x]"
    using m(1) by (simp add: copy_at_def take_update_swap)
  ultimately show ?thesis by (auto simp: x_def intro!: exI [of _ x])
qed

lemma accepted_flag:
  assumes "5 \<le> length img" and "boot_flash (hw_strap h) \<noteq> NAND_FLASH_TYPE"
  shows "accepted h (img[4 := x]) \<longleftrightarrow> x = 1 \<and> crc_good h img" and "env_data h (img[4 := x]) = env_data h img"
proof -
  show "env_data h (img[4 := x]) = env_data h img"
    using hdr_len_copies [OF assms(2)] by (simp add: env_data_def)
  then show "accepted h (img[4 := x]) \<longleftrightarrow> x = 1 \<and> crc_good h img"
    using assms(1) by (simp add: accepted_def image_flags_def crc_good_def image_crc_def)
qed

lemma accepted_seal:
  assumes "5 \<le> length img" and "img ! 4 = 1" and "boot_flash (hw_strap h) \<noteq> NAND_FLASH_TYPE"
  shows "accepted h (seal h img)" and "env_data h (seal h img) = env_data h img" and "length (seal h img) = length img"
proof -
  have len: "length (crc_bytes c) = 4" for c by (simp add: crc_bytes_def)
  show d: "env_data h (seal h img) = env_data h img"
    using assms(1) hdr_len_copies [OF assms(3)] by (simp add: env_data_def seal_def len)
  show "length (seal h img) = length img" using assms(1) by (simp add: seal_def len)
  have "image_crc (seal h img) = env_crc32 (env_data h img)" by (simp add: seal_def image_crc_seal)
  then show "accepted h (seal h img)"
    using assms(1,2) d by (simp add: accepted_def crc_good_def image_flags_def seal_def nth_append len)
qed

lemma copies_cong:
  assumes "fs_mtd fs' = fs_mtd fs"
  shows "copies_ok h p fs' \<longleftrightarrow> copies_ok h p fs" and "copy_at h fs' i = copy_at h fs i" and "holds_copy h fs' i = holds_copy h fs i"
    and "mtd_table h fs' i = mtd_table h fs i"
proof -
  show tab: "mtd_table h fs' i = mtd_table h fs i" for i using assms by (simp add: mtd_table_def)
  have "probe_loop h fs' bf is q = probe_loop h fs bf is q" for bf "is" q by (rule probe_loop_names) (simp_all add: tab)
  then show "copies_ok h p fs' \<longleftrightarrow> copies_ok h p fs" using assms by (simp add: copies_ok_def holds_copy_def)
qed (use assms in \<open>simp_all add: copy_at_def mtd_table_def holds_copy_def\<close>)

lemma mtd_op_frame:
  assumes "mtd_erase h fs i a n = Some (fs', ok) \<or> mtd_write h fs i a bs = Some (fs', ok)"
  shows "env_valid fs' = env_valid fs \<and> env_invalid fs' = env_invalid fs \<and> env_ptr fs' = env_ptr fs"
  using assms by (auto simp: mtd_erase_def mtd_write_def set_mtd_data_def case_prod_beta Let_def)

text \<open>The three ways \<^verbatim>\<open>env_update\<close> ends: nothing but the old copy and debris, both copies, or the new one only.\<close>

lemma env_update_outcome:
  assumes ok: "copies_ok h p fs" and copies: "{env_valid fs, env_invalid fs} = {p_env1 p, p_env2 p}"
    and img: "env_ptr fs = Some img" "length img = hw_env_max h"
  shows "\<exists>rc fs'. env_update h fs = Some (rc, fs') \<and> copies_ok h p fs' \<and>
    (rc = 1 \<and> copy_at h fs' (env_valid fs) = copy_at h fs (env_valid fs) \<and>
       copy_at h fs' (env_invalid fs) = fit (hw_env_max h) (hw_torn h (env_invalid fs) 0) \<or>
     (\<exists>x. copy_at h fs' (env_invalid fs) = seal h img \<and> copy_at h fs' (env_valid fs) = (copy_at h fs (env_valid fs))[4 := x] \<and>
       (rc = 1 \<or> rc = 0 \<and> x = 0 \<and> env_valid fs' = env_invalid fs \<and> env_invalid fs' = env_valid fs \<and>
          env_ptr fs' = Some (seal h img))))"
proof -
  let ?v = "env_valid fs" and ?i = "env_invalid fs" and ?img = "seal h img"
  define fs0 where "fs0 = fs\<lparr>env_ptr := Some ?img\<rparr>"
  have bf: "boot_flash (hw_strap h) \<noteq> NAND_FLASH_TYPE" "5 \<le> hw_env_max h" using ok by (simp_all add: copies_ok_def)
  have hold: "holds_copy h fs ?v" "holds_copy h fs ?i" "?v \<noteq> ?i" using ok copies by (auto simp: copies_ok_def doubleton_eq_iff)
  have same: "fs_mtd fs0 = fs_mtd fs" by (simp add: fs0_def)
  note cong = copies_cong [OF same]
  obtain m where m: "mtd_table h fs0 ?i = Some m" using hold(2) cong(4) by (auto elim: holds_copyE)
  have len: "length ?img = hw_env_max h" using bf img(2) by (simp add: seal_def crc_bytes_def)
  then have upd: "env_update h fs = env_update_mtd h fs0 ?img"
    using bf img m by (simp add: env_update_def Let_def fs0_def)
  obtain fs1 ok1 where e1: "mtd_erase h fs0 ?i 0 (mtd_size m) = Some (fs1, ok1)" "copies_ok h p fs1" "holds_copy h fs1 ?i"
    "\<forall>j. j \<noteq> ?i \<longrightarrow> copy_at h fs1 j = copy_at h fs0 j"
    "ok1 \<longrightarrow> (\<exists>m'. mtd_table h fs1 ?i = Some m' \<and> mtd_data m' = replicate (length (mtd_data m')) 0xff)"
    "\<not> ok1 \<longrightarrow> copy_at h fs1 ?i = fit (hw_env_max h) (hw_torn h ?i 0)"
    using mtd_erase_copy [of h p fs0 ?i m] ok hold m cong by auto
  have f0: "env_invalid fs0 = ?i" "env_valid fs0 = ?v" by (simp_all add: fs0_def)
  note u = upd env_update_mtd_def f0 m e1(1)
  show ?thesis
  proof (cases ok1)
    case False
    then have "env_update h fs = Some (1, fs1)" by (simp add: u)
    then show ?thesis using False e1 hold(3) cong(2) by auto
  next
    case ok1: True
    then obtain m' where m': "mtd_table h fs1 ?i = Some m'" "mtd_data m' = replicate (length (mtd_data m')) 0xff" using e1(5) by blast
    obtain fs2 ok2 where e2: "mtd_write h fs1 ?i 0 ?img = Some (fs2, ok2)" "copies_ok h p fs2"
      "\<forall>j. j \<noteq> ?i \<longrightarrow> copy_at h fs2 j = copy_at h fs1 j"
      "copy_at h fs2 ?i = (if ok2 then ?img else fit (hw_env_max h) (hw_torn h ?i 0))"
      using mtd_write_copy [OF e1(2,3) m' len] by blast
    show ?thesis
    proof (cases ok2)
      case False
      then have "env_update h fs = Some (1, fs2)" using ok1 len e2(1) by (simp add: u)
      then show ?thesis using False e1 e2 hold(3) cong(2) by auto
    next
      case ok2: True
      have "holds_copy h fs2 ?v" using e2(2) copies by (auto simp: copies_ok_def doubleton_eq_iff)
      then obtain fs3 ok3 x where e3: "mtd_write h fs2 ?v 4 [0] = Some (fs3, ok3)" "copies_ok h p fs3"
        "\<forall>j. j \<noteq> ?v \<longrightarrow> copy_at h fs3 j = copy_at h fs2 j" "copy_at h fs3 ?v = (copy_at h fs2 ?v)[4 := x]" "ok3 \<longrightarrow> x = 0"
        using mtd_write_flag [OF e2(2)] by blast
      have frame: "env_valid fs3 = ?v" "env_invalid fs3 = ?i" "env_ptr fs3 = Some ?img"
        using mtd_op_frame [OF disjI1 [OF e1(1)]] mtd_op_frame [OF disjI2 [OF e2(1)]] mtd_op_frame [OF disjI2 [OF e3(1)]]
        by (simp_all add: fs0_def)
      define fs' where "fs' = (if ok3 then swap_copies fs3 else fs3)"
      have tab: "fs_mtd fs' = fs_mtd fs3" by (simp add: fs'_def swap_copies_def)
      have "env_update h fs = Some (if ok3 then 0 else 1, fs')"
        using e2(1) e3(1) ok1 ok2 len by (simp add: u fs'_def)
      moreover have "copy_at h fs' ?i = ?img" "copy_at h fs' ?v = (copy_at h fs ?v)[4 := x]" "copies_ok h p fs'"
        using copies_cong [OF tab] e1(4) e2(3,4) e3 ok2 hold(3) cong(2) by auto
      ultimately show ?thesis using e3(5) frame by (auto simp: fs'_def swap_copies_def)
    qed
  qed
qed

text \<open>What a start after \<^verbatim>\<open>env_update\<close> loads.\<close>

lemma update_reload:
  assumes ok: "copies_ok h p fs" and copies: "{env_valid fs, env_invalid fs} = {p_env1 p, p_env2 p}"
    and img: "env_ptr fs = Some img" "length img = hw_env_max h" "img ! 4 = 1" and read: "readable h h'"
  shows "\<exists>rc fs'. env_update h fs = Some (rc, fs') \<and> copies_ok h p fs' \<and>
    (rc = 0 \<longrightarrow> (\<exists>fs''. load_env h' (reboot fs') = Some (0, fs'') \<and> fs_mtd fs'' = fs_mtd fs' \<and> env_ptr fs'' = Some (seal h img) \<and>
        {env_valid fs'', env_invalid fs''} = {p_env1 p, p_env2 p})) \<and>
    (accepted h (copy_at h fs (env_valid fs)) \<and> \<not> accepted h (fit (hw_env_max h) (hw_torn h (env_invalid fs) 0)) \<longrightarrow>
      (\<exists>fs'' img'. load_env h' (reboot fs') = Some (0, fs'') \<and> env_ptr fs'' = Some img' \<and>
        env_data h img' \<in> {env_data h (copy_at h fs (env_valid fs)), env_data h img}))"
proof -
  let ?v = "env_valid fs" and ?i = "env_invalid fs" and ?new = "seal h img" and ?old = "copy_at h fs (env_valid fs)"
  have bf: "boot_flash (hw_strap h) \<noteq> NAND_FLASH_TYPE" "5 \<le> hw_env_max h" using ok by (simp_all add: copies_ok_def)
  have new: "accepted h ?new" "env_data h ?new = env_data h img" using accepted_seal [of img h] bf img by simp_all
  have hold: "holds_copy h fs ?v" using ok copies by (auto simp: copies_ok_def doubleton_eq_iff)
  then have "5 \<le> length ?old" using bf by (auto simp: copy_at_def elim!: holds_copyE)
  note old = accepted_flag [OF this bf(1)]
  obtain rc fs' where upd: "env_update h fs = Some (rc, fs')" "copies_ok h p fs'"
    and cases: "rc = 1 \<and> copy_at h fs' ?v = ?old \<and> copy_at h fs' ?i = fit (hw_env_max h) (hw_torn h ?i 0) \<or>
     (\<exists>x. copy_at h fs' ?i = ?new \<and> copy_at h fs' ?v = ?old[4 := x] \<and> (rc = 1 \<or> rc = 0 \<and> x = 0))"
    using env_update_outcome [OF ok copies img(1,2)] by auto
  obtain fs'' where load: "fs_mtd fs'' = fs_mtd fs'" "if accepted h (copy_at h fs' (p_env1 p))
     then load_env h' (reboot fs') = Some (0, fs'') \<and> env_ptr fs'' = Some (copy_at h fs' (p_env1 p)) \<and>
       env_valid fs'' = p_env1 p \<and> env_invalid fs'' = p_env2 p
     else if accepted h (copy_at h fs' (p_env2 p))
     then load_env h' (reboot fs') = Some (0, fs'') \<and> env_ptr fs'' = Some (copy_at h fs' (p_env2 p)) \<and>
       env_valid fs'' = p_env2 p \<and> env_invalid fs'' = p_env1 p
     else load_env h' (reboot fs') = Some (1, fs'') \<and> env_ptr fs'' = Some (copy_at h fs' (p_env2 p))"
    using load_reboot [OF upd(2) read] by blast
  have pair: "?v = p_env1 p \<and> ?i = p_env2 p \<or> ?v = p_env2 p \<and> ?i = p_env1 p" using copies by (auto simp: doubleton_eq_iff)
  have zero: "\<exists>fs''. load_env h' (reboot fs') = Some (0, fs'') \<and> fs_mtd fs'' = fs_mtd fs' \<and> env_ptr fs'' = Some ?new \<and>
      {env_valid fs'', env_invalid fs''} = {p_env1 p, p_env2 p}" if "rc = 0"
  proof -
    have "copy_at h fs' ?i = ?new" "\<not> accepted h (copy_at h fs' ?v)" using cases that old(1) [of 0] by auto
    then show ?thesis using pair load new(1) by (intro exI [of _ fs'']) auto
  qed
  have any: "\<exists>fs'' img'. load_env h' (reboot fs') = Some (0, fs'') \<and> env_ptr fs'' = Some img' \<and>
      env_data h img' \<in> {env_data h ?old, env_data h img}"
    if a: "accepted h ?old" "\<not> accepted h (fit (hw_env_max h) (hw_torn h ?i 0))"
  proof -
    have acc: "accepted h (copy_at h fs' ?v) \<or> accepted h (copy_at h fs' ?i)" using cases a(1) new(1) by auto
    have dat: "accepted h (copy_at h fs' j) \<longrightarrow> env_data h (copy_at h fs' j) \<in> {env_data h ?old, env_data h img}" if "j = ?v \<or> j = ?i" for j
      using cases a old(2) new(2) that by auto
    show ?thesis using acc dat [of ?v] dat [of ?i] pair load(2)
      by (intro exI [of _ fs''] exI [of _ "the (env_ptr fs'')"]) (auto split: if_splits)
  qed
  show ?thesis using upd zero any by blast
qed

text \<open>
  C1. Serial or NOR flash whose MTD driver is loaded, with a device for each of the two copies: an
  update is safe against failures and power loss. Whichever of the erase and write operations of
  \<^verbatim>\<open>env_update\<close> fails, and whatever it leaves in its region, provided that is not itself a copy with
  flag 1 and a right checksum, the next start finds a valid copy, and it holds the old data or the new
  data. When \<^verbatim>\<open>env_update\<close> reports success it holds the new data. NAND flash and the branch for
  serial flash without its driver are outside this statement; for the latter it is false, see
  \<open>env_update_early_loses\<close>.
\<close>

theorem env_update_atomic:
  assumes "copies_ok h p fs" and "{env_valid fs, env_invalid fs} = {p_env1 p, p_env2 p}"
    and "env_ptr fs = Some img" and "length img = hw_env_max h" and "img ! 4 = 1"
    and "accepted h (copy_at h fs (env_valid fs))" and "\<not> accepted h (fit (hw_env_max h) (hw_torn h (env_invalid fs) 0))"
    and "readable h h'"
  shows "\<exists>rc fs' fs'' img'. env_update h fs = Some (rc, fs') \<and> load_env h' (reboot fs') = Some (0, fs'') \<and> env_ptr fs'' = Some img' \<and>
    env_data h img' \<in> {env_data h (copy_at h fs (env_valid fs)), env_data h img} \<and> (rc = 0 \<longrightarrow> env_data h img' = env_data h img)"
proof -
  have "env_data h (seal h img) = env_data h img"
    using assms(1,4,5) accepted_seal(2) [of img h] by (simp add: copies_ok_def)
  then show ?thesis using update_reload [OF assms(1-5,8)] assms(6,7) by (metis option.inject prod.inject)
qed

text \<open>An example: the six partitions of the serial flash, the first copy valid; writing works or not.\<close>

definition example_hw :: "bool \<Rightarrow> hw" where
  "example_hw works = \<lparr>hw_strap = 0, hw_env_max = 15, hw_ioremap = True, hw_kmalloc = Some [], hw_read_ok = (\<lambda>_ _. True),
     hw_erase_ok = (\<lambda>_ _. True), hw_write_ok = (\<lambda>_ _. works), hw_torn = (\<lambda>_ _. []), hw_beyond = (\<lambda>_. None),
     hw_past_parts = (\<lambda>_. Some ([], 0))\<rparr>"

definition example_image :: "u8 list" where
  "example_image = seal (example_hw True) ([0, 0, 0, 0, 1] @ example_data)"

definition example_mtd :: "string \<times> nat \<Rightarrow> mtd" where
  "example_mtd part = \<lparr>mtd_name = fst part, mtd_size = 15, mtd_erasesize = 15, mtd_bad = (\<lambda>_. False),
     mtd_data = (if fst part = SF_UBOOT_ENV1 then example_image else replicate 15 0xff)\<rparr>"

definition example_state :: env_state where
  "example_state = \<lparr>fs_mtd = map (Some \<circ> example_mtd) boot_partitions @ replicate 26 None, fs_raw = [], env_valid = 3,
     env_invalid = 4, nand_block = 0, env_valid_offs = Some 0, env_invalid_offs = Some 0, env_ptr = Some example_image\<rparr>"

definition example_probe :: probe where
  "example_probe = probe0\<lparr>p_env1 := 3, p_env2 := 4\<rparr>"

lemma example_image:
  "length example_image = 15" "example_image ! 4 = 1" "accepted (example_hw w) example_image"
  "env_data (example_hw w) example_image = example_data"
proof -
  define img where "img = [0, 0, 0, 0, 1 :: u8] @ example_data"
  have hw: "boot_flash (hw_strap (example_hw w)) \<noteq> NAND_FLASH_TYPE" for w by (simp add: example_hw_def boot_flash_def)
  have len: "length img = 15" by (simp add: img_def example_data_def)
  have "env_data (example_hw w) = env_data (example_hw True)"
    by (simp add: fun_eq_iff env_data_def hdr_len_def example_hw_def)
  then have seal: "example_image = seal (example_hw w) img" by (simp add: example_image_def img_def seal_def)
  have img4: "img ! 4 = 1" by (simp add: img_def nth_append)
  note acc = accepted_seal [of img "example_hw w", OF _ img4 hw]
  show "length example_image = 15" using acc(3) len seal by simp
  show "example_image ! 4 = 1" using len img4 by (simp add: example_image_def seal_def crc_bytes_def nth_append img_def)
  show "accepted (example_hw w) example_image" using acc(1) len seal by simp
  show "env_data (example_hw w) example_image = example_data"
    using acc(2) len hdr_len_copies [OF hw] unfolding seal by (simp add: env_data_def img_def)
qed

lemma example_probe:
  "probe_loop (example_hw w) example_state SPI_FLASH_TYPE [0..<MAX_MTD_DEVICES] probe0 = Some example_probe"
proof -
  have up: "[0..<MAX_MTD_DEVICES] = [0, 1, 2, 3, 4, 5] @ map (\<lambda>i. 6 + i) [0..<26]"
    by (simp add: MAX_MTD_DEVICES_def upt_rec)
  have rest: "probe_loop (example_hw w) example_state SPI_FLASH_TYPE is p = Some p"
    if "\<forall>i\<in>set is. 6 \<le> i \<and> i < 32" "p_count p = 0" for "is" p
    using that
  proof (induction "is")
    case (Cons i "is")
    then have "mtd_table (example_hw w) example_state i = None"
      by (auto simp: mtd_table_def example_state_def boot_partitions_def nth_append)
    moreover have "partition_at (example_hw w) i = Some ([], 0)"
      using Cons.prems by (simp add: partition_at_def boot_partitions_def example_hw_def)
    ultimately show ?case using Cons by (simp add: probe_part_def SF_UBOOT_ENV1_def SF_UBOOT_ENV2_def)
  qed simp
  have "probe_loop (example_hw w) example_state SPI_FLASH_TYPE ([0, 1, 2, 3, 4, 5] @ is) probe0 =
      probe_loop (example_hw w) example_state SPI_FLASH_TYPE is example_probe" for "is"
    by (simp add: mtd_table_def example_state_def boot_partitions_def example_mtd_def probe_mtd_def
        SF_UBOOT_ENV1_def SF_UBOOT_ENV2_def example_probe_def probe0_def)
  then show ?thesis unfolding up by (simp add: rest example_probe_def probe0_def)
qed

lemma example_copies: "copies_ok (example_hw w) example_probe example_state"
  using example_probe [of w] example_image(1)
  by (simp add: copies_ok_def holds_copy_def boot_flash_def example_hw_def example_state_def example_probe_def probe0_def
      MAX_MTD_DEVICES_def boot_partitions_def example_mtd_def ENV_INVALID_def)

lemma example_copy: "copy_at (example_hw w) example_state 3 = example_image"
  using example_image(1)
  by (simp add: copy_at_def mtd_table_def example_state_def boot_partitions_def example_mtd_def SF_UBOOT_ENV1_def example_hw_def)

theorem env_update_atomic_witness:
  "\<exists>rc fs' fs'' img'. env_update (example_hw False) example_state = Some (rc, fs') \<and>
     load_env (example_hw False) (reboot fs') = Some (0, fs'') \<and> env_ptr fs'' = Some img' \<and> env_data (example_hw False) img' = example_data"
  using env_update_atomic [OF example_copies [of False], of example_image "example_hw False"] example_image example_copy
  by (auto simp: example_state_def example_probe_def example_hw_def readable_def accepted_def image_flags_def fit_def)

section \<open>Serial flash before its driver\<close>

text \<open>The copy at an offset of the window, as \<^const>\<open>early_copy\<close> reads it.\<close>

definition window_copy :: "hw \<Rightarrow> env_state \<Rightarrow> nat \<Rightarrow> u8 list" where
  "window_copy h fs off = take (hw_env_max h) (drop off (fs_raw fs))"

lemma nth_put_region:
  "off + length bs \<le> length flash \<Longrightarrow> i < length flash \<Longrightarrow>
   put_region flash off bs ! i = (if off \<le> i \<and> i < off + length bs then bs ! (i - off) else flash ! i)"
  by (auto simp: put_region_def nth_append)

lemma window_put_region:
  assumes "off + length bs \<le> length flash" and "n \<le> length bs"
  shows "take n (drop off (put_region flash off bs)) = take n bs"
  using assms by (simp add: put_region_def)

lemma window_put_region_other:
  assumes "off + length bs \<le> length flash" and "v + n \<le> length flash" and "v + n \<le> off \<or> off + length bs \<le> v"
  shows "take n (drop v (put_region flash off bs)) = take n (drop v flash)"
  using assms by (intro nth_equalityI) (auto simp: nth_put_region)

text \<open>The results of the two writes are ignored there. When the new copy is not written and the flag of
  the old one is cleared, the update reports success and \<^verbatim>\<open>env_init\<close> accepts neither copy.\<close>

lemma env_update_early_loses:
  assumes "boot_flash (hw_strap h) = SPI_FLASH_TYPE" and "mtd_table h fs (env_invalid fs) = None" and "env_invalid fs \<noteq> ENV_INVALID"
    and "hw_ioremap h" and "env_ptr fs = Some img" and "length img = hw_env_max h" and "5 \<le> hw_env_max h" and "hw_env_max h \<le> 0x10000"
    and "env_invalid_offs fs = Some i" and "env_valid_offs fs = Some v" and "i mod 0x10000 = 0"
    and "v + hw_env_max h \<le> i \<or> i + 0x10000 \<le> v" and "i + 0x10000 \<le> length (fs_raw fs)" and "v + hw_env_max h \<le> length (fs_raw fs)"
    and "hw_erase_ok h RAW i" and "\<not> hw_write_ok h RAW i" and "hw_write_ok h RAW (v + 4)"
    and "\<not> accepted h (fit (hw_env_max h) (hw_torn h RAW i))"
  shows "\<exists>fs'. env_update h fs = Some (0, fs') \<and> \<not> accepted h (window_copy h fs' i) \<and> \<not> accepted h (window_copy h fs' v)"
proof -
  define n where "n = hw_env_max h"
  define raw1 where "raw1 = put_region (fs_raw fs) i (replicate 0x10000 0xff)"
  define raw2 where "raw2 = put_region raw1 i (fit n (hw_torn h RAW i))"
  define raw3 where "raw3 = put_region raw2 (v + 4) [0]"
  define fs' where "fs' = swap_copies (fs\<lparr>env_ptr := Some (seal h img), fs_raw := raw3\<rparr>)"
  have sector: "i div 0x10000 * 0x10000 = i" using assms(11) by (metis add.right_neutral div_mult_mod_eq)
  have sealed: "length (seal h img) = n" using assms(6,7) by (simp add: seal_def crc_bytes_def n_def)
  have len: "length raw1 = length (fs_raw fs)" "length raw2 = length (fs_raw fs)" "length raw3 = length (fs_raw fs)"
    using assms(7,8,13,14) by (simp_all add: raw1_def raw2_def raw3_def n_def)
  have byte: "map2 (AND) (take (length [0]) (drop (v + 4) raw2)) [0] = [0 :: u8]"
    using len(2) assms(7,14) by (cases "drop (v + 4) raw2") auto
  have "spi_flash_sector_erase h f i = (f\<lparr>fs_raw := raw1\<rparr>, True)" if "fs_raw f = fs_raw fs" for f
    using that assms(13,15) by (simp add: spi_flash_sector_erase_def sector flash_erase_def raw1_def)
  moreover have "fst (spi_flash_sector_write h f i (take n (seal h img))) = f\<lparr>fs_raw := raw2\<rparr>" if "fs_raw f = raw1" for f
    using that assms(8,13,16) len(1) sealed by (simp add: spi_flash_sector_write_def flash_write_def raw2_def n_def)
  moreover have "fst (spi_flash_sector_write h f (v + 4) [0]) = f\<lparr>fs_raw := raw3\<rparr>" if "fs_raw f = raw2" for f
    using that assms(7,14,17) len(2) byte by (simp add: spi_flash_sector_write_def flash_write_def raw3_def)
  moreover have "mtd_table h (fs\<lparr>env_ptr := Some (seal h img)\<rparr>) (env_invalid fs) = None" using assms(2) by (simp add: mtd_table_def split: if_splits)
  ultimately have upd: "env_update h fs = Some (0, fs')"
    using assms(1,3-5,9,10) by (simp add: env_update_def env_update_early_def fs'_def n_def Let_def)
  have "take n (drop i raw3) = take n (drop i raw2)"
    unfolding raw3_def using assms(7,8,12-14) len(2) by (intro window_put_region_other) (auto simp: n_def)
  also have "\<dots> = fit n (hw_torn h RAW i)"
    unfolding raw2_def using assms(8,13) len(1) by (subst window_put_region) (auto simp: n_def)
  finally have "\<not> accepted h (window_copy h fs' i)" using assms(18) by (simp add: window_copy_def fs'_def swap_copies_def n_def)
  moreover have "window_copy h fs' v ! 4 = 0"
    using assms(7,14) len by (simp add: window_copy_def fs'_def swap_copies_def raw3_def nth_put_region)
  ultimately show ?thesis using upd by (auto simp: accepted_def image_flags_def)
qed

section \<open>Parameters across a restart\<close>














section \<open>What the code does not handle\<close>

text \<open>With the driver loaded, probing for serial flash goes on behind the devices and reads the names of
  partitions that do not exist.\<close>

lemma probe_loop_prefix:
  "(\<And>i. i \<in> set is \<Longrightarrow> mtd_table h fs i \<noteq> None) \<Longrightarrow> \<exists>p'. probe_loop h fs bf (is @ js) p = probe_loop h fs bf js p'"
proof (induction "is" arbitrary: p)
  case (Cons i "is")
  obtain m where "mtd_table h fs i = Some m" using Cons.prems [of i] by auto
  then show ?case using Cons by simp
qed auto

lemma env_init_past_partitions:
  assumes "boot_flash (hw_strap h) = SPI_FLASH_TYPE" and "\<And>i. i < n \<Longrightarrow> mtd_table h fs i \<noteq> None" and "mtd_table h fs n = None"
    and "6 \<le> n" and "n < MAX_MTD_DEVICES" and "hw_past_parts h n = None"
  shows "env_init h fs = None"
proof -
  have "[0..<MAX_MTD_DEVICES] = [0..<n] @ n # [Suc n..<MAX_MTD_DEVICES]"
    using assms(5) upt_add_eq_append [of 0 n "MAX_MTD_DEVICES - n"] by (simp add: upt_conv_Cons)
  moreover have "partition_at h n = None" using assms(4,6) by (simp add: partition_at_def boot_partitions_def)
  ultimately show ?thesis
    using assms(1,3) probe_loop_prefix [of "[0..<n]" h fs SPI_FLASH_TYPE "n # [Suc n..<MAX_MTD_DEVICES]" probe0] assms(2)
    by (auto simp: env_init_def)
qed

text \<open>After a failed start the buffer stays, and later calls use what was read last, unverified.\<close>

lemma failed_init_buffer:
  assumes "copies_ok h p fs" and "readable h h'" and "\<not> accepted h (copy_at h fs (p_env1 p))" and "\<not> accepted h (copy_at h fs (p_env2 p))"
  shows "\<exists>fs'. load_env h' (reboot fs) = Some (1, fs') \<and>
    wmt_getsyspara h' fs' name buf len =
      map_option (\<lambda>r. (r, fs')) (getsyspara_data (env_data h' (copy_at h fs (p_env2 p))) name buf len)"
proof -
  obtain fs' where "load_env h' (reboot fs) = Some (1, fs')" "env_ptr fs' = Some (copy_at h fs (p_env2 p))"
    using load_reboot [OF assms(1,2)] assms(3,4) by auto
  then show ?thesis by (intro exI [of _ fs']) (simp add: wmt_getsyspara_def load_env_def)
qed

text \<open>When all nine blocks are bad, the second pass of the search starts behind them, not at the first.\<close>

lemma nand_skip_bad:
  assumes "\<And>k. k < 9 \<Longrightarrow> mtd_bad m (k * mtd_erasesize m)" and "0 < mtd_erasesize m"
  shows "k \<le> 8 \<Longrightarrow> nand_skip m (k * mtd_erasesize m) k = (9 * mtd_erasesize m, 10)"
proof (induction "8 - k" arbitrary: k)
  case 0
  then have "k = 8" by simp
  moreover have "nand_skip m (8 * mtd_erasesize m) 9 = nand_skip m (9 * mtd_erasesize m) 10"
    using assms(1) [of 8] assms(2) by (subst nand_skip.simps) (simp add: NAND_ENV_BLK_LENGTH_def)
  moreover have "nand_skip m (9 * mtd_erasesize m) 10 = (9 * mtd_erasesize m, 10)"
    by (subst nand_skip.simps) (simp add: NAND_ENV_BLK_LENGTH_def)
  ultimately show ?case using assms(1) [of 8] assms(2) by (subst nand_skip.simps) (simp add: NAND_ENV_BLK_LENGTH_def)
next
  case (Suc n)
  then have "k < 8" by simp
  then have "nand_skip m (k * mtd_erasesize m) k = nand_skip m (Suc k * mtd_erasesize m) (Suc k)"
    using assms(1) [of k] assms(2) by (subst nand_skip.simps) (simp add: NAND_ENV_BLK_LENGTH_def add.commute)
  moreover have "nand_skip m (Suc k * mtd_erasesize m) (Suc k) = (9 * mtd_erasesize m, 10)"
    by (rule Suc.hyps(1)) (use Suc.hyps(2) \<open>k < 8\<close> in simp_all)
  ultimately show ?case by simp
qed

end
