(* ===== verification/Wmt_Env_Nand.thy ===== *)
theory Wmt_Env_Nand
  imports Wmt_Env_Flash
begin

text \<open>
  The boot environment on NAND flash (\<^verbatim>\<open>drivers/mtd/wmt_env.c\<close>): what the search of \<^verbatim>\<open>env_init\<close> finds and
  where \<^verbatim>\<open>env_update\<close> writes, over the definitions of \<^verbatim>\<open>Wmt_Env_Flash\<close>.
\<close>

section \<open>Searching\<close>

definition nand_image :: "hw \<Rightarrow> mtd \<Rightarrow> nat \<Rightarrow> u8 list" where
  "nand_image h m k = take (hw_env_max h) (drop (k * mtd_erasesize m) (mtd_data m))"

text \<open>A block where the search does not stop in its first pass.\<close>

definition passed_over :: "hw \<Rightarrow> mtd \<Rightarrow> nat \<Rightarrow> bool" where
  "passed_over h m k \<longleftrightarrow> mtd_bad m (k * mtd_erasesize m) \<or> image_crc (nand_image h m k) = 0xffffffff \<or> \<not> crc_good h (nand_image h m k)"

definition nand_geometry :: "hw \<Rightarrow> mtd \<Rightarrow> bool" where
  "nand_geometry h m \<longleftrightarrow> 4 \<le> hw_env_max h \<and> hw_env_max h \<le> mtd_erasesize m \<and>
     mtd_size m = NAND_ENV_BLK_LENGTH * mtd_erasesize m \<and> length (mtd_data m) = mtd_size m"

lemma nand_search_skip: "nand_skip m offs c = nand_skip m offs' c' \<Longrightarrow> nand_search h env m offs c buf = nand_search h env m offs' c' buf"
  by (subst (1 2) nand_search.simps) simp

lemma block_read:
  assumes "nand_geometry h m" and "k < 9" and "\<And>d a. hw_read_ok h' d a" and "hw_env_max h' = hw_env_max h"
  shows "flash_read h' env (mtd_data m) (k * mtd_erasesize m) (hw_env_max h') = Some (nand_image h m k)"
proof -
  have "k * mtd_erasesize m + mtd_erasesize m \<le> 9 * mtd_erasesize m"
    using mult_le_mono1 [of "Suc k" 9 "mtd_erasesize m"] assms(2) by simp
  then have "k * mtd_erasesize m + hw_env_max h \<le> length (mtd_data m)"
    using assms(1) unfolding nand_geometry_def NAND_ENV_BLK_LENGTH_def by linarith
  then show ?thesis using assms(3,4) by (simp add: flash_read_def nand_image_def)
qed

lemma nand_search_finds:
  assumes geo: "nand_geometry h m" and b: "b < 9" "\<not> mtd_bad m (b * mtd_erasesize m)" "crc_good h (nand_image h m b)"
      "image_crc (nand_image h m b) \<noteq> 0xffffffff"
    and before: "\<forall>k<b. passed_over h m k" and read: "readable h h'"
  shows "k \<le> b \<Longrightarrow> nand_search h' env m (k * mtd_erasesize m) k buf = (Some b, nand_image h m b)"
proof (induction "b - k" arbitrary: k buf)
  case 0
  then have "k = b" by simp
  have "nand_skip m (b * mtd_erasesize m) b = (b * mtd_erasesize m, b)" using b(2) by (subst nand_skip.simps) simp
  moreover have "crc_good h' = crc_good h" using read by (simp add: fun_eq_iff crc_good_def env_data_def hdr_len_def readable_def)
  moreover have "flash_read h' env (mtd_data m) (b * mtd_erasesize m) (hw_env_max h') = Some (nand_image h m b)"
    using block_read [OF geo b(1)] read by (simp add: readable_def)
  ultimately show ?case using b unfolding \<open>k = b\<close> by (subst nand_search.simps) (simp add: NAND_ENV_BLK_LENGTH_def)
next
  case (Suc n)
  then have k: "k < b" "k < 9" "Suc k < 9" using b(1) by simp_all
  have IH: "nand_search h' env m (Suc k * mtd_erasesize m) (Suc k) buf = (Some b, nand_image h m b)" for buf
    by (rule Suc.hyps(1)) (use Suc.hyps(2) k in simp_all)
  show ?case
  proof (cases "mtd_bad m (k * mtd_erasesize m)")
    case True
    have "k * mtd_erasesize m < 9 * mtd_erasesize m"
      using k geo by (intro mult_less_mono1) (auto simp: nand_geometry_def)
    then have "nand_skip m (k * mtd_erasesize m) k = nand_skip m (Suc k * mtd_erasesize m) (Suc k)"
      using k True by (subst nand_skip.simps) (simp add: NAND_ENV_BLK_LENGTH_def add.commute)
    then show ?thesis using IH nand_search_skip by metis
  next
    case False
    then have "nand_skip m (k * mtd_erasesize m) k = (k * mtd_erasesize m, k)" by (subst nand_skip.simps) simp
    moreover have "crc_good h' = crc_good h" using read by (simp add: fun_eq_iff crc_good_def env_data_def hdr_len_def readable_def)
    moreover have "flash_read h' env (mtd_data m) (k * mtd_erasesize m) (hw_env_max h') = Some (nand_image h m k)"
      using block_read [OF geo k(2)] read by (simp add: readable_def)
    moreover have "image_crc (nand_image h m k) = 0xffffffff \<or> \<not> crc_good h (nand_image h m k)"
      using before k(1) False by (auto simp: passed_over_def)
    ultimately show ?thesis using k IH [of "nand_image h m k"]
      by (subst nand_search.simps) (auto simp: NAND_ENV_BLK_LENGTH_def add.commute)
  qed
qed

text \<open>The block that \<^verbatim>\<open>env_update\<close> writes is good and not the present one.\<close>

lemma nand_next_block:
  assumes geo: "nand_geometry h m" and "nand_next m (j * mtd_erasesize m) (((c + j) mod 9) * mtd_erasesize m) = Some (chk, Some blk)"
    and "chk < mtd_size m" and "j \<le> 9"
  shows "\<exists>i<8. blk = ((c + i) mod 9) * mtd_erasesize m \<and> \<not> mtd_bad m blk"
  using assms(2,4)
proof (induction "9 - j" arbitrary: j)
  case 0
  then show ?case using geo by (subst (asm) nand_next.simps) (simp add: nand_geometry_def NAND_ENV_BLK_LENGTH_def)
next
  case (Suc n)
  let ?es = "mtd_erasesize m"
  have es: "0 < ?es" "mtd_size m = 9 * ?es" using geo by (simp_all add: nand_geometry_def NAND_ENV_BLK_LENGTH_def)
  have j: "j < 9" using Suc by simp
  then have lt: "j * ?es < mtd_size m" using es by simp
  show ?case
  proof (cases "mtd_bad m (((c + j) mod 9) * ?es)")
    case True
    let ?r = "(c + j) mod 9"
    have "?r < 9" by simp
    then have wrap: "(if ?r * ?es + ?es \<ge> mtd_size m then 0 else ?r * ?es + ?es) = ((c + Suc j) mod 9) * ?es"
    proof (cases "?r = 8")
      case True
      then have "(c + Suc j) mod 9 = 0" by presburger
      then show ?thesis using True es by simp
    next
      case False
      then have "(c + Suc j) mod 9 = Suc ?r" using \<open>?r < 9\<close> by (simp add: mod_Suc)
      moreover have "Suc ?r * ?es < 9 * ?es" using False \<open>?r < 9\<close> es by (intro mult_less_mono1) auto
      ultimately show ?thesis using es by (simp add: add.commute)
    qed
    have "nand_next m (Suc j * ?es) (((c + Suc j) mod 9) * ?es) = Some (chk, Some blk)"
      using Suc.prems(1) lt es True wrap by (subst (asm) nand_next.simps) (simp add: add.commute)
    then show ?thesis using Suc.hyps(1) [of "Suc j"] Suc.hyps(2) j by simp
  next
    case False
    then have "chk = Suc j * ?es" "blk = ((c + j) mod 9) * ?es"
      using Suc.prems(1) lt by (subst (asm) nand_next.simps; simp add: add.commute)+
    then show ?thesis using assms(3) es False by (intro exI [of _ j]) auto
  qed
qed

lemma image_put_region:
  assumes m: "nand_geometry h m" and d: "length (mtd_data m) = length d" "mtd_data m' = put_region d (j * mtd_erasesize m) bs"
    "mtd_erasesize m' = mtd_erasesize m" and len: "length bs \<le> mtd_erasesize m" and k: "k < 9" "j < 9"
  shows "k \<noteq> j \<Longrightarrow> nand_image h m' k = take (hw_env_max h) (drop (k * mtd_erasesize m) d)"
    and "hw_env_max h \<le> length bs \<Longrightarrow> nand_image h m' j = take (hw_env_max h) bs"
proof -
  let ?es = "mtd_erasesize m" and ?n = "hw_env_max h"
  have le: "i * ?es + ?es \<le> length d" if "i < 9" for i
    using mult_le_mono1 [of "Suc i" 9 ?es] that m d(1) by (simp add: nand_geometry_def NAND_ENV_BLK_LENGTH_def)
  have n: "?n \<le> ?es" using m by (simp add: nand_geometry_def)
  have off: "j * ?es + length bs \<le> length d" using le [OF k(2)] len by simp
  note nth = nth_put_region [OF off]
  show "k \<noteq> j \<Longrightarrow> nand_image h m' k = take ?n (drop (k * ?es) d)"
  proof -
    assume "k \<noteq> j"
    then have "Suc k * ?es \<le> j * ?es \<or> Suc j * ?es \<le> k * ?es" by (metis Suc_leI linorder_neqE_nat mult_le_mono1)
    then have apart: "\<not> (j * ?es \<le> k * ?es + i \<and> k * ?es + i < j * ?es + length bs)" if "i < ?n" for i
      using that n len by auto
    show ?thesis unfolding nand_image_def d(2,3)
    proof (rule nth_equalityI)
      fix i
      assume "i < length (take ?n (drop (k * ?es) (put_region d (j * ?es) bs)))"
      then show "take ?n (drop (k * ?es) (put_region d (j * ?es) bs)) ! i = take ?n (drop (k * ?es) d) ! i"
        using off apart [of i] by (auto simp: nth)
    qed (use off in simp)
  qed
  show "?n \<le> length bs \<Longrightarrow> nand_image h m' j = take ?n bs"
    using off by (simp add: nand_image_def d(2,3) put_region_def min_absorb2)
qed

text \<open>The state while an environment on NAND is loaded.\<close>

definition nand_ok :: "hw \<Rightarrow> probe \<Rightarrow> env_state \<Rightarrow> bool" where
  "nand_ok h p fs \<longleftrightarrow> boot_flash (hw_strap h) = NAND_FLASH_TYPE \<and> length (fs_mtd fs) = MAX_MTD_DEVICES \<and>
     p_env1 p < MAX_MTD_DEVICES \<and> probe_loop h fs NAND_FLASH_TYPE [0..<MAX_MTD_DEVICES] probe0 = Some p \<and>
     env_valid fs = p_env1 p \<and> nand_block fs < 9 \<and>
     (\<exists>m. mtd_table h fs (p_env1 p) = Some m \<and> nand_geometry h m \<and> (\<forall>k<9. k \<noteq> nand_block fs \<longrightarrow> passed_over h m k))"

lemma erased_passed_over:
  assumes "nand_image h m k = take (hw_env_max h) (replicate n 0xff)" and "4 \<le> hw_env_max h" and "hw_env_max h \<le> n"
  shows "passed_over h m k"
proof -
  have "nand_image h m k ! i = 0xff" if "i < 4" for i using assms that by simp
  then have "image_crc (nand_image h m k) = 0xffffffff" by (simp add: image_crc_def)
  then show ?thesis by (simp add: passed_over_def)
qed

lemma length_set_mtd_data [simp]: "length (fs_mtd (set_mtd_data fs i d)) = length (fs_mtd fs)"
  by (simp add: set_mtd_data_def)

text \<open>A successful operation, on the table.\<close>

lemma mtd_op_success:
  assumes "mtd_table h fs i = Some m" and "i < length (fs_mtd fs)"
  shows "mtd_erase h fs i a n = Some (fs', True) \<Longrightarrow>
      fs' = set_mtd_data fs i (put_region (mtd_data m) a (replicate n 0xff)) \<and>
      mtd_table h fs' i = Some (m\<lparr>mtd_data := put_region (mtd_data m) a (replicate n 0xff)\<rparr>) \<and> length (fs_mtd fs') = length (fs_mtd fs)"
    and "mtd_write h fs i a bs = Some (fs', True) \<Longrightarrow> take (length bs) (drop a (mtd_data m)) = replicate (length bs) 0xff \<Longrightarrow>
      fs' = set_mtd_data fs i (put_region (mtd_data m) a bs) \<and>
      mtd_table h fs' i = Some (m\<lparr>mtd_data := put_region (mtd_data m) a bs\<rparr>) \<and> length (fs_mtd fs') = length (fs_mtd fs)"
  using assms
  by (auto simp: mtd_erase_def mtd_write_def flash_erase_def flash_write_def map2_and_ff mtd_table_set_data split: if_splits)

lemma nand_update_data:
  assumes ok: "nand_ok h p fs" and img: "env_ptr fs = Some img" "length img = hw_env_max h" and upd: "env_update h fs = Some (0, fs')"
  obtains m b d where "b < 9" and "b \<noteq> nand_block fs" and "mtd_table h fs (p_env1 p) = Some m" and "\<not> mtd_bad m (b * mtd_erasesize m)"
    and "fs_mtd fs' = (fs_mtd fs)[p_env1 p := Some (m\<lparr>mtd_data := d\<rparr>)]"
    and "d = put_region (put_region (put_region (mtd_data m) (b * mtd_erasesize m) (replicate (mtd_erasesize m) 0xff))
               (b * mtd_erasesize m) (seal h img)) (nand_block fs * mtd_erasesize m) (replicate (mtd_erasesize m) 0xff)"
proof -
  define fs0 where "fs0 = fs\<lparr>env_ptr := Some (seal h img)\<rparr>"
  let ?i = "p_env1 p" and ?o = "nand_block fs"
  obtain m where m: "mtd_table h fs ?i = Some m" "nand_geometry h m" using ok by (auto simp: nand_ok_def)
  let ?es = "mtd_erasesize m" and ?ff = "replicate (mtd_erasesize m) 0xff"
  have i: "?i < length (fs_mtd fs0)" "?i < length (fs_mtd fs)" "env_valid fs0 = ?i" "nand_block fs0 = ?o" "?o < 9"
    "mtd_table h fs0 ?i = Some m"
    using ok m by (simp_all add: nand_ok_def fs0_def mtd_table_def)
  have geo: "mtd_size m = 9 * ?es" "length (mtd_data m) = 9 * ?es" "0 < ?es" "hw_env_max h \<le> ?es" "4 \<le> hw_env_max h"
    using m(2) by (auto simp: nand_geometry_def NAND_ENV_BLK_LENGTH_def)
  have len: "length (seal h img) = hw_env_max h" using img(2) geo(5) by (simp add: seal_def crc_bytes_def)
  then have all: "take (hw_env_max h) (seal h img) = seal h img" by simp
  have offs: "(if (?o + 1) * ?es \<ge> mtd_size m then 0 else (?o + 1) * ?es) = ((?o + 1 + 0) mod 9) * ?es"
    using i(5) geo(1,3) by (cases "?o = 8") auto
  have "env_update_nand h fs0 (seal h img) = Some (0, fs')"
    using ok img upd by (simp add: env_update_def fs0_def nand_ok_def Let_def)
  then have "(case nand_next m 0 (((?o + 1 + 0) mod 9) * ?es) of
      None \<Rightarrow> None
    | Some (chk, blk) \<Rightarrow>
        if chk \<ge> mtd_size m \<or> blk = None then Some (1, fs0)
        else Option.bind (mtd_erase h fs0 ?i (the blk) ?es) (\<lambda>(fs1, ok). if \<not> ok then Some (1, fs1) else
          Option.bind (mtd_write h fs1 ?i (the blk) (seal h img)) (\<lambda>(fs2, ok). if \<not> ok then Some (1, fs2) else
          Option.bind (mtd_erase h (fs2\<lparr>nand_block := the blk div ?es\<rparr>) ?i (?o * ?es) ?es) (\<lambda>(fs4, ok).
            if \<not> ok then Some (1, fs4) else Some (0, fs4))))) = Some (0 :: nat, fs')"
    unfolding env_update_nand_def Let_def i(3,4,6) option.case offs all .
  then obtain chk blk fs1 fs2 fs4 where steps:
    "nand_next m 0 (((?o + 1 + 0) mod 9) * ?es) = Some (chk, Some blk)" "chk < mtd_size m"
    "mtd_erase h fs0 ?i blk ?es = Some (fs1, True)" "mtd_write h fs1 ?i blk (seal h img) = Some (fs2, True)"
    "mtd_erase h (fs2\<lparr>nand_block := blk div ?es\<rparr>) ?i (?o * ?es) ?es = Some (fs4, True)" "fs' = fs4"
    by (auto simp: bind_eq_Some_conv split: option.splits if_splits)
  obtain c where c: "c < 8" "blk = ((?o + 1 + c) mod 9) * ?es" "\<not> mtd_bad m blk"
    using nand_next_block [OF m(2), of 0 "?o + 1" chk blk] steps(1,2) by auto
  define b where "b = (?o + 1 + c) mod 9"
  have b: "b < 9" "b \<noteq> ?o" using c(1) i(5) by (auto simp: b_def mod_if)
  have blk: "blk = b * ?es" using c(2) by (simp add: b_def)
  have le: "b * ?es + ?es \<le> length (mtd_data m)"
    using mult_le_mono1 [of "Suc b" 9 ?es] b(1) geo(2) by simp
  have e1: "fs1 = set_mtd_data fs0 ?i (put_region (mtd_data m) blk ?ff)"
    "mtd_table h fs1 ?i = Some (m\<lparr>mtd_data := put_region (mtd_data m) blk ?ff\<rparr>)" "length (fs_mtd fs1) = length (fs_mtd fs0)"
    using mtd_op_success(1) [OF i(6,1) steps(3)] by blast+
  define d2 where "d2 = put_region (put_region (mtd_data m) blk ?ff) blk (seal h img)"
  have "take (length (seal h img)) (drop blk (put_region (mtd_data m) blk ?ff)) = replicate (length (seal h img)) 0xff"
    using le geo(4) len blk by (simp add: put_region_def min_absorb1 min_absorb2)
  then have "fs2 = set_mtd_data fs1 ?i d2 \<and> mtd_table h fs2 ?i = Some (m\<lparr>mtd_data := d2\<rparr>) \<and> length (fs_mtd fs2) = length (fs_mtd fs1)"
    using mtd_op_success(2) [OF e1(2) _ steps(4), folded d2_def] e1(2,3) i(1) by (simp add: d2_def mtd_table_set_data)
  then have e2: "fs2 = set_mtd_data fs1 ?i d2" "mtd_table h fs2 ?i = Some (m\<lparr>mtd_data := d2\<rparr>)" "length (fs_mtd fs2) = length (fs_mtd fs1)"
    by blast+
  then have "mtd_table h (fs2\<lparr>nand_block := blk div ?es\<rparr>) ?i = Some (m\<lparr>mtd_data := d2\<rparr>)"
    by (auto simp: mtd_table_def split: if_splits)
  from mtd_op_success(1) [OF this _ steps(5)] e1(3) e2(3) i(1) have e3:
    "fs4 = set_mtd_data (fs2\<lparr>nand_block := blk div ?es\<rparr>) ?i (put_region d2 (?o * ?es) ?ff)" by simp
  have "fs_mtd fs ! ?i = Some m" using m(1) i(2) by (simp add: mtd_table_def)
  then have "fs_mtd fs' = (fs_mtd fs)[?i := Some (m\<lparr>mtd_data := put_region d2 (?o * ?es) ?ff\<rparr>)]"
    using i(2) unfolding steps(6) e3 e2(1) e1(1) by (simp add: set_mtd_data_def fs0_def)
  then show thesis using b m(1) c(3) unfolding blk d2_def by (intro that) simp_all
qed

lemma hdr_len_nand: "boot_flash (hw_strap h) = NAND_FLASH_TYPE \<Longrightarrow> hdr_len h = 4"
  by (simp add: hdr_len_def strap_nand)

lemma nand_reload:
  assumes ok: "boot_flash (hw_strap h) = NAND_FLASH_TYPE" "length (fs_mtd fs) = MAX_MTD_DEVICES" "p_env1 p < MAX_MTD_DEVICES"
      "probe_loop h fs NAND_FLASH_TYPE [0..<MAX_MTD_DEVICES] probe0 = Some p" "mtd_table h fs (p_env1 p) = Some m" "nand_geometry h m"
    and b: "b < 9" "\<not> mtd_bad m (b * mtd_erasesize m)" "crc_good h (nand_image h m b)" "image_crc (nand_image h m b) \<noteq> 0xffffffff"
    and others: "\<forall>k<9. k \<noteq> b \<longrightarrow> passed_over h m k" and read: "readable h h'"
  shows "\<exists>fs'. load_env h' (reboot fs) = Some (0, fs') \<and> env_ptr fs' = Some (nand_image h m b) \<and> nand_ok h p fs'"
proof -
  obtain g where g: "hw_kmalloc h' = Some g" using read by (auto simp: readable_def)
  define fs1 where "fs1 = (reboot fs)\<lparr>env_ptr := Some (fit (hw_env_max h') g), nand_block := 0\<rparr>"
  have tab: "mtd_table hh f i = mtd_table h fs i" if "fs_mtd f = fs_mtd fs" "i < MAX_MTD_DEVICES" for f i hh
    using that ok(2) by (simp add: mtd_table_def)
  have same: "fs_mtd fs1 = fs_mtd fs" by (simp add: fs1_def reboot_def)
  have probe: "probe_loop hh f NAND_FLASH_TYPE [0..<MAX_MTD_DEVICES] probe0 = Some p"
    if "fs_mtd f = fs_mtd fs" "hw_past_parts hh = hw_past_parts h" for f hh
  proof -
    have "map_option mtd_name (mtd_table hh f i) = map_option mtd_name (mtd_table h fs i)" if "i \<in> set [0..<MAX_MTD_DEVICES]" for i
      using that by (subst tab [OF \<open>fs_mtd f = fs_mtd fs\<close>]) simp_all
    then show ?thesis using ok(4) probe_loop_names [OF that(2)] by metis
  qed
  have "nand_search h' (p_env1 p) m 0 0 buf = (Some b, nand_image h m b)" for buf
    using nand_search_finds [OF ok(6) b _ read, of 0] others b(1) by simp
  moreover have "mtd_table h' fs1 (p_env1 p) = Some m" using tab [OF same ok(3)] ok(5) by simp
  moreover have "p_env1 p \<noteq> ENV_INVALID" using ok(3) by (simp add: ENV_INVALID_def MAX_MTD_DEVICES_def)
  ultimately have load: "load_env h' (reboot fs) = Some (0, fs1\<lparr>env_ptr := Some (nand_image h m b), env_valid := p_env1 p, nand_block := b\<rparr>)"
    using ok(1) g b(1) read probe [OF same, of h']
    by (simp add: load_env_def env_init_def env_init_nand_def Let_def readable_def reboot_def fs1_def NAND_ENV_BLK_LENGTH_def)
  define fs' where "fs' = fs1\<lparr>env_ptr := Some (nand_image h m b), env_valid := p_env1 p, nand_block := b\<rparr>"
  have same': "fs_mtd fs' = fs_mtd fs" by (simp add: fs'_def same)
  have "nand_ok h p fs'" using ok b(1) others probe [OF same'] tab [OF same' ok(3)]
    by (simp add: nand_ok_def same') (simp add: fs'_def)
  then show ?thesis using load by (auto simp: fs'_def)
qed

text \<open>The images after the three operations of an update.\<close>

lemma nand_update_images:
  assumes geo: "nand_geometry h m" and b: "b < 9" "o' < 9" "b \<noteq> o'" and new: "length new = hw_env_max h"
    and d: "d = put_region (put_region (put_region (mtd_data m) (b * mtd_erasesize m) (replicate (mtd_erasesize m) 0xff))
               (b * mtd_erasesize m) new) (o' * mtd_erasesize m) (replicate (mtd_erasesize m) 0xff)"
  shows "length d = length (mtd_data m)" and "nand_image h (m\<lparr>mtd_data := d\<rparr>) b = new"
    and "passed_over h (m\<lparr>mtd_data := d\<rparr>) o'" and "k < 9 \<Longrightarrow> k \<noteq> b \<Longrightarrow> k \<noteq> o' \<Longrightarrow> nand_image h (m\<lparr>mtd_data := d\<rparr>) k = nand_image h m k"
proof -
  let ?es = "mtd_erasesize m" and ?m = "m\<lparr>mtd_data := d\<rparr>" and ?ff = "replicate (mtd_erasesize m) 0xff"
  define d1 where "d1 = put_region (mtd_data m) (b * ?es) ?ff"
  define d2 where "d2 = put_region d1 (b * ?es) new"
  have d3: "d = put_region d2 (o' * ?es) ?ff" by (simp add: d d2_def d1_def)
  have size: "4 \<le> hw_env_max h" "hw_env_max h \<le> ?es" using geo by (simp_all add: nand_geometry_def)
  have le: "k * ?es + ?es \<le> length (mtd_data m)" if "k < 9" for k
    using mult_le_mono1 [of "Suc k" 9 ?es] that geo by (simp add: nand_geometry_def NAND_ENV_BLK_LENGTH_def)
  show len: "length d = length (mtd_data m)" using le [OF b(1)] le [OF b(2)] new size by (simp add: d1_def d2_def d3)
  have len': "length d1 = length (mtd_data m)" "length d2 = length (mtd_data m)" using le [OF b(1)] new size by (simp_all add: d1_def d2_def)
  have keep: "nand_image h ?m k = take (hw_env_max h) (drop (k * ?es) d2)" if "k < 9" "k \<noteq> o'" for k
    using image_put_region(1) [OF geo _ _ _ _ that(1) b(2) that(2), of d2 ?m ?ff] len' d3 by simp
  show "nand_image h ?m b = new"
    using keep [OF b(1,3)] image_put_region(2) [OF geo _ _ _ _ b(1) b(1), of d1 "m\<lparr>mtd_data := d2\<rparr>" new] len' new size d2_def
    by (simp add: nand_image_def)
  have "nand_image h ?m o' = take (hw_env_max h) ?ff"
    using image_put_region(2) [OF geo _ _ _ _ b(2) b(2), of d2 ?m ?ff] len' d3 size by simp
  then show "passed_over h ?m o'" by (rule erased_passed_over [OF _ size])
  show "nand_image h ?m k = nand_image h m k" if "k < 9" "k \<noteq> b" "k \<noteq> o'"
    using keep [OF that(1,3)] image_put_region(1) [OF geo _ _ _ _ that(1) b(1) that(2), of d1 "m\<lparr>mtd_data := d2\<rparr>" new]
      image_put_region(1) [OF geo _ _ _ _ that(1) b(1) that(2), of "mtd_data m" "m\<lparr>mtd_data := d1\<rparr>" ?ff] len' new size
    by (simp add: nand_image_def d1_def d2_def)
qed

lemma seal_nand:
  assumes "boot_flash (hw_strap h) = NAND_FLASH_TYPE" and "4 \<le> length img"
  shows "length (seal h img) = length img" and "env_data h (seal h img) = env_data h img" and "image_crc (seal h img) = env_crc32 (env_data h img)"
  using assms hdr_len_nand [OF assms(1)] by (simp_all add: seal_def image_crc_seal) (simp_all add: crc_bytes_def env_data_def)

text \<open>
  C18. On NAND flash the environment moves to another good block with every update, and the search at
  the next start finds it there: after \<^verbatim>\<open>env_update\<close> succeeded it loads exactly the image written, provided
  its checksum is not the one of an erased block, and the state is again one where every other block is
  passed over. Blocks may be bad.
\<close>

theorem env_update_nand_persists:
  assumes ok: "nand_ok h p fs" and img: "env_ptr fs = Some img" "length img = hw_env_max h"
    and crc: "env_crc32 (env_data h img) \<noteq> 0xffffffff" and upd: "env_update h fs = Some (0, fs')" and read: "readable h h'"
  shows "\<exists>fs''. load_env h' (reboot fs') = Some (0, fs'') \<and> env_ptr fs'' = Some (seal h img) \<and>
    env_data h (seal h img) = env_data h img \<and> nand_ok h p fs''"
proof -
  obtain m b d where b: "b < 9" "b \<noteq> nand_block fs" "mtd_table h fs (p_env1 p) = Some m" "\<not> mtd_bad m (b * mtd_erasesize m)"
    and tab: "fs_mtd fs' = (fs_mtd fs)[p_env1 p := Some (m\<lparr>mtd_data := d\<rparr>)]"
    and d: "d = put_region (put_region (put_region (mtd_data m) (b * mtd_erasesize m) (replicate (mtd_erasesize m) 0xff))
               (b * mtd_erasesize m) (seal h img)) (nand_block fs * mtd_erasesize m) (replicate (mtd_erasesize m) 0xff)"
    by (rule nand_update_data [OF ok img upd])
  let ?m = "m\<lparr>mtd_data := d\<rparr>"
  have geo: "nand_geometry h m" "nand_block fs < 9" and before: "\<forall>k<9. k \<noteq> nand_block fs \<longrightarrow> passed_over h m k"
    and i: "p_env1 p < MAX_MTD_DEVICES" "length (fs_mtd fs) = MAX_MTD_DEVICES" "boot_flash (hw_strap h) = NAND_FLASH_TYPE"
    using ok b(3) by (auto simp: nand_ok_def)
  have seal: "length (seal h img) = hw_env_max h" "env_data h (seal h img) = env_data h img"
    "image_crc (seal h img) = env_crc32 (env_data h img)"
    using seal_nand [OF i(3), of img] img(2) geo(1) by (simp_all add: nand_geometry_def)
  note images = nand_update_images [OF geo(1) b(1) geo(2) b(2) seal(1) d]
  have others: "\<forall>k<9. k \<noteq> b \<longrightarrow> passed_over h ?m k"
  proof (intro allI impI)
    fix k
    assume "k < 9" "k \<noteq> b"
    then show "passed_over h ?m k" using images(3,4) before by (cases "k = nand_block fs") (auto simp: passed_over_def)
  qed
  have "probe_loop h fs' NAND_FLASH_TYPE [0..<MAX_MTD_DEVICES] probe0 = probe_loop h fs NAND_FLASH_TYPE [0..<MAX_MTD_DEVICES] probe0"
    by (rule probe_loop_names) (use b(3) i tab in \<open>auto simp: mtd_table_def nth_list_update\<close>)
  then have "probe_loop h fs' NAND_FLASH_TYPE [0..<MAX_MTD_DEVICES] probe0 = Some p" using ok by (simp add: nand_ok_def)
  then show ?thesis
    using nand_reload [OF i(3) _ i(1) _ _ _ b(1) _ _ _ others read, of fs'] tab i b(3,4) seal crc geo images(1,2)
    by (simp add: mtd_table_def nand_geometry_def crc_good_def)
qed

text \<open>An example: an empty environment in the first of nine blocks, of which the second is bad.\<close>

definition nand_hw :: hw where
  "nand_hw = (example_hw True)\<lparr>hw_strap := 2, hw_env_max := 6\<rparr>"

definition nand_mtd :: mtd where
  "nand_mtd = \<lparr>mtd_name = NAND_UBOOT_ENV1, mtd_size = 54, mtd_erasesize = 6, mtd_bad = (\<lambda>a. a = 6),
     mtd_data = replicate 54 0xff\<rparr>"

definition nand_state :: env_state where
  "nand_state = example_state\<lparr>fs_mtd := Some nand_mtd # replicate 31 None, env_valid := 0, env_ptr := Some [0, 0, 0, 0, 0, 0]\<rparr>"

lemma nand_strap: "boot_flash (hw_strap nand_hw) = NAND_FLASH_TYPE"
  by (simp add: nand_hw_def boot_flash_def)

lemma nand_example_ok: "nand_ok nand_hw (probe0\<lparr>p_env1 := 0\<rparr>) nand_state"
proof -
  have "[0..<MAX_MTD_DEVICES] = 0 # 1 # [2..<MAX_MTD_DEVICES]" by (simp add: MAX_MTD_DEVICES_def upt_rec)
  then have "probe_loop nand_hw nand_state NAND_FLASH_TYPE [0..<MAX_MTD_DEVICES] probe0 = Some (probe0\<lparr>p_env1 := 0\<rparr>)"
    by (simp add: mtd_table_def nand_state_def nand_mtd_def probe_mtd_def)
  moreover have "passed_over nand_hw nand_mtd k" if "k < 9" for k
    by (rule erased_passed_over [where n = 6]) (use that in \<open>simp_all add: nand_image_def nand_mtd_def nand_hw_def\<close>)
  ultimately show ?thesis using nand_strap
    by (auto simp: nand_ok_def mtd_table_def nand_state_def example_state_def MAX_MTD_DEVICES_def nand_geometry_def
        nand_mtd_def nand_hw_def NAND_ENV_BLK_LENGTH_def)
qed

lemma nand_example_update: "\<exists>fs'. env_update nand_hw nand_state = Some (0, fs')"
proof -
  have blk: "nand_next nand_mtd 0 6 = Some (12, Some 12)"
    by (simp add: nand_mtd_def nand_next.simps)
  define img where "img = seal nand_hw [0, 0, 0, 0, 0, 0]"
  have len: "length img = 6" by (simp add: img_def seal_def crc_bytes_def)
  have hw: "hw_env_max nand_hw = 6" "hw_erase_ok nand_hw d a" "hw_write_ok nand_hw d a" for d a
    by (simp_all add: nand_hw_def example_hw_def)
  have dev: "mtd_size nand_mtd = 54" "mtd_erasesize nand_mtd = 6" "length (mtd_data nand_mtd) = 54"
    by (simp_all add: nand_mtd_def)
  define fs where "fs = nand_state\<lparr>env_ptr := Some img\<rparr>"
  have fs: "env_valid fs = 0" "nand_block fs = 0" "fs_mtd fs = Some nand_mtd # replicate 31 None"
    by (simp_all add: fs_def nand_state_def example_state_def)
  have "env_update nand_hw nand_state = env_update_nand nand_hw fs img"
    using nand_strap by (simp add: env_update_def Let_def nand_state_def fs_def img_def)
  then show ?thesis
    by (simp add: env_update_nand_def Let_def fs mtd_table_def dev blk mtd_erase_def mtd_write_def flash_erase_def
        flash_write_def set_mtd_data_def hw len put_region_def min_def)
qed

lemma nand_example_crc: "env_crc32 (env_data nand_hw [0, 0, 0, 0, 0, 0]) \<noteq> 0xffffffff"
  using nand_strap by (simp add: env_data_def hdr_len_nand env_crc32_def DO1_def sf_crc_table_def)

theorem env_update_nand_persists_witness:
  "\<exists>fs' fs''. env_update nand_hw nand_state = Some (0, fs') \<and> load_env nand_hw (reboot fs') = Some (0, fs'') \<and>
     env_ptr fs'' = Some (seal nand_hw [0, 0, 0, 0, 0, 0])"
proof -
  obtain fs' where "env_update nand_hw nand_state = Some (0, fs')" using nand_example_update by blast
  then show ?thesis using env_update_nand_persists [OF nand_example_ok _ _ nand_example_crc, of fs' nand_hw]
    by (auto simp: nand_state_def nand_hw_def example_hw_def readable_def)
qed

end
