(* ===== verification/Supp_Groups.thy ===== *)
theory Supp_Groups
  imports Kernel_Prelude "HOL-Library.Multiset"
begin

text \<open>
  Supplementary groups (\<^verbatim>\<open>kernel/groups.c\<close>, \<^verbatim>\<open>include/linux/cred.h\<close>): the blocked array of group ids, its
  Shell sort and binary search, the system calls that read and set it, and the membership test.

  \<open>None\<close> is an access outside the array. What fresh memory holds and whether it is there are arguments,
  as is the array of the caller in user space, where an access behind its end is \<^verbatim>\<open>-EFAULT\<close>. Reference
  counts are left out: a structure lives as long as credentials refer to it. The build has no security
  module, so the hook in \<^verbatim>\<open>set_groups\<close> allows everything.
\<close>

section \<open>The array of groups\<close>

definition NGROUPS_SMALL :: nat where "NGROUPS_SMALL = 32"
definition NGROUPS_PER_BLOCK :: nat where "NGROUPS_PER_BLOCK = 1024"
definition NGROUPS_MAX :: nat where "NGROUPS_MAX = 65536"

record group_info =
  ngroups :: nat
  nblocks :: nat
  blocks :: "u32 list list"

definition GROUP_AT :: "group_info \<Rightarrow> nat \<Rightarrow> u32 option" where
  "GROUP_AT gi i =
     (let b = i div NGROUPS_PER_BLOCK; j = i mod NGROUPS_PER_BLOCK in
      if b < length (blocks gi) \<and> j < length (blocks gi ! b) then Some (blocks gi ! b ! j) else None)"

definition set_GROUP_AT :: "group_info \<Rightarrow> nat \<Rightarrow> u32 \<Rightarrow> group_info option" where
  "set_GROUP_AT gi i v =
     (let b = i div NGROUPS_PER_BLOCK; j = i mod NGROUPS_PER_BLOCK in
      if b < length (blocks gi) \<and> j < length (blocks gi ! b)
      then Some (gi\<lparr>blocks := (blocks gi)[b := (blocks gi ! b)[j := v]]\<rparr>) else None)"

text \<open>Fresh memory of \<open>n\<close> ids.\<close>

definition fresh :: "nat \<Rightarrow> u32 list \<Rightarrow> u32 list" where
  "fresh n g = take n (g @ replicate n 0)"

fun alloc_blocks :: "(nat \<Rightarrow> u32 list option) \<Rightarrow> nat list \<Rightarrow> u32 list list option" where
  "alloc_blocks page [] = Some []"
| "alloc_blocks page (i # is) =
     (case page i of
        None \<Rightarrow> None
      | Some g \<Rightarrow> map_option ((#) (fresh NGROUPS_PER_BLOCK g)) (alloc_blocks page is))"

definition groups_alloc :: "u32 list option \<Rightarrow> (nat \<Rightarrow> u32 list option) \<Rightarrow> nat \<Rightarrow> group_info option" where
  "groups_alloc kmalloc page gidsetsize =
     (let n = (gidsetsize + NGROUPS_PER_BLOCK - 1) div NGROUPS_PER_BLOCK;
          n = (if n \<noteq> 0 then n else 1) in
      case kmalloc of
        None \<Rightarrow> None
      | Some small_block \<Rightarrow>
          if gidsetsize \<le> NGROUPS_SMALL
          then Some \<lparr>ngroups = gidsetsize, nblocks = n, blocks = [fresh NGROUPS_SMALL small_block]\<rparr>
          else map_option (\<lambda>bs. \<lparr>ngroups = gidsetsize, nblocks = n, blocks = bs\<rparr>) (alloc_blocks page [0..<n]))"

text \<open>Copying to and from user space, block by block; \<open>off\<close> is how far \<^verbatim>\<open>grouplist\<close> has moved.\<close>

fun to_user_loop :: "u32 list list \<Rightarrow> nat \<Rightarrow> nat \<Rightarrow> u32 list \<Rightarrow> (errno option \<times> u32 list) option" where
  "to_user_loop [] off n user = Some (None, user)"
| "to_user_loop (b # bs) off n user =
     (let cp_count = min NGROUPS_PER_BLOCK n in
      if off + cp_count > length user then Some (Some EFAULT, user)
      else Option.bind (memcpy user off b 0 cp_count)
        (to_user_loop bs (off + NGROUPS_PER_BLOCK) (n - cp_count)))"

definition groups_to_user :: "u32 list \<Rightarrow> group_info \<Rightarrow> (errno option \<times> u32 list) option" where
  "groups_to_user user gi = to_user_loop (take (nblocks gi) (blocks gi)) 0 (ngroups gi) user"

fun from_user_loop :: "u32 list \<Rightarrow> nat \<Rightarrow> nat \<Rightarrow> u32 list list \<Rightarrow> (errno + u32 list list) option" where
  "from_user_loop user off n [] = Some (Inr [])"
| "from_user_loop user off n (b # bs) =
     (let cp_count = min NGROUPS_PER_BLOCK n in
      if off + cp_count > length user then Some (Inl EFAULT)
      else Option.bind (memcpy b 0 user off cp_count) (\<lambda>b'.
        map_option (map_sum id ((#) b')) (from_user_loop user (off + NGROUPS_PER_BLOCK) (n - cp_count) bs)))"

definition groups_from_user :: "group_info \<Rightarrow> u32 list \<Rightarrow> (errno + group_info) option" where
  "groups_from_user gi user =
     map_option (map_sum id (\<lambda>bs. gi\<lparr>blocks := bs\<rparr>)) (from_user_loop user 0 (ngroups gi) (take (nblocks gi) (blocks gi)))"

subsection \<open>Shell sort\<close>

function start_stride :: "nat \<Rightarrow> nat \<Rightarrow> nat" where
  "start_stride gidsetsize stride =
     (if stride < gidsetsize then start_stride gidsetsize (3 * stride + 1) else stride)"
  by pat_completeness auto
termination
  by (relation "measure (\<lambda>(n, stride). n - stride)") auto

declare start_stride.simps [simp del]

text \<open>The inner loop: larger elements move right; \<open>left\<close> may become negative. It is entered with a
  positive stride only.\<close>

function move_loop :: "nat \<Rightarrow> u32 \<Rightarrow> group_info \<Rightarrow> int \<Rightarrow> nat \<Rightarrow> (group_info \<times> nat) option" where
  "move_loop stride tmp gi left right =
     (if left < 0 \<or> stride = 0 then Some (gi, right)
      else Option.bind (GROUP_AT gi (nat left)) (\<lambda>x.
        if x > tmp
        then Option.bind (set_GROUP_AT gi right x) (\<lambda>gi'. move_loop stride tmp gi' (left - int stride) (nat left))
        else Some (gi, right)))"
  by pat_completeness auto
termination
  by (relation "measure (\<lambda>(stride, tmp, gi, left, right). nat (left + 1))") auto

declare move_loop.simps [simp del]

fun base_loop :: "nat \<Rightarrow> nat list \<Rightarrow> group_info \<Rightarrow> group_info option" where
  "base_loop stride [] gi = Some gi"
| "base_loop stride (base # bases) gi =
     Option.bind (GROUP_AT gi (base + stride)) (\<lambda>tmp.
     Option.bind (move_loop stride tmp gi (int base) (base + stride)) (\<lambda>(gi', right).
     Option.bind (set_GROUP_AT gi' right tmp) (base_loop stride bases)))"

function stride_loop :: "nat \<Rightarrow> group_info \<Rightarrow> group_info option" where
  "stride_loop stride gi =
     (if stride = 0 then Some gi
      else Option.bind (base_loop stride [0..<ngroups gi - stride] gi) (stride_loop (stride div 3)))"
  by pat_completeness auto
termination
  by (relation "measure (\<lambda>(stride, gi). stride)") auto

declare stride_loop.simps [simp del]

definition groups_sort :: "group_info \<Rightarrow> group_info option" where
  "groups_sort gi = stride_loop (start_stride (ngroups gi) 1 div 3) gi"

subsection \<open>Binary search\<close>

text \<open>The difference of the two unsigned ids is taken as a signed number.\<close>

function search_loop :: "group_info \<Rightarrow> u32 \<Rightarrow> nat \<Rightarrow> nat \<Rightarrow> bool option" where
  "search_loop gi grp left right =
     (if left < right
      then let mid = (left + right) div 2 in
        Option.bind (GROUP_AT gi mid) (\<lambda>x.
          let cmp = sint (grp - x) in
          if cmp > 0 then search_loop gi grp (mid + 1) right
          else if cmp < 0 then search_loop gi grp left mid
          else Some True)
      else Some False)"
  by pat_completeness auto
termination
  by (relation "measure (\<lambda>(gi, grp, left, right). right - left)") auto

declare search_loop.simps [simp del]

definition groups_search :: "group_info option \<Rightarrow> u32 \<Rightarrow> bool option" where
  "groups_search group_info grp =
     (case group_info of None \<Rightarrow> Some False | Some gi \<Rightarrow> search_loop gi grp 0 (ngroups gi))"

section \<open>Credentials and system calls\<close>

record cred =
  fsuid :: u32
  fsgid :: u32
  egid :: u32
  cred_groups :: "group_info option"

definition set_groups :: "cred \<Rightarrow> group_info \<Rightarrow> cred option" where
  "set_groups new gi = map_option (\<lambda>gi'. new\<lparr>cred_groups := Some gi'\<rparr>) (groups_sort gi)"

text \<open>\<open>prepare\<close>: whether there is memory for new credentials.\<close>

definition set_current_groups :: "bool \<Rightarrow> cred \<Rightarrow> group_info \<Rightarrow> ((errno + unit) \<times> cred) option" where
  "set_current_groups prepare cred gi =
     (if \<not> prepare then Some (Inl ENOMEM, cred) else map_option (\<lambda>new. (Inr (), new)) (set_groups cred gi))"

definition sys_getgroups :: "cred \<Rightarrow> u32 \<Rightarrow> u32 list \<Rightarrow> ((errno + nat) \<times> u32 list) option" where
  "sys_getgroups cred gidsetsize user =
     (if sint gidsetsize < 0 then Some (Inl EINVAL, user)
      else Option.bind (cred_groups cred) (\<lambda>gi.
        if gidsetsize = 0 then Some (Inr (ngroups gi), user)
        else if int (ngroups gi) > sint gidsetsize then Some (Inl EINVAL, user)
        else map_option (\<lambda>(r, user'). (case r of None \<Rightarrow> Inr (ngroups gi) | Some _ \<Rightarrow> Inl EFAULT, user')) (groups_to_user user gi)))"

definition sys_setgroups ::
  "bool \<Rightarrow> u32 list option \<Rightarrow> (nat \<Rightarrow> u32 list option) \<Rightarrow> bool \<Rightarrow> cred \<Rightarrow> u32 \<Rightarrow> u32 list \<Rightarrow> ((errno + unit) \<times> cred) option" where
  "sys_setgroups capable kmalloc page prepare cred gidsetsize user =
     (if \<not> capable then Some (Inl EPERM, cred)
      else if unat gidsetsize > NGROUPS_MAX then Some (Inl EINVAL, cred)
      else case groups_alloc kmalloc page (unat gidsetsize) of
          None \<Rightarrow> Some (Inl ENOMEM, cred)
        | Some gi \<Rightarrow>
            Option.bind (groups_from_user gi user) (\<lambda>r.
              case r of Inl e \<Rightarrow> Some (Inl e, cred) | Inr gi' \<Rightarrow> set_current_groups prepare cred gi'))"

definition in_group_p :: "cred \<Rightarrow> u32 \<Rightarrow> bool option" where
  "in_group_p cred grp = (if grp \<noteq> fsgid cred then groups_search (cred_groups cred) grp else Some True)"

definition in_egroup_p :: "cred \<Rightarrow> u32 \<Rightarrow> bool option" where
  "in_egroup_p cred grp = (if grp \<noteq> egid cred then groups_search (cred_groups cred) grp else Some True)"

section \<open>The blocks as one list\<close>

text \<open>Blocks with room for \<open>n\<close> ids, all of them in use.\<close>

fun fits :: "nat \<Rightarrow> u32 list list \<Rightarrow> bool" where
  "fits n [] \<longleftrightarrow> n = 0"
| "fits n (b # bs) \<longleftrightarrow> min NGROUPS_PER_BLOCK n \<le> length b \<and> (bs \<noteq> [] \<longrightarrow> NGROUPS_PER_BLOCK < n) \<and>
     fits (n - min NGROUPS_PER_BLOCK n) bs"

lemma fits_update: "length c = length (bs ! b) \<Longrightarrow> fits n (bs[b := c]) = fits n bs"
proof (induction bs arbitrary: n b)
  case (Cons x bs)
  then show ?case by (cases b) simp_all
qed simp

definition gi_ok :: "group_info \<Rightarrow> bool" where
  "gi_ok gi \<longleftrightarrow> nblocks gi = length (blocks gi) \<and> fits (ngroups gi) (blocks gi) \<and> (\<forall>i<ngroups gi. GROUP_AT gi i \<noteq> None)"

definition flat :: "group_info \<Rightarrow> u32 list" where
  "flat gi = map (\<lambda>i. the (GROUP_AT gi i)) [0..<ngroups gi]"

lemma length_flat [simp]: "length (flat gi) = ngroups gi"
  by (simp add: flat_def)

lemma GROUP_AT_flat: "gi_ok gi \<Longrightarrow> i < ngroups gi \<Longrightarrow> GROUP_AT gi i = Some (flat gi ! i)"
  by (auto simp: gi_ok_def flat_def)

lemma GROUP_AT_set:
  assumes "set_GROUP_AT gi i v = Some gi'"
  shows "GROUP_AT gi' j = (if j = i then Some v else GROUP_AT gi j)"
proof -
  have "i = j" if "i div NGROUPS_PER_BLOCK = j div NGROUPS_PER_BLOCK" "i mod NGROUPS_PER_BLOCK = j mod NGROUPS_PER_BLOCK"
    using that by (metis div_mult_mod_eq)
  then show ?thesis using assms
    by (auto simp: set_GROUP_AT_def GROUP_AT_def Let_def nth_list_update split: if_splits)
qed

lemma set_GROUP_AT_flat:
  assumes "gi_ok gi" and "i < ngroups gi"
  obtains gi' where "set_GROUP_AT gi i v = Some gi'" and "gi_ok gi'" and "ngroups gi' = ngroups gi" and "flat gi' = (flat gi)[i := v]"
proof -
  obtain gi' where gi': "set_GROUP_AT gi i v = Some gi'" "ngroups gi' = ngroups gi" "nblocks gi' = nblocks gi" "length (blocks gi') = length (blocks gi)"
    "fits (ngroups gi) (blocks gi') = fits (ngroups gi) (blocks gi)"
    using GROUP_AT_flat [OF assms] by (auto simp: set_GROUP_AT_def GROUP_AT_def Let_def fits_update split: if_splits)
  note at = GROUP_AT_set [OF gi'(1)]
  have "gi_ok gi'" using assms(1) gi' by (auto simp: gi_ok_def at)
  moreover have "flat gi' = (flat gi)[i := v]"
    by (rule nth_equalityI) (use gi'(2) in \<open>auto simp: flat_def at nth_list_update\<close>)
  ultimately show thesis using that gi' by blast
qed

section \<open>Sorting\<close>

lemma mset_move:
  assumes "l < length xs" and "r < length xs" and "l \<noteq> r"
  shows "mset (xs[r := xs ! l, l := v]) = mset (xs[r := v])"
proof -
  let ?ys = "xs[r := v]"
  have "xs[r := xs ! l, l := v] = ?ys[r := ?ys ! l, l := ?ys ! r]"
    using assms by (simp add: list_update_swap)
  then show ?thesis using mset_swap [of l ?ys r] assms by simp
qed

text \<open>The inner loop opens a gap; with the element put into it, the elements are those of before.\<close>

lemma move_loop_mset:
  "gi_ok gi \<Longrightarrow> right < ngroups gi \<Longrightarrow> left < int right \<Longrightarrow> 0 < stride \<Longrightarrow>
   \<exists>gi' r. move_loop stride tmp gi left right = Some (gi', r) \<and> gi_ok gi' \<and> ngroups gi' = ngroups gi \<and> r < ngroups gi \<and>
     mset ((flat gi')[r := tmp]) = mset ((flat gi)[right := tmp])"
proof (induction stride tmp gi left right rule: move_loop.induct)
  case (1 stride tmp gi left right)
  show ?case
  proof (cases "0 \<le> left \<and> tmp < flat gi ! nat left")
    case True
    let ?l = "nat left"
    have l: "?l < right" "?l < ngroups gi" using True "1.prems" by auto
    have at: "GROUP_AT gi ?l = Some (flat gi ! ?l)" using GROUP_AT_flat [OF "1.prems"(1) l(2)] .
    obtain gi1 where gi1: "set_GROUP_AT gi right (flat gi ! ?l) = Some gi1" "gi_ok gi1" "ngroups gi1 = ngroups gi"
      "flat gi1 = (flat gi)[right := flat gi ! ?l]"
      using set_GROUP_AT_flat [OF "1.prems"(1,2)] .
    obtain gi' r where "move_loop stride tmp gi1 (left - int stride) ?l = Some (gi', r)" "gi_ok gi'" "ngroups gi' = ngroups gi1"
      "r < ngroups gi1" "mset ((flat gi')[r := tmp]) = mset ((flat gi1)[?l := tmp])"
      using "1.IH" [of "flat gi ! ?l" gi1] True "1.prems" at gi1 l by auto
    then show ?thesis using True "1.prems" at gi1 l mset_move [of ?l "flat gi" right tmp]
      by (subst move_loop.simps) auto
  next
    case False
    then show ?thesis using "1.prems" GROUP_AT_flat [OF "1.prems"(1), of "nat left"]
      by (subst move_loop.simps) auto
  qed
qed

lemma insort_snoc_less: "x < y \<Longrightarrow> insort x (ys @ [y]) = insort x ys @ [y]" for x :: "'a::linorder"
  by (induction ys) auto

lemma insort_snoc_all: "sorted ys \<Longrightarrow> \<forall>y\<in>set ys. y \<le> x \<Longrightarrow> insort x ys = ys @ [x]" for x :: "'a::linorder"
proof -
  assume "sorted ys" "\<forall>y\<in>set ys. y \<le> x"
  then have "sorted (ys @ [x])" by (auto simp: sorted_append)
  moreover have "mset (insort x ys) = mset (ys @ [x])" by simp
  ultimately show ?thesis using \<open>sorted ys\<close> by (metis properties_for_sort sorted_insort sorted_sort_id)
qed

lemma move_loop_insort:
  "gi_ok gi \<Longrightarrow> flat gi = P @ h # R \<Longrightarrow> sorted P \<Longrightarrow>
   \<exists>gi' r. move_loop 1 tmp gi (int (length P) - 1) (length P) = Some (gi', r) \<and> (flat gi')[r := tmp] = insort tmp P @ R"
proof (induction P arbitrary: gi h R rule: rev_induct)
  case Nil
  then show ?case by (subst move_loop.simps) simp
next
  case (snoc y Q)
  have n: "length Q < ngroups gi" "Suc (length Q) < ngroups gi" using snoc.prems(2) length_flat [of gi] by simp_all
  have y: "flat gi ! length Q = y" using snoc.prems(2) by (simp add: nth_append)
  have at: "GROUP_AT gi (length Q) = Some y" using GROUP_AT_flat [OF snoc.prems(1) n(1)] y by simp
  show ?case
  proof (cases "tmp < y")
    case True
    obtain gi1 where gi1: "set_GROUP_AT gi (Suc (length Q)) y = Some gi1" "gi_ok gi1"
      "flat gi1 = (flat gi)[Suc (length Q) := y]" using set_GROUP_AT_flat [OF snoc.prems(1) n(2)] .
    have "flat gi1 = Q @ y # y # R" using gi1(3) snoc.prems(2) by (simp add: list_update_append)
    then obtain gi' r where "move_loop 1 tmp gi1 (int (length Q) - 1) (length Q) = Some (gi', r)" "(flat gi')[r := tmp] = insort tmp Q @ y # R"
      using snoc.IH [OF gi1(2)] snoc.prems(3) by (auto simp: sorted_append)
    then show ?thesis using True at gi1(1) by (subst move_loop.simps) (auto simp: insort_snoc_less)
  next
    case False
    have "\<forall>z\<in>set (Q @ [y]). z \<le> tmp" using False snoc.prems(3) by (auto simp: sorted_append)
    then have "insort tmp (Q @ [y]) = (Q @ [y]) @ [tmp]" using snoc.prems(3) by (rule insort_snoc_all [rotated])
    moreover have "(flat gi)[Suc (length Q) := tmp] = (Q @ [y]) @ tmp # R" using snoc.prems(2) by (simp add: list_update_append)
    ultimately show ?thesis using False at by (subst move_loop.simps) simp
  qed
qed

text \<open>One step of the loop over \<open>base\<close>.\<close>

lemma base_step:
  assumes "gi_ok gi" and "base + stride < ngroups gi" and "0 < stride"
  obtains tmp gi1 r gi2 where "GROUP_AT gi (base + stride) = Some tmp" and "move_loop stride tmp gi (int base) (base + stride) = Some (gi1, r)"
    and "set_GROUP_AT gi1 r tmp = Some gi2" and "gi_ok gi2" and "ngroups gi2 = ngroups gi" and "flat gi2 = (flat gi1)[r := tmp]"
    and "mset (flat gi2) = mset (flat gi)" and "tmp = flat gi ! (base + stride)"
proof -
  let ?tmp = "flat gi ! (base + stride)"
  obtain gi1 r where m: "move_loop stride ?tmp gi (int base) (base + stride) = Some (gi1, r)" "gi_ok gi1" "ngroups gi1 = ngroups gi"
    "r < ngroups gi" "mset ((flat gi1)[r := ?tmp]) = mset ((flat gi)[base + stride := ?tmp])"
    using move_loop_mset [OF assms(1,2), of "int base" stride ?tmp] assms(3) by auto
  obtain gi2 where "set_GROUP_AT gi1 r ?tmp = Some gi2" "gi_ok gi2" "ngroups gi2 = ngroups gi1" "flat gi2 = (flat gi1)[r := ?tmp]"
    using set_GROUP_AT_flat [OF m(2)] m(3,4) by metis
  then show thesis using that [OF GROUP_AT_flat [OF assms(1,2)] m(1)] m assms(2) by simp
qed

lemma base_loop_mset:
  "gi_ok gi \<Longrightarrow> 0 < stride \<Longrightarrow> \<forall>b\<in>set bases. b + stride < ngroups gi \<Longrightarrow>
   \<exists>gi'. base_loop stride bases gi = Some gi' \<and> gi_ok gi' \<and> ngroups gi' = ngroups gi \<and> mset (flat gi') = mset (flat gi)"
proof (induction bases arbitrary: gi)
  case (Cons b bs)
  obtain tmp gi1 r gi2 where st: "GROUP_AT gi (b + stride) = Some tmp" "move_loop stride tmp gi (int b) (b + stride) = Some (gi1, r)"
    "set_GROUP_AT gi1 r tmp = Some gi2" "gi_ok gi2" "ngroups gi2 = ngroups gi" "mset (flat gi2) = mset (flat gi)"
    by (rule base_step [of gi b stride]) (use Cons.prems in auto)
  then show ?case using Cons.IH [of gi2] Cons.prems by auto
qed simp

lemma base_loop_sorted:
  "gi_ok gi \<Longrightarrow> sorted (take (Suc k) (flat gi)) \<Longrightarrow> k < ngroups gi \<Longrightarrow> base_loop 1 [k..<ngroups gi - 1] gi = Some gi' \<Longrightarrow> sorted (flat gi')"
proof (induction "ngroups gi - 1 - k" arbitrary: k gi)
  case 0
  then show ?case by simp
next
  case (Suc n)
  then have k: "k + 1 < ngroups gi" by simp
  obtain tmp gi1 r gi2 where st: "GROUP_AT gi (k + 1) = Some tmp" "move_loop 1 tmp gi (int k) (k + 1) = Some (gi1, r)"
    "set_GROUP_AT gi1 r tmp = Some gi2" "gi_ok gi2" "ngroups gi2 = ngroups gi" "flat gi2 = (flat gi1)[r := tmp]"
    by (rule base_step [of gi k 1]) (use Suc.prems k in auto)
  define P where "P = take (Suc k) (flat gi)"
  have P: "flat gi = P @ flat gi ! Suc k # drop (Suc (Suc k)) (flat gi)" "length P = Suc k" "sorted P"
    using k Suc.prems(2) id_take_nth_drop [of "Suc k" "flat gi"] by (simp_all add: P_def)
  have "flat gi2 = insort tmp P @ drop (Suc (Suc k)) (flat gi)"
    using move_loop_insort [OF Suc.prems(1) P(1,3), of tmp] st(2,6) P(2) by simp
  then have "take (Suc (Suc k)) (flat gi2) = insort tmp P" using P(2) by simp
  then have sorted: "sorted (take (Suc (Suc k)) (flat gi2))" using P(3) by (simp add: sorted_insort)
  have "[k..<ngroups gi - 1] = k # [Suc k..<ngroups gi - 1]" using k by (simp add: upt_conv_Cons)
  then have "base_loop 1 [Suc k..<ngroups gi2 - 1] gi2 = Some gi'" using Suc.prems(4) st by simp
  then show ?case using Suc.hyps(1) [of gi2 "Suc k"] Suc.hyps(2) sorted st(4,5) k by simp
qed

text \<open>The strides are 0, 1, 4, 13, and so on; the last pass is with stride 1.\<close>

primrec shell_stride :: "nat \<Rightarrow> nat" where
  "shell_stride 0 = 0"
| "shell_stride (Suc k) = 3 * shell_stride k + 1"

lemma shell_stride_div: "shell_stride (Suc k) div 3 = shell_stride k"
  by simp

lemma start_stride_shell: "\<exists>j\<ge>k. start_stride n (shell_stride k) = shell_stride j \<and> n \<le> shell_stride j"
proof (induction n "shell_stride k" arbitrary: k rule: start_stride.induct)
  case (1 n)
  show ?case
  proof (cases "shell_stride k < n")
    case True
    from "1" [OF True, of "Suc k"] obtain j where "j \<ge> Suc k" "start_stride n (shell_stride (Suc k)) = shell_stride j" "n \<le> shell_stride j"
      by auto
    then show ?thesis using True by (subst start_stride.simps) (auto intro!: exI [of _ j])
  qed (subst start_stride.simps, auto)
qed

lemma stride_loop_sorts:
  "gi_ok gi \<Longrightarrow> \<exists>gi'. stride_loop (shell_stride k) gi = Some gi' \<and> gi_ok gi' \<and> ngroups gi' = ngroups gi \<and>
     mset (flat gi') = mset (flat gi) \<and> (k \<noteq> 0 \<or> sorted (flat gi) \<longrightarrow> sorted (flat gi'))"
proof (induction k arbitrary: gi)
  case 0
  then show ?case by (subst stride_loop.simps) simp
next
  case (Suc k)
  let ?s = "shell_stride (Suc k)"
  have bases: "\<forall>b\<in>set [0..<ngroups gi - ?s]. b + ?s < ngroups gi" by auto
  obtain gi1 where gi1: "base_loop ?s [0..<ngroups gi - ?s] gi = Some gi1" "gi_ok gi1" "ngroups gi1 = ngroups gi" "mset (flat gi1) = mset (flat gi)"
    using base_loop_mset [OF Suc.prems _ bases] by auto
  have "sorted (flat gi1)" if "k = 0"
  proof (cases "ngroups gi = 0")
    case False
    have "sorted (take 1 (flat gi))" by (cases "flat gi") simp_all
    then show ?thesis using base_loop_sorted [OF Suc.prems, of 0 gi1] gi1(1) that False by simp
  qed (use gi1(3) in \<open>simp add: flat_def\<close>)
  then show ?case using Suc.IH [OF gi1(2)] gi1 shell_stride_div [of k] by (subst stride_loop.simps) auto
qed

lemma groups_sort_sorts:
  assumes "gi_ok gi"
  obtains gi' where "groups_sort gi = Some gi'" and "gi_ok gi'" and "ngroups gi' = ngroups gi" and "flat gi' = sort (flat gi)"
proof -
  obtain j where j: "j \<ge> 1" "start_stride (ngroups gi) 1 = shell_stride j" "ngroups gi \<le> shell_stride j"
    using start_stride_shell [of 1 "ngroups gi"] by auto
  then obtain k where k: "j = Suc k" by (cases j) auto
  have "sorted (flat gi)" if "k = 0"
  proof -
    have "length (flat gi) \<le> 1" using j(3) k that by simp
    then show ?thesis by (cases "flat gi") auto
  qed
  then obtain gi' where "stride_loop (shell_stride k) gi = Some gi'" "gi_ok gi'" "ngroups gi' = ngroups gi"
    "mset (flat gi') = mset (flat gi)" "sorted (flat gi')"
    using stride_loop_sorts [OF assms, of k] by (cases "k = 0") auto
  then show thesis using that j(2) shell_stride_div [of k] by (simp add: groups_sort_def properties_for_sort k)
qed

section \<open>Searching\<close>

lemma sint_diff_small:
  assumes "unat (a :: u32) < 2 ^ 31" and "unat (b :: u32) < 2 ^ 31"
  shows "sint (a - b) = int (unat a) - int (unat b)"
proof -
  have "sint a = int (unat a)" "sint b = int (unat b)" using assms by (simp_all add: sint_small)
  moreover have "sint (a - b) = signed_take_bit 31 (sint a - sint b)" using sint_word_ariths(2) [of a b] by simp
  moreover have "signed_take_bit 31 (int (unat a) - int (unat b)) = int (unat a) - int (unat b)"
  proof -
    have "int (unat a) < int (2 ^ 31)" "int (unat b) < int (2 ^ 31)" using assms by (simp_all only: of_nat_less_iff)
    then have "int (unat a) < 2147483648" "int (unat b) < 2147483648" "0 \<le> int (unat a)" "0 \<le> int (unat b)" by simp_all
    then have "- 2147483648 \<le> int (unat a) - int (unat b)" "int (unat a) - int (unat b) < 2147483648" by linarith+
    then show ?thesis by (simp only: signed_take_bit_int_eq_self_iff) simp
  qed
  ultimately show ?thesis by simp
qed

lemma search_loop_correct:
  "gi_ok gi \<Longrightarrow> sorted (flat gi) \<Longrightarrow> \<forall>x\<in>set (flat gi). unat x < 2 ^ 31 \<Longrightarrow> unat grp < 2 ^ 31 \<Longrightarrow> right \<le> ngroups gi \<Longrightarrow>
   search_loop gi grp left right = Some (\<exists>i. left \<le> i \<and> i < right \<and> flat gi ! i = grp)"
proof (induction gi grp left right rule: search_loop.induct)
  case (1 gi grp left right)
  show ?case
  proof (cases "left < right")
    case True
    define mid where "mid = (left + right) div 2"
    have mid: "left \<le> mid" "mid < right" "mid < ngroups gi" using True "1.prems"(5) by (auto simp: mid_def)
    let ?x = "flat gi ! mid"
    have at: "GROUP_AT gi mid = Some ?x" using GROUP_AT_flat [OF "1.prems"(1) mid(3)] .
    have "?x \<in> set (flat gi)" using mid(3) by simp
    then have cmp: "sint (grp - ?x) = int (unat grp) - int (unat ?x)" using "1.prems"(3,4) sint_diff_small by blast
    have mono: "i \<le> j \<Longrightarrow> j < ngroups gi \<Longrightarrow> unat (flat gi ! i) \<le> unat (flat gi ! j)" for i j
      using sorted_nth_mono [OF "1.prems"(2), of i j] by (simp add: word_le_nat_alt)
    consider (gt) "unat ?x < unat grp" | (lt) "unat grp < unat ?x" | (eq) "grp = ?x"
      by (metis linorder_neqE_nat word_unat_eq_iff)
    then show ?thesis
    proof cases
      case gt
      have pos: "0 < sint (grp - ?x)" using cmp gt by linarith
      have "mid < i" if "flat gi ! i = grp" "i < right" for i using mono [of i mid] gt that mid(3) by (cases "i \<le> mid") auto
      then have "(\<exists>i. mid + 1 \<le> i \<and> i < right \<and> flat gi ! i = grp) = (\<exists>i. left \<le> i \<and> i < right \<and> flat gi ! i = grp)"
        using mid by (metis Suc_eq_plus1 Suc_leI le_trans less_imp_le_nat)
      moreover have "search_loop gi grp left right = search_loop gi grp (mid + 1) right"
        using True at pos by (subst search_loop.simps) (simp add: Let_def flip: mid_def)
      ultimately show ?thesis using "1.IH"(1) [OF True mid_def at refl] pos "1.prems" by simp
    next
      case lt
      have neg: "sint (grp - ?x) < 0" using cmp lt by linarith
      have "i < mid" if "flat gi ! i = grp" "i < right" for i using mono [of mid i] lt that "1.prems"(5) by (cases "mid \<le> i") auto
      then have "(\<exists>i. left \<le> i \<and> i < mid \<and> flat gi ! i = grp) = (\<exists>i. left \<le> i \<and> i < right \<and> flat gi ! i = grp)"
        using mid by (metis less_trans)
      moreover have "search_loop gi grp left right = search_loop gi grp left mid"
        using True at neg by (subst search_loop.simps) (simp add: Let_def flip: mid_def)
      ultimately show ?thesis using "1.IH"(2) [OF True mid_def at refl] neg "1.prems" mid(3) by simp
    next
      case eq
      then have "search_loop gi grp left right = Some True" using True at by (subst search_loop.simps) (simp add: mid_def)
      then show ?thesis using eq mid by auto
    qed
  qed (subst search_loop.simps, simp)
qed

section \<open>Blocks and user space\<close>

definition block_at :: "u32 list list \<Rightarrow> nat \<Rightarrow> u32 option" where
  "block_at bs i =
     (let b = i div NGROUPS_PER_BLOCK; j = i mod NGROUPS_PER_BLOCK in
      if b < length bs \<and> j < length (bs ! b) then Some (bs ! b ! j) else None)"

lemma GROUP_AT_block_at: "GROUP_AT gi i = block_at (blocks gi) i"
  by (simp add: GROUP_AT_def block_at_def)

lemma block_at_Cons:
  "block_at (b # bs) i =
     (if i < NGROUPS_PER_BLOCK then (if i < length b then Some (b ! i) else None) else block_at bs (i - NGROUPS_PER_BLOCK))"
proof (cases "i < NGROUPS_PER_BLOCK")
  case False
  then have "i div NGROUPS_PER_BLOCK = Suc ((i - NGROUPS_PER_BLOCK) div NGROUPS_PER_BLOCK)"
    "i mod NGROUPS_PER_BLOCK = (i - NGROUPS_PER_BLOCK) mod NGROUPS_PER_BLOCK"
    by (simp_all add: le_div_geq le_mod_geq NGROUPS_PER_BLOCK_def)
  then show ?thesis using False by (simp add: block_at_def Let_def)
qed (simp add: block_at_def)

lemma from_user_loop_fits:
  "fits n bs \<Longrightarrow> off + n \<le> length user \<Longrightarrow>
   \<exists>bs'. from_user_loop user off n bs = Some (Inr bs') \<and> length bs' = length bs \<and> fits n bs' \<and>
     (\<forall>i<n. block_at bs' i = Some (user ! (off + i)))"
proof (induction bs arbitrary: n off)
  case (Cons b bs)
  let ?c = "min NGROUPS_PER_BLOCK n"
  obtain b' where b': "memcpy b 0 user off ?c = Some b'" using Cons.prems by simp
  have len: "length b' = length b" using memcpy_length [OF b'] .
  have nth: "b' ! i = user ! (off + i)" if "i < ?c" for i
  proof -
    have "i < length b" using less_le_trans [OF that] Cons.prems(1) by simp
    then show ?thesis using nth_memcpy [OF b'] that by simp
  qed
  have "\<exists>bs'. from_user_loop user (off + NGROUPS_PER_BLOCK) (n - ?c) bs = Some (Inr bs') \<and> length bs' = length bs \<and> fits (n - ?c) bs' \<and>
      (\<forall>i<n - ?c. block_at bs' i = Some (user ! (off + NGROUPS_PER_BLOCK + i)))"
  proof (cases "bs = []")
    case False
    then have "fits (n - ?c) bs" "NGROUPS_PER_BLOCK < n" using Cons.prems(1) unfolding fits.simps by blast+
    then show ?thesis using Cons.prems(2) by (intro Cons.IH) simp_all
  qed (use Cons.prems in simp)
  then obtain bs' where bs': "from_user_loop user (off + NGROUPS_PER_BLOCK) (n - ?c) bs = Some (Inr bs')" "length bs' = length bs"
    "fits (n - ?c) bs'" "\<forall>i<n - ?c. block_at bs' i = Some (user ! (off + NGROUPS_PER_BLOCK + i))" by blast
  have "block_at (b' # bs') i = Some (user ! (off + i))" if "i < n" for i
    using that nth [of i] len bs'(4) [rule_format, of "i - NGROUPS_PER_BLOCK"] Cons.prems(1) by (auto simp: block_at_Cons)
  then show ?case using b' bs' len Cons.prems by (auto intro!: exI [of _ "b' # bs'"])
qed simp

lemma to_user_loop_fits:
  "fits (length xs) bs \<Longrightarrow> \<forall>i<length xs. block_at bs i = Some (xs ! i) \<Longrightarrow> off + length xs \<le> length user \<Longrightarrow>
   to_user_loop bs off (length xs) user = Some (None, take off user @ xs @ drop (off + length xs) user)"
proof (induction bs arbitrary: xs off user)
  case (Cons b bs)
  let ?c = "min NGROUPS_PER_BLOCK (length xs)"
  have "take ?c b = take ?c xs"
    by (rule nth_equalityI) (use Cons.prems(1,2) in \<open>auto simp: block_at_Cons split: if_splits\<close>)
  then have cp: "memcpy user off b 0 ?c = Some (take off user @ take ?c xs @ drop (off + ?c) user)" using Cons.prems by simp
  let ?user = "take off user @ take ?c xs @ drop (off + ?c) user"
  show ?case
  proof (cases "bs = []")
    case True
    then show ?thesis using cp Cons.prems by simp
  next
    case False
    then have big: "NGROUPS_PER_BLOCK < length xs" using Cons.prems by simp
    have "block_at bs i = Some (drop NGROUPS_PER_BLOCK xs ! i)" if "i < length xs - NGROUPS_PER_BLOCK" for i
      using Cons.prems(2) [rule_format, of "i + NGROUPS_PER_BLOCK"] that by (simp add: block_at_Cons add.commute)
    then have "to_user_loop bs (off + NGROUPS_PER_BLOCK) (length (drop NGROUPS_PER_BLOCK xs)) ?user =
        Some (None, take (off + NGROUPS_PER_BLOCK) ?user @ drop NGROUPS_PER_BLOCK xs @
          drop (off + NGROUPS_PER_BLOCK + length (drop NGROUPS_PER_BLOCK xs)) ?user)"
      using Cons.prems big by (intro Cons.IH) simp_all
    moreover have "take NGROUPS_PER_BLOCK xs @ drop NGROUPS_PER_BLOCK xs @ zs = xs @ zs" for zs by (simp flip: append_assoc)
    ultimately show ?thesis using cp big Cons.prems by (simp add: min_absorb1 add.commute)
  qed
qed simp

lemma fits_pages:
  "\<forall>b\<in>set bs. length b = NGROUPS_PER_BLOCK \<Longrightarrow> 0 < n \<Longrightarrow> length bs = (n + NGROUPS_PER_BLOCK - 1) div NGROUPS_PER_BLOCK \<Longrightarrow> fits n bs"
proof (induction bs arbitrary: n)
  case Nil
  then show ?case by (simp add: NGROUPS_PER_BLOCK_def div_eq_0_iff)
next
  case (Cons b bs)
  show ?case
  proof (cases "n \<le> NGROUPS_PER_BLOCK")
    case True
    then have "(n + NGROUPS_PER_BLOCK - 1) div NGROUPS_PER_BLOCK = 1"
      using Cons.prems(2) by (intro div_nat_eqI) (simp_all add: NGROUPS_PER_BLOCK_def)
    then show ?thesis using Cons.prems True by simp
  next
    case False
    then have "(n + NGROUPS_PER_BLOCK - 1) div NGROUPS_PER_BLOCK = Suc ((n - NGROUPS_PER_BLOCK + NGROUPS_PER_BLOCK - 1) div NGROUPS_PER_BLOCK)"
      by (simp add: NGROUPS_PER_BLOCK_def le_div_geq)
    then show ?thesis using Cons.IH [of "n - NGROUPS_PER_BLOCK"] Cons.prems False by simp
  qed
qed

lemma alloc_blocks_pages:
  "\<forall>i\<in>set is. page i \<noteq> None \<Longrightarrow> \<exists>bs. alloc_blocks page is = Some bs \<and> length bs = length is \<and> (\<forall>b\<in>set bs. length b = NGROUPS_PER_BLOCK)"
  by (induction "is") (auto simp: fresh_def)

lemma groups_alloc_fits:
  assumes "kmalloc \<noteq> None" and "\<forall>i. page i \<noteq> None"
  obtains gi where "groups_alloc kmalloc page n = Some gi" and "ngroups gi = n" and "nblocks gi = length (blocks gi)" and "fits n (blocks gi)"
proof (cases "n \<le> NGROUPS_SMALL")
  case True
  then have "(if (n + NGROUPS_PER_BLOCK - 1) div NGROUPS_PER_BLOCK \<noteq> 0 then (n + NGROUPS_PER_BLOCK - 1) div NGROUPS_PER_BLOCK else 1) = 1"
    by (cases "n = 0") (auto simp: NGROUPS_PER_BLOCK_def NGROUPS_SMALL_def intro!: div_nat_eqI)
  moreover obtain small where "kmalloc = Some small" using assms(1) by auto
  ultimately have "groups_alloc kmalloc page n = Some \<lparr>ngroups = n, nblocks = 1, blocks = [fresh NGROUPS_SMALL small]\<rparr>"
    using True by (simp only: groups_alloc_def Let_def option.case if_True)
  moreover have "length (fresh NGROUPS_SMALL small) = NGROUPS_SMALL" by (simp add: fresh_def)
  ultimately show ?thesis using that True by (simp add: NGROUPS_PER_BLOCK_def NGROUPS_SMALL_def)
next
  case False
  then have n: "0 < n" "(n + NGROUPS_PER_BLOCK - 1) div NGROUPS_PER_BLOCK \<noteq> 0" by (auto simp: NGROUPS_PER_BLOCK_def div_eq_0_iff)
  obtain bs where bs: "alloc_blocks page [0..<(n + NGROUPS_PER_BLOCK - 1) div NGROUPS_PER_BLOCK] = Some bs"
    "length bs = (n + NGROUPS_PER_BLOCK - 1) div NGROUPS_PER_BLOCK" "\<forall>b\<in>set bs. length b = NGROUPS_PER_BLOCK"
    using alloc_blocks_pages [of "[0..<(n + NGROUPS_PER_BLOCK - 1) div NGROUPS_PER_BLOCK]" page] assms(2) by auto
  then show ?thesis using that assms(1) False n fits_pages [OF bs(3) n(1) bs(2)] by (auto simp: groups_alloc_def Let_def)
qed

section \<open>Properties\<close>

lemma setgroups_success:
  assumes "capable" and "unat gidsetsize \<le> NGROUPS_MAX" and "kmalloc \<noteq> None" and "\<forall>i. page i \<noteq> None" and "prepare"
    and "unat gidsetsize \<le> length user"
  obtains gi where "sys_setgroups capable kmalloc page prepare cred gidsetsize user = Some (Inr (), cred\<lparr>cred_groups := Some gi\<rparr>)"
    and "gi_ok gi" and "ngroups gi = unat gidsetsize" and "flat gi = sort (take (unat gidsetsize) user)"
proof -
  let ?n = "unat gidsetsize"
  obtain gi0 where gi0: "groups_alloc kmalloc page ?n = Some gi0" "ngroups gi0 = ?n" "nblocks gi0 = length (blocks gi0)" "fits ?n (blocks gi0)"
    using groups_alloc_fits [OF assms(3,4)] .
  obtain bs where bs: "from_user_loop user 0 ?n (blocks gi0) = Some (Inr bs)" "length bs = length (blocks gi0)" "fits ?n bs"
    "\<forall>i<?n. block_at bs i = Some (user ! i)" using from_user_loop_fits [OF gi0(4), of 0 user] assms(6) by auto
  define gi1 where "gi1 = gi0\<lparr>blocks := bs\<rparr>"
  have gi1: "groups_from_user gi0 user = Some (Inr gi1)" using bs(1) gi0 by (simp add: groups_from_user_def gi1_def)
  have ok: "gi_ok gi1" using bs gi0 by (simp add: gi_ok_def gi1_def GROUP_AT_block_at)
  have "flat gi1 = take ?n user"
    by (rule nth_equalityI) (use bs gi0 assms(6) in \<open>auto simp: flat_def gi1_def GROUP_AT_block_at\<close>)
  then obtain gi where gi: "groups_sort gi1 = Some gi" "gi_ok gi" "ngroups gi = ?n" "flat gi = sort (take ?n user)"
    using groups_sort_sorts [OF ok] gi0(2) by (auto simp: gi1_def)
  then have "sys_setgroups capable kmalloc page prepare cred gidsetsize user = Some (Inr (), cred\<lparr>cred_groups := Some gi\<rparr>)"
    using assms(1,2,5) gi0(1) gi1 by (simp add: sys_setgroups_def set_current_groups_def set_groups_def)
  then show thesis using that gi by blast
qed

text \<open>
  C34. What \<^verbatim>\<open>setgroups\<close> stored, \<^verbatim>\<open>getgroups\<close> returns, sorted: for every number of groups up to
  \<^verbatim>\<open>NGROUPS_MAX\<close>, in one small block or in many pages, the sort and both copies stay inside the blocks and
  the caller gets the ids it set in ascending order, and their number.
\<close>

theorem setgroups_getgroups:
  assumes "capable" and "unat gidsetsize \<le> NGROUPS_MAX" and "kmalloc \<noteq> None" and "\<forall>i. page i \<noteq> None" and "prepare"
    and "unat gidsetsize \<le> length user" and "0 < sint size2" and "int (unat gidsetsize) \<le> sint size2" and "unat gidsetsize \<le> length out"
  shows "\<exists>cred'. sys_setgroups capable kmalloc page prepare cred gidsetsize user = Some (Inr (), cred') \<and>
    sys_getgroups cred' size2 out =
      Some (Inr (unat gidsetsize), sort (take (unat gidsetsize) user) @ drop (unat gidsetsize) out)"
proof -
  obtain gi where gi: "sys_setgroups capable kmalloc page prepare cred gidsetsize user = Some (Inr (), cred\<lparr>cred_groups := Some gi\<rparr>)"
    "gi_ok gi" "ngroups gi = unat gidsetsize" "flat gi = sort (take (unat gidsetsize) user)"
    using setgroups_success [OF assms(1-6)] .
  have "\<forall>i<length (flat gi). block_at (blocks gi) i = Some (flat gi ! i)"
    using GROUP_AT_flat [OF gi(2)] by (simp add: GROUP_AT_block_at)
  then have "to_user_loop (blocks gi) 0 (ngroups gi) out = Some (None, flat gi @ drop (ngroups gi) out)"
    using to_user_loop_fits [of "flat gi" "blocks gi" 0 out] gi(2,3) assms(9) by (simp add: gi_ok_def)
  then have "groups_to_user out gi = Some (None, flat gi @ drop (ngroups gi) out)"
    using gi(2) by (simp add: groups_to_user_def gi_ok_def)
  moreover have "size2 \<noteq> 0" using assms(7) by auto
  ultimately show ?thesis using gi assms(7,8) by (auto simp: sys_getgroups_def)
qed

theorem setgroups_getgroups_witness:
  "\<exists>cred'. sys_setgroups True (Some []) (\<lambda>_. Some []) True \<lparr>fsuid = 1, fsgid = 1, egid = 1, cred_groups = None\<rparr> 3 [30, 10, 20, 9]
       = Some (Inr (), cred') \<and>
     sys_getgroups cred' 4 [0, 0, 0, 0, 0] = Some (Inr 3, [10, 20, 30, 0, 0])"
  using setgroups_getgroups [of True 3 "Some []" "\<lambda>_. Some []" True "[30, 10, 20, 9]" 4 "[0, 0, 0, 0, 0]"
      "\<lparr>fsuid = 1, fsgid = 1, egid = 1, cred_groups = None\<rparr>"]
  by (simp add: NGROUPS_MAX_def)

text \<open>
  C11. Membership: after \<^verbatim>\<open>setgroups\<close>, \<^verbatim>\<open>in_group_p\<close> is true exactly for the file system group and the
  groups set, provided all ids are below \<open>2 ^ 31\<close>.
\<close>

theorem setgroups_members:
  assumes "capable" and "unat gidsetsize \<le> NGROUPS_MAX" and "kmalloc \<noteq> None" and "\<forall>i. page i \<noteq> None" and "prepare"
    and "unat gidsetsize \<le> length user" and "\<forall>g\<in>set (take (unat gidsetsize) user). unat g < 2 ^ 31" and "unat grp < 2 ^ 31"
  shows "\<exists>cred'. sys_setgroups capable kmalloc page prepare cred gidsetsize user = Some (Inr (), cred') \<and>
    in_group_p cred' grp = Some (grp = fsgid cred \<or> grp \<in> set (take (unat gidsetsize) user))"
proof -
  obtain gi where gi: "sys_setgroups capable kmalloc page prepare cred gidsetsize user = Some (Inr (), cred\<lparr>cred_groups := Some gi\<rparr>)"
    "gi_ok gi" "ngroups gi = unat gidsetsize" "flat gi = sort (take (unat gidsetsize) user)"
    using setgroups_success [OF assms(1-6)] .
  have "(grp \<in> set (flat gi)) = (\<exists>i. 0 \<le> i \<and> i < ngroups gi \<and> flat gi ! i = grp)" by (auto simp: in_set_conv_nth)
  moreover have "sorted (flat gi)" "\<forall>x\<in>set (flat gi). unat x < 2 ^ 31" using gi(4) assms(7) by simp_all
  ultimately have "search_loop gi grp 0 (ngroups gi) = Some (grp \<in> set (flat gi))"
    using search_loop_correct [OF gi(2) _ _ assms(8) order_refl, of 0] by presburger
  then show ?thesis using gi by (auto simp: in_group_p_def groups_search_def)
qed

theorem setgroups_members_witness:
  "\<exists>cred'. sys_setgroups True (Some []) (\<lambda>_. Some []) True \<lparr>fsuid = 1, fsgid = 1, egid = 1, cred_groups = None\<rparr> 3 [30, 10, 20]
       = Some (Inr (), cred') \<and> in_group_p cred' 10 = Some True"
  using setgroups_members [of True 3 "Some []" "\<lambda>_. Some []" True "[30, 10, 20]" 10
      "\<lparr>fsuid = 1, fsgid = 1, egid = 1, cred_groups = None\<rparr>"]
  by (simp add: NGROUPS_MAX_def)

text \<open>
  C40. The bound is needed: the array is sorted as unsigned numbers, but the search takes the sign of a
  32-bit difference. A task that sets the groups 1 and \<open>2 ^ 31 + 2\<close> is not found to be in group 1.
\<close>

theorem groups_search_misses:
  "\<exists>cred'. sys_setgroups True (Some []) (\<lambda>_. Some []) True \<lparr>fsuid = 0, fsgid = 0, egid = 0, cred_groups = None\<rparr> 2 [1, 0x80000002]
       = Some (Inr (), cred') \<and> in_group_p cred' 1 = Some False"
proof -
  obtain gi where gi: "sys_setgroups True (Some []) (\<lambda>_. Some []) True \<lparr>fsuid = 0, fsgid = 0, egid = 0, cred_groups = None\<rparr> 2 [1, 0x80000002]
      = Some (Inr (), \<lparr>fsuid = 0, fsgid = 0, egid = 0, cred_groups = Some gi\<rparr>)" "gi_ok gi" "ngroups gi = 2" "flat gi = [1, 0x80000002]"
    using setgroups_success [of True 2 "Some []" "\<lambda>_. Some []" True "[1, 0x80000002]" "\<lparr>fsuid = 0, fsgid = 0, egid = 0, cred_groups = None\<rparr>"]
    by (auto simp: NGROUPS_MAX_def)
  have "GROUP_AT gi 1 = Some 0x80000002" using GROUP_AT_flat [OF gi(2), of 1] gi(3,4) by simp
  then have "search_loop gi 1 0 2 = Some False" by (simp add: search_loop.simps)
  then show ?thesis using gi by (simp add: in_group_p_def groups_search_def)
qed

end
