(* ===== verification/Posix_Acl.thy ===== *)
theory Posix_Acl
  imports Supp_Groups
begin

text \<open>
  POSIX access control lists (\<^verbatim>\<open>fs/posix_acl.c\<close>, \<^verbatim>\<open>include/linux/posix_acl.h\<close>): the check of a list, the
  permission algorithm, and the conversions between lists and file modes. \<^verbatim>\<open>mode_t\<close> and permissions are
  16 bits wide. A pointer into the list is an index. \<open>None\<close> as a result of an \<^verbatim>\<open>int\<close> function is 0. The configuration
  of the board leaves this file out; it is built for file systems with such lists.
\<close>

section \<open>Lists\<close>

definition ACL_UNDEFINED_ID :: u32 where "ACL_UNDEFINED_ID = 0xffffffff"

definition ACL_USER_OBJ :: u16 where "ACL_USER_OBJ = 0x01"
definition ACL_USER :: u16 where "ACL_USER = 0x02"
definition ACL_GROUP_OBJ :: u16 where "ACL_GROUP_OBJ = 0x04"
definition ACL_GROUP :: u16 where "ACL_GROUP = 0x08"
definition ACL_MASK :: u16 where "ACL_MASK = 0x10"
definition ACL_OTHER :: u16 where "ACL_OTHER = 0x20"

lemmas acl_tags = ACL_USER_OBJ_def ACL_USER_def ACL_GROUP_OBJ_def ACL_GROUP_def ACL_MASK_def ACL_OTHER_def

definition S_IRWXU :: u16 where "S_IRWXU = 0x1c0"
definition S_IRWXG :: u16 where "S_IRWXG = 0x38"
definition S_IRWXO :: u16 where "S_IRWXO = 0x7"
definition S_IRWXUGO :: u16 where "S_IRWXUGO = S_IRWXU OR S_IRWXG OR S_IRWXO"

lemmas mode_bits = S_IRWXU_def S_IRWXG_def S_IRWXO_def S_IRWXUGO_def

record posix_acl_entry =
  e_tag :: u16
  e_perm :: u16
  e_id :: u32

record posix_acl =
  a_refcount :: u32
  a_entries :: "posix_acl_entry list"

text \<open>Fresh memory holds any entries.\<close>

definition posix_acl_alloc :: "posix_acl_entry list option \<Rightarrow> nat \<Rightarrow> posix_acl option" where
  "posix_acl_alloc kmalloc n =
     map_option (\<lambda>g. \<lparr>a_refcount = 1, a_entries = take n (g @ replicate n \<lparr>e_tag = 0, e_perm = 0, e_id = 0\<rparr>)\<rparr>) kmalloc"

definition posix_acl_clone :: "bool \<Rightarrow> posix_acl option \<Rightarrow> posix_acl option" where
  "posix_acl_clone kmemdup acl = (if kmemdup then map_option (\<lambda>a. a\<lparr>a_refcount := 1\<rparr>) acl else None)"

definition posix_acl_dup :: "posix_acl option \<Rightarrow> posix_acl option" where
  "posix_acl_dup acl = map_option (\<lambda>a. a\<lparr>a_refcount := a_refcount a + 1\<rparr>) acl"

text \<open>The list behind the pointer after a release, \<open>None\<close> once it is freed.\<close>

definition posix_acl_release :: "posix_acl option \<Rightarrow> posix_acl option" where
  "posix_acl_release acl =
     Option.bind acl (\<lambda>a. if a_refcount a - 1 = 0 then None else Some (a\<lparr>a_refcount := a_refcount a - 1\<rparr>))"

definition posix_acl_from_mode :: "posix_acl_entry list option \<Rightarrow> u16 \<Rightarrow> errno + posix_acl" where
  "posix_acl_from_mode kmalloc mode =
     (case posix_acl_alloc kmalloc 3 of
        None \<Rightarrow> Inl ENOMEM
      | Some acl \<Rightarrow> Inr (acl\<lparr>a_entries := (a_entries acl)
          [0 := \<lparr>e_tag = ACL_USER_OBJ, e_perm = drop_bit 6 (mode AND S_IRWXU), e_id = ACL_UNDEFINED_ID\<rparr>,
           1 := \<lparr>e_tag = ACL_GROUP_OBJ, e_perm = drop_bit 3 (mode AND S_IRWXG), e_id = ACL_UNDEFINED_ID\<rparr>,
           2 := \<lparr>e_tag = ACL_OTHER, e_perm = mode AND S_IRWXO, e_id = ACL_UNDEFINED_ID\<rparr>]\<rparr>))"

section \<open>Checking a list\<close>

text \<open>The loop gives the final state, or \<open>None\<close> for \<^verbatim>\<open>-EINVAL\<close>.\<close>

fun valid_loop :: "posix_acl_entry list \<Rightarrow> u16 \<Rightarrow> u32 \<Rightarrow> bool \<Rightarrow> u16 option" where
  "valid_loop [] state next_id needs_mask = Some state"
| "valid_loop (pa # rest) state next_id needs_mask =
     (if e_perm pa AND NOT 7 \<noteq> 0 then None
      else if e_tag pa = ACL_USER_OBJ then
        (if state = ACL_USER_OBJ then valid_loop rest ACL_USER 0 needs_mask else None)
      else if e_tag pa = ACL_USER then
        (if state \<noteq> ACL_USER then None
         else if e_id pa = ACL_UNDEFINED_ID \<or> e_id pa < next_id then None
         else valid_loop rest state (e_id pa + 1) True)
      else if e_tag pa = ACL_GROUP_OBJ then
        (if state = ACL_USER then valid_loop rest ACL_GROUP 0 needs_mask else None)
      else if e_tag pa = ACL_GROUP then
        (if state \<noteq> ACL_GROUP then None
         else if e_id pa = ACL_UNDEFINED_ID \<or> e_id pa < next_id then None
         else valid_loop rest state (e_id pa + 1) True)
      else if e_tag pa = ACL_MASK then
        (if state \<noteq> ACL_GROUP then None else valid_loop rest ACL_OTHER next_id needs_mask)
      else if e_tag pa = ACL_OTHER then
        (if state = ACL_OTHER \<or> state = ACL_GROUP \<and> \<not> needs_mask then valid_loop rest 0 next_id needs_mask else None)
      else None)"

definition posix_acl_valid :: "posix_acl \<Rightarrow> errno option" where
  "posix_acl_valid acl =
     (if valid_loop (a_entries acl) ACL_USER_OBJ 0 False = Some 0 then None else Some EINVAL)"

section \<open>Lists and modes\<close>

fun equiv_loop :: "posix_acl_entry list \<Rightarrow> u16 \<Rightarrow> bool \<Rightarrow> (u16 \<times> bool) option" where
  "equiv_loop [] mode not_equiv = Some (mode, not_equiv)"
| "equiv_loop (pa # rest) mode not_equiv =
     (if e_tag pa = ACL_USER_OBJ then equiv_loop rest (mode OR push_bit 6 (e_perm pa AND S_IRWXO)) not_equiv
      else if e_tag pa = ACL_GROUP_OBJ then equiv_loop rest (mode OR push_bit 3 (e_perm pa AND S_IRWXO)) not_equiv
      else if e_tag pa = ACL_OTHER then equiv_loop rest (mode OR (e_perm pa AND S_IRWXO)) not_equiv
      else if e_tag pa = ACL_MASK then
        equiv_loop rest ((mode AND NOT S_IRWXG) OR push_bit 3 (e_perm pa AND S_IRWXO)) True
      else if e_tag pa = ACL_USER \<or> e_tag pa = ACL_GROUP then equiv_loop rest mode True
      else None)"

definition posix_acl_equiv_mode :: "posix_acl \<Rightarrow> u16 option \<Rightarrow> (errno + bool) \<times> u16 option" where
  "posix_acl_equiv_mode acl mode_p =
     (case equiv_loop (a_entries acl) 0 False of
        None \<Rightarrow> (Inl EINVAL, mode_p)
      | Some (mode, not_equiv) \<Rightarrow> (Inr not_equiv, map_option (\<lambda>m. (m AND NOT S_IRWXUGO) OR mode) mode_p))"

text \<open>The loop of \<^verbatim>\<open>posix_acl_create_masq\<close>, from index \<open>i\<close> on: the changed entries, and the mode, the two
  pointers and the flag, or \<open>None\<close> for \<^verbatim>\<open>-EIO\<close>.\<close>

fun create_loop :: "posix_acl_entry list \<Rightarrow> nat \<Rightarrow> u16 \<Rightarrow> nat option \<Rightarrow> nat option \<Rightarrow> bool \<Rightarrow>
    posix_acl_entry list \<times> (u16 \<times> nat option \<times> nat option \<times> bool) option" where
  "create_loop [] i mode group_obj mask_obj not_equiv = ([], Some (mode, group_obj, mask_obj, not_equiv))"
| "create_loop (pa # rest) i mode group_obj mask_obj not_equiv =
     (let put = (\<lambda>pa (es, r). (pa # es, r)) in
      if e_tag pa = ACL_USER_OBJ then
        (let perm = e_perm pa AND (drop_bit 6 mode OR NOT S_IRWXO) in
         put (pa\<lparr>e_perm := perm\<rparr>) (create_loop rest (i + 1) (mode AND (push_bit 6 perm OR NOT S_IRWXU)) group_obj mask_obj not_equiv))
      else if e_tag pa = ACL_USER \<or> e_tag pa = ACL_GROUP then
        put pa (create_loop rest (i + 1) mode group_obj mask_obj True)
      else if e_tag pa = ACL_GROUP_OBJ then
        put pa (create_loop rest (i + 1) mode (Some i) mask_obj not_equiv)
      else if e_tag pa = ACL_OTHER then
        (let perm = e_perm pa AND (mode OR NOT S_IRWXO) in
         put (pa\<lparr>e_perm := perm\<rparr>) (create_loop rest (i + 1) (mode AND (perm OR NOT S_IRWXO)) group_obj mask_obj not_equiv))
      else if e_tag pa = ACL_MASK then
        put pa (create_loop rest (i + 1) mode group_obj (Some i) True)
      else (pa # rest, None))"

definition restrict_entry :: "posix_acl_entry list \<Rightarrow> nat \<Rightarrow> u16 \<Rightarrow> posix_acl_entry list \<times> u16" where
  "restrict_entry es k mode =
     (let perm = e_perm (es ! k) AND (drop_bit 3 mode OR NOT S_IRWXO) in
      (es[k := (es ! k)\<lparr>e_perm := perm\<rparr>], mode AND (push_bit 3 perm OR NOT S_IRWXG)))"

definition posix_acl_create_masq :: "posix_acl \<Rightarrow> u16 \<Rightarrow> (errno + bool) \<times> posix_acl \<times> u16" where
  "posix_acl_create_masq acl mode_p =
     (case create_loop (a_entries acl) 0 mode_p None None False of
        (es, None) \<Rightarrow> (Inl EIO, acl\<lparr>a_entries := es\<rparr>, mode_p)
      | (es, Some (mode, group_obj, mask_obj, not_equiv)) \<Rightarrow>
          (case (mask_obj, group_obj) of
             (None, None) \<Rightarrow> (Inl EIO, acl\<lparr>a_entries := es\<rparr>, mode_p)
           | (Some k, _) \<Rightarrow>
               (let (es', mode') = restrict_entry es k mode in
                (Inr not_equiv, acl\<lparr>a_entries := es'\<rparr>, (mode_p AND NOT S_IRWXUGO) OR mode'))
           | (None, Some k) \<Rightarrow>
               (let (es', mode') = restrict_entry es k mode in
                (Inr not_equiv, acl\<lparr>a_entries := es'\<rparr>, (mode_p AND NOT S_IRWXUGO) OR mode'))))"

fun chmod_loop :: "posix_acl_entry list \<Rightarrow> nat \<Rightarrow> u16 \<Rightarrow> nat option \<Rightarrow> nat option \<Rightarrow>
    posix_acl_entry list \<times> (nat option \<times> nat option) option" where
  "chmod_loop [] i mode group_obj mask_obj = ([], Some (group_obj, mask_obj))"
| "chmod_loop (pa # rest) i mode group_obj mask_obj =
     (let put = (\<lambda>pa (es, r). (pa # es, r)) in
      if e_tag pa = ACL_USER_OBJ then
        put (pa\<lparr>e_perm := drop_bit 6 (mode AND S_IRWXU)\<rparr>) (chmod_loop rest (i + 1) mode group_obj mask_obj)
      else if e_tag pa = ACL_USER \<or> e_tag pa = ACL_GROUP then
        put pa (chmod_loop rest (i + 1) mode group_obj mask_obj)
      else if e_tag pa = ACL_GROUP_OBJ then
        put pa (chmod_loop rest (i + 1) mode (Some i) mask_obj)
      else if e_tag pa = ACL_MASK then
        put pa (chmod_loop rest (i + 1) mode group_obj (Some i))
      else if e_tag pa = ACL_OTHER then
        put (pa\<lparr>e_perm := mode AND S_IRWXO\<rparr>) (chmod_loop rest (i + 1) mode group_obj mask_obj)
      else (pa # rest, None))"

definition posix_acl_chmod_masq :: "posix_acl \<Rightarrow> u16 \<Rightarrow> errno option \<times> posix_acl" where
  "posix_acl_chmod_masq acl mode =
     (case chmod_loop (a_entries acl) 0 mode None None of
        (es, None) \<Rightarrow> (Some EIO, acl\<lparr>a_entries := es\<rparr>)
      | (es, Some (group_obj, mask_obj)) \<Rightarrow>
          (case (mask_obj, group_obj) of
             (None, None) \<Rightarrow> (Some EIO, acl\<lparr>a_entries := es\<rparr>)
           | (Some k, _) \<Rightarrow> (None, acl\<lparr>a_entries := es[k := (es ! k)\<lparr>e_perm := drop_bit 3 (mode AND S_IRWXG)\<rparr>]\<rparr>)
           | (None, Some k) \<Rightarrow> (None, acl\<lparr>a_entries := es[k := (es ! k)\<lparr>e_perm := drop_bit 3 (mode AND S_IRWXG)\<rparr>]\<rparr>)))"

section \<open>Permission\<close>

text \<open>\<^verbatim>\<open>want\<close> is an \<^verbatim>\<open>int\<close>, to which the permissions are promoted.\<close>

text \<open>The labels \<open>check_perm\<close> and \<open>mask\<close>, the latter with the entries behind the one that matched.\<close>

definition check_perm :: "posix_acl_entry \<Rightarrow> u32 \<Rightarrow> errno option" where
  "check_perm pa want = (if ucast (e_perm pa) AND want = want then None else Some EACCES)"

fun mask_perm :: "posix_acl_entry \<Rightarrow> posix_acl_entry list \<Rightarrow> u32 \<Rightarrow> errno option" where
  "mask_perm pa [] want = check_perm pa want"
| "mask_perm pa (mask_obj # rest) want =
     (if e_tag mask_obj = ACL_MASK
      then if ucast (e_perm pa) AND ucast (e_perm mask_obj) AND want = want then None else Some EACCES
      else mask_perm pa rest want)"

text \<open>\<open>None\<close> is a membership test that leaves the array of groups.\<close>

fun permission_loop :: "cred \<Rightarrow> u32 \<Rightarrow> u32 \<Rightarrow> u32 \<Rightarrow> bool \<Rightarrow> posix_acl_entry list \<Rightarrow> errno option option" where
  "permission_loop cred i_uid i_gid want found [] = Some (Some EIO)"
| "permission_loop cred i_uid i_gid want found (pa # rest) =
     (let group = (\<lambda>gid. Option.bind (in_group_p cred gid) (\<lambda>member.
            if member
            then if ucast (e_perm pa) AND want = want then Some (mask_perm pa rest want)
                 else permission_loop cred i_uid i_gid want True rest
            else permission_loop cred i_uid i_gid want found rest)) in
      if e_tag pa = ACL_USER_OBJ then
        (if i_uid = fsuid cred then Some (check_perm pa want) else permission_loop cred i_uid i_gid want found rest)
      else if e_tag pa = ACL_USER then
        (if e_id pa = fsuid cred then Some (mask_perm pa rest want) else permission_loop cred i_uid i_gid want found rest)
      else if e_tag pa = ACL_GROUP_OBJ then group i_gid
      else if e_tag pa = ACL_GROUP then group (e_id pa)
      else if e_tag pa = ACL_MASK then permission_loop cred i_uid i_gid want found rest
      else if e_tag pa = ACL_OTHER then (if found then Some (Some EACCES) else Some (check_perm pa want))
      else Some (Some EIO))"

definition posix_acl_permission :: "cred \<Rightarrow> u32 \<Rightarrow> u32 \<Rightarrow> posix_acl \<Rightarrow> u32 \<Rightarrow> errno option option" where
  "posix_acl_permission cred i_uid i_gid acl want = permission_loop cred i_uid i_gid want False (a_entries acl)"

section \<open>The shape of a list\<close>

abbreviation mask_list :: "posix_acl_entry option \<Rightarrow> posix_acl_entry list" where
  "mask_list m \<equiv> (case m of None \<Rightarrow> [] | Some m \<Rightarrow> [m])"

definition tagged :: "u16 \<Rightarrow> posix_acl_entry \<Rightarrow> bool" where
  "tagged t e \<longleftrightarrow> e_tag e = t \<and> e_perm e AND NOT 7 = 0"

text \<open>Entries for named users or groups: each id once, in ascending order.\<close>

definition named :: "u16 \<Rightarrow> posix_acl_entry list \<Rightarrow> bool" where
  "named t es \<longleftrightarrow> (\<forall>e \<in> set es. tagged t e \<and> e_id e \<noteq> ACL_UNDEFINED_ID) \<and> sorted_wrt (<) (map e_id es)"

record acl_parts =
  user_obj :: posix_acl_entry
  users :: "posix_acl_entry list"
  group_obj :: posix_acl_entry
  group_entries :: "posix_acl_entry list"
  mask_obj :: "posix_acl_entry option"
  other :: posix_acl_entry

definition entries_of :: "acl_parts \<Rightarrow> posix_acl_entry list" where
  "entries_of p = user_obj p # users p @ group_obj p # group_entries p
     @ mask_list (mask_obj p) @ [other p]"

definition parts_ok :: "acl_parts \<Rightarrow> bool" where
  "parts_ok p \<longleftrightarrow> tagged ACL_USER_OBJ (user_obj p) \<and> named ACL_USER (users p) \<and> tagged ACL_GROUP_OBJ (group_obj p)
     \<and> named ACL_GROUP (group_entries p) \<and> (\<forall>m \<in> set_option (mask_obj p). tagged ACL_MASK m) \<and> tagged ACL_OTHER (other p)
     \<and> (mask_obj p = None \<longrightarrow> users p = [] \<and> group_entries p = [])"

text \<open>The same with the ids of the named entries at least \<open>k\<close>.\<close>

definition named_from :: "u32 \<Rightarrow> u16 \<Rightarrow> posix_acl_entry list \<Rightarrow> bool" where
  "named_from k t es \<longleftrightarrow> named t es \<and> (\<forall>e \<in> set es. k \<le> e_id e)"

lemma named_from_0 [simp]: "named_from 0 t es = named t es"
  by (simp add: named_from_def)

lemma named_from_Nil [simp]: "named_from k t []"
  by (simp add: named_from_def named_def)

lemma Suc_le_word:
  assumes "x \<noteq> ACL_UNDEFINED_ID" shows "x + 1 \<le> y \<longleftrightarrow> x < (y :: u32)"
proof -
  have "1 + x \<noteq> 0" using assms by (auto simp: ACL_UNDEFINED_ID_def add_eq_0_iff)
  then have "unat (1 + x) = Suc (unat x)" by (rule unatSuc)
  then show ?thesis by (simp add: word_le_nat_alt word_less_nat_alt add.commute Suc_le_eq)
qed

lemma named_from_Cons:
  "named_from k t (e # es) \<longleftrightarrow> tagged t e \<and> e_id e \<noteq> ACL_UNDEFINED_ID \<and> k \<le> e_id e \<and> named_from (e_id e + 1) t es"
  by (auto simp: named_from_def named_def Suc_le_word intro: order.strict_implies_order order.trans)

lemma valid_loop_end: "valid_loop es 0 k nm = Some 0 \<longleftrightarrow> es = []"
  by (cases es) (auto simp: acl_tags)

lemma valid_loop_other: "valid_loop es ACL_OTHER k nm = Some 0 \<longleftrightarrow> (\<exists>ot. es = [ot] \<and> tagged ACL_OTHER ot)"
  by (cases es) (auto simp: acl_tags valid_loop_end tagged_def split: if_splits)

definition tail_ok :: "bool \<Rightarrow> posix_acl_entry list \<Rightarrow> posix_acl_entry option \<Rightarrow> posix_acl_entry \<Rightarrow> bool" where
  "tail_ok nm gs m ot \<longleftrightarrow> (\<forall>m' \<in> set_option m. tagged ACL_MASK m') \<and> tagged ACL_OTHER ot \<and> (m = None \<longrightarrow> gs = [] \<and> \<not> nm)"

lemma tail_Cons:
  "e # es = gs @ mask_list m @ [ot] \<longleftrightarrow> (\<exists>gs'. gs = e # gs' \<and> es = gs' @ mask_list m @ [ot])
     \<or> gs = [] \<and> m = Some e \<and> es = [ot] \<or> gs = [] \<and> m = None \<and> es = [] \<and> ot = e"
  by (cases gs; cases m) auto

lemma valid_loop_group:
  "valid_loop es ACL_GROUP k nm = Some 0 \<longleftrightarrow>
     (\<exists>gs m ot. es = gs @ mask_list m @ [ot] \<and> named_from k ACL_GROUP gs \<and> tail_ok nm gs m ot)" (is "_ = ?R es k nm")
proof (induction es arbitrary: k nm)
  case (Cons e es)
  consider (group) "e_tag e = ACL_GROUP" | (mask) "e_tag e = ACL_MASK" | (other) "e_tag e = ACL_OTHER"
    | (none) "e_tag e \<notin> {ACL_GROUP, ACL_MASK, ACL_OTHER}" by blast
  then show ?case
  proof cases
    case group
    have "?R (e # es) k nm \<longleftrightarrow> tagged ACL_GROUP e \<and> e_id e \<noteq> ACL_UNDEFINED_ID \<and> k \<le> e_id e \<and> ?R es (e_id e + 1) True"
      (is "_ \<longleftrightarrow> ?r")
    proof
      assume "?R (e # es) k nm"
      then obtain gs m ot where r: "e # es = gs @ mask_list m @ [ot]" "named_from k ACL_GROUP gs" "tail_ok nm gs m ot" by blast
      then have "gs \<noteq> []" using group by (auto simp: tail_ok_def tagged_def acl_tags tail_Cons)
      then obtain gs' where "gs = e # gs'" "es = gs' @ mask_list m @ [ot]" using r(1) by (cases gs) auto
      with r show ?r by (auto simp: named_from_Cons tail_ok_def)
    next
      assume ?r
      then obtain gs m ot where "es = gs @ mask_list m @ [ot]" "named_from (e_id e + 1) ACL_GROUP gs" "tail_ok True gs m ot" by blast
      with \<open>?r\<close> show "?R (e # es) k nm"
        by (intro exI [of _ "e # gs"] exI [of _ m] exI [of _ ot]) (auto simp: named_from_Cons tail_ok_def)
    qed
    with group show ?thesis using Cons.IH [of "e_id e + 1" True] by (auto simp: acl_tags tagged_def not_less)
  next
    case mask
    have "?R (e # es) k nm \<longleftrightarrow> tagged ACL_MASK e \<and> (\<exists>ot. es = [ot] \<and> tagged ACL_OTHER ot)" (is "_ \<longleftrightarrow> ?r")
    proof
      assume "?R (e # es) k nm"
      then show ?r using mask
        unfolding tail_Cons by (auto simp: tail_ok_def tagged_def named_from_Cons acl_tags)
    next
      assume ?r
      then show "?R (e # es) k nm" by (intro exI [of _ "[]"] exI [of _ "Some e"]) (auto simp: tail_ok_def)
    qed
    with mask show ?thesis by (auto simp: acl_tags tagged_def valid_loop_other [unfolded acl_tags])
  next
    case other
    have "?R (e # es) k nm \<longleftrightarrow> tagged ACL_OTHER e \<and> es = [] \<and> \<not> nm" (is "_ \<longleftrightarrow> ?r")
    proof
      assume "?R (e # es) k nm"
      then show ?r using other
        unfolding tail_Cons by (auto simp: tail_ok_def tagged_def named_from_Cons acl_tags)
    next
      assume ?r
      then show "?R (e # es) k nm" by (intro exI [of _ "[]"] exI [of _ None]) (auto simp: tail_ok_def)
    qed
    with other show ?thesis by (auto simp: acl_tags tagged_def valid_loop_end)
  next
    case none
    then have "\<not> ?R (e # es) k nm"
      unfolding tail_Cons by (auto simp: tail_ok_def tagged_def named_from_Cons)
    with none show ?thesis by (auto simp: acl_tags)
  qed
qed (simp add: acl_tags)

lemma valid_loop_user:
  "valid_loop es ACL_USER k nm = Some 0 \<longleftrightarrow>
     (\<exists>us go gs m ot. es = us @ go # gs @ mask_list m @ [ot] \<and> named_from k ACL_USER us \<and> tagged ACL_GROUP_OBJ go
        \<and> named ACL_GROUP gs \<and> tail_ok (nm \<or> us \<noteq> []) gs m ot)" (is "_ = ?R es k nm")
proof (induction es arbitrary: k nm)
  case (Cons e es)
  consider (user) "e_tag e = ACL_USER" | (obj) "e_tag e = ACL_GROUP_OBJ" | (none) "e_tag e \<notin> {ACL_USER, ACL_GROUP_OBJ}"
    by blast
  then show ?case
  proof cases
    case user
    have "?R (e # es) k nm \<longleftrightarrow> tagged ACL_USER e \<and> e_id e \<noteq> ACL_UNDEFINED_ID \<and> k \<le> e_id e \<and> ?R es (e_id e + 1) True"
      (is "_ \<longleftrightarrow> ?r")
    proof
      assume "?R (e # es) k nm"
      then obtain us go gs m ot where r: "e # es = us @ go # gs @ mask_list m @ [ot]" "named_from k ACL_USER us"
          "tagged ACL_GROUP_OBJ go" "named ACL_GROUP gs" "tail_ok (nm \<or> us \<noteq> []) gs m ot" by blast
      then have "us \<noteq> []" using user by (auto simp: tagged_def acl_tags)
      then obtain us' where "us = e # us'" "es = us' @ go # gs @ mask_list m @ [ot]" using r(1) by (cases us) auto
      with r show ?r by (auto simp: named_from_Cons)
    next
      assume ?r
      then obtain us go gs m ot where "es = us @ go # gs @ mask_list m @ [ot]" "named_from (e_id e + 1) ACL_USER us"
          "tagged ACL_GROUP_OBJ go" "named ACL_GROUP gs" "tail_ok True gs m ot" by auto
      with \<open>?r\<close> show "?R (e # es) k nm"
        by (intro exI [of _ "e # us"] exI [of _ go] exI [of _ gs] exI [of _ m] exI [of _ ot]) (auto simp: named_from_Cons)
    qed
    with user show ?thesis using Cons.IH [of "e_id e + 1" True] by (auto simp: acl_tags tagged_def not_less)
  next
    case obj
    have "?R (e # es) k nm \<longleftrightarrow> tagged ACL_GROUP_OBJ e
        \<and> (\<exists>gs m ot. es = gs @ mask_list m @ [ot] \<and> named_from 0 ACL_GROUP gs \<and> tail_ok nm gs m ot)" (is "_ \<longleftrightarrow> ?r")
    proof
      assume "?R (e # es) k nm"
      then obtain us go gs m ot where r: "e # es = us @ go # gs @ mask_list m @ [ot]" "named_from k ACL_USER us"
          "tagged ACL_GROUP_OBJ go" "named ACL_GROUP gs" "tail_ok (nm \<or> us \<noteq> []) gs m ot" by blast
      moreover from r(1,2) obj have "us = []" by (cases us) (auto simp: named_from_Cons tagged_def acl_tags)
      ultimately show ?r by auto
    next
      assume ?r
      then obtain gs m ot where "es = gs @ mask_list m @ [ot]" "named_from 0 ACL_GROUP gs" "tail_ok nm gs m ot" by blast
      with \<open>?r\<close> show "?R (e # es) k nm"
        by (intro exI [of _ "[]"] exI [of _ e] exI [of _ gs] exI [of _ m] exI [of _ ot]) auto
    qed
    with obj show ?thesis by (auto simp: acl_tags tagged_def valid_loop_group [unfolded acl_tags])
  next
    case none
    then have "\<not> ?R (e # es) k nm" by (auto simp: tagged_def named_from_Cons Cons_eq_append_conv)
    with none show ?thesis by (auto simp: acl_tags)
  qed
qed (simp add: acl_tags)

lemma valid_parts: "posix_acl_valid acl = None \<longleftrightarrow> (\<exists>p. a_entries acl = entries_of p \<and> parts_ok p)"
proof -
  have "posix_acl_valid acl = None \<longleftrightarrow>
      (\<exists>uo es. a_entries acl = uo # es \<and> tagged ACL_USER_OBJ uo \<and> valid_loop es ACL_USER 0 False = Some 0)"
    unfolding posix_acl_valid_def by (cases "a_entries acl") (auto simp: acl_tags tagged_def)
  also have "\<dots> \<longleftrightarrow> (\<exists>uo us go gs m ot. a_entries acl = entries_of \<lparr>user_obj = uo, users = us, group_obj = go, group_entries = gs,
      mask_obj = m, other = ot\<rparr> \<and> parts_ok \<lparr>user_obj = uo, users = us, group_obj = go, group_entries = gs, mask_obj = m, other = ot\<rparr>)"
    unfolding valid_loop_user entries_of_def parts_ok_def tail_ok_def named_from_0 acl_parts.simps by blast
  also have "\<dots> \<longleftrightarrow> (\<exists>p. a_entries acl = entries_of p \<and> parts_ok p)" by (metis acl_parts.cases)
  finally show ?thesis .
qed

section \<open>Who is granted what\<close>

definition grants :: "posix_acl_entry \<Rightarrow> u32 \<Rightarrow> bool" where
  "grants e want \<longleftrightarrow> ucast (e_perm e) AND want = want"

definition mask_grants :: "posix_acl_entry option \<Rightarrow> u32 \<Rightarrow> bool" where
  "mask_grants m want \<longleftrightarrow> (\<forall>k \<in> set_option m. grants k want)"

text \<open>The access check of POSIX 1003.1e, draft 17, for a process with user id \<open>uid\<close> that is a member of the
  groups \<open>member\<close>: the owner, then a named user, then the groups the process is in, then everybody else. All but
  owner and others are limited by the mask.\<close>

definition group_class :: "u32 \<Rightarrow> acl_parts \<Rightarrow> (u32 \<times> posix_acl_entry) list" where
  "group_class i_gid p = (i_gid, group_obj p) # map (\<lambda>e. (e_id e, e)) (group_entries p)"

definition access_check :: "u32 \<Rightarrow> (u32 \<Rightarrow> bool) \<Rightarrow> u32 \<Rightarrow> u32 \<Rightarrow> acl_parts \<Rightarrow> u32 \<Rightarrow> bool" where
  "access_check uid member i_uid i_gid p want =
     (if i_uid = uid then grants (user_obj p) want
      else if \<exists>e \<in> set (users p). e_id e = uid
        then (\<exists>e \<in> set (users p). e_id e = uid \<and> grants e want) \<and> mask_grants (mask_obj p) want
      else if \<exists>(g, e) \<in> set (group_class i_gid p). member g
        then (\<exists>(g, e) \<in> set (group_class i_gid p). member g \<and> grants e want) \<and> mask_grants (mask_obj p) want
      else grants (other p) want)"

lemma and_and_iff: "(a AND b AND w = w) \<longleftrightarrow> (a AND w = w) \<and> (b AND w = w)" for a b w :: "'a::len word"
  by (auto simp: bit_eq_iff bit_simps)

lemma check_perm_grants: "check_perm e want = (if grants e want then None else Some EACCES)"
  by (simp add: check_perm_def grants_def)

lemma mask_perm_tail:
  assumes "\<forall>x \<in> set xs. e_tag x \<noteq> ACL_MASK" "\<forall>k \<in> set_option m. e_tag k = ACL_MASK" "e_tag ot = ACL_OTHER"
  shows "mask_perm e (xs @ mask_list m @ [ot]) want = (if grants e want \<and> mask_grants m want then None else Some EACCES)"
  using assms(1)
proof (induction xs)
  case Nil
  then show ?case using assms(2,3)
    by (cases m) (auto simp: grants_def mask_grants_def check_perm_def and_and_iff acl_tags and.assoc)
qed simp

lemma permission_users:
  assumes "named ACL_USER us" "\<forall>x \<in> set xs. e_tag x \<noteq> ACL_MASK"
    "\<forall>k \<in> set_option m. e_tag k = ACL_MASK" "e_tag ot = ACL_OTHER"
  shows "permission_loop cred i_uid i_gid want found (us @ xs @ mask_list m @ [ot]) =
     (if \<exists>e \<in> set us. e_id e = fsuid cred
      then Some (if (\<exists>e \<in> set us. e_id e = fsuid cred \<and> grants e want) \<and> mask_grants m want then None else Some EACCES)
      else permission_loop cred i_uid i_gid want found (xs @ mask_list m @ [ot]))"
  using assms(1)
proof (induction us)
  case (Cons u us)
  have tag: "e_tag u = ACL_USER" "named ACL_USER us" and less: "\<forall>e \<in> set us. e_id u < e_id e"
    and "\<forall>x \<in> set us. e_tag x = ACL_USER"
    using Cons.prems by (auto simp: named_def tagged_def)
  then have "\<forall>x \<in> set (us @ xs). e_tag x \<noteq> ACL_MASK" using assms(2) by (auto simp: acl_tags)
  note mp = mask_perm_tail [OF this assms(3,4), of u want]
  show ?case
  proof (cases "e_id u = fsuid cred")
    case True
    with less have "\<not> (\<exists>e \<in> set us. e_id e = fsuid cred)" by auto
    with True tag mp show ?thesis by (auto simp: acl_tags)
  next
    case False
    then show ?thesis using Cons.IH [OF tag(2)] tag(1) by (simp add: acl_tags)
  qed
qed simp

lemma permission_tail:
  assumes "\<forall>k \<in> set_option m. e_tag k = ACL_MASK" "e_tag ot = ACL_OTHER"
  shows "permission_loop cred i_uid i_gid want found (mask_list m @ [ot]) =
    Some (if \<not> found \<and> grants ot want then None else Some EACCES)"
  using assms by (cases m) (auto simp: acl_tags check_perm_grants)

definition group_id :: "u32 \<Rightarrow> posix_acl_entry \<Rightarrow> u32" where
  "group_id i_gid e = (if e_tag e = ACL_GROUP_OBJ then i_gid else e_id e)"

lemma permission_groups:
  assumes member: "\<And>g. in_group_p cred g = Some (member g)"
    and "\<forall>x \<in> set gs. e_tag x = ACL_GROUP_OBJ \<or> e_tag x = ACL_GROUP"
    "\<forall>k \<in> set_option m. e_tag k = ACL_MASK" "e_tag ot = ACL_OTHER"
  shows "permission_loop cred i_uid i_gid want found (gs @ mask_list m @ [ot]) =
     Some (if \<exists>e \<in> set gs. member (group_id i_gid e) \<and> grants e want
           then if mask_grants m want then None else Some EACCES
           else if \<not> found \<and> \<not> (\<exists>e \<in> set gs. member (group_id i_gid e)) \<and> grants ot want then None else Some EACCES)"
  using assms(2)
proof (induction gs arbitrary: found)
  case Nil
  then show ?case by (simp add: permission_tail assms(3,4))
next
  case (Cons g gs)
  then have "\<forall>x \<in> set gs. e_tag x \<noteq> ACL_MASK" by (auto simp: acl_tags)
  note mp = mask_perm_tail [OF this assms(3,4), of g want]
  have step: "permission_loop cred i_uid i_gid want found ((g # gs) @ mask_list m @ [ot]) =
     (if member (group_id i_gid g)
      then if grants g want then Some (mask_perm g (gs @ mask_list m @ [ot]) want)
           else permission_loop cred i_uid i_gid want True (gs @ mask_list m @ [ot])
      else permission_loop cred i_uid i_gid want found (gs @ mask_list m @ [ot]))"
    using Cons.prems by (auto simp: member group_id_def grants_def acl_tags)
  from Cons.prems have "\<forall>x \<in> set gs. e_tag x = ACL_GROUP_OBJ \<or> e_tag x = ACL_GROUP" by simp
  note IH = Cons.IH [OF this]
  show ?case unfolding step mp IH by auto
qed

lemma permission_parts:
  assumes ok: "parts_ok p" and entries: "a_entries acl = entries_of p" and member: "\<And>g. in_group_p cred g = Some (member g)"
  shows "posix_acl_permission cred i_uid i_gid acl want =
    Some (if access_check (fsuid cred) member i_uid i_gid p want then None else Some EACCES)"
proof -
  let ?gs = "group_obj p # group_entries p"
  have us: "named ACL_USER (users p)" and m: "\<forall>k \<in> set_option (mask_obj p). e_tag k = ACL_MASK" and ot: "e_tag (other p) = ACL_OTHER"
    and uo: "e_tag (user_obj p) = ACL_USER_OBJ" and go: "e_tag (group_obj p) = ACL_GROUP_OBJ"
    and gs: "\<forall>x \<in> set (group_entries p). e_tag x = ACL_GROUP"
    using ok by (auto simp: parts_ok_def tagged_def named_def)
  then have tags: "\<forall>x \<in> set ?gs. e_tag x = ACL_GROUP_OBJ \<or> e_tag x = ACL_GROUP" and nomask: "\<forall>x \<in> set ?gs. e_tag x \<noteq> ACL_MASK"
    by (auto simp: acl_tags)
  have cls: "(\<exists>(g, e) \<in> set (group_class i_gid p). P g e) \<longleftrightarrow> (\<exists>e \<in> set ?gs. P (group_id i_gid e) e)" for P
    using go gs by (auto simp: group_class_def group_id_def acl_tags)
  have "posix_acl_permission cred i_uid i_gid acl want =
    (if i_uid = fsuid cred then Some (check_perm (user_obj p) want)
     else permission_loop cred i_uid i_gid want False (users p @ ?gs @ mask_list (mask_obj p) @ [other p]))"
    using uo by (simp add: posix_acl_permission_def entries entries_of_def)
  then show ?thesis
    unfolding permission_users [OF us nomask m ot] permission_groups [OF member tags m ot] access_check_def cls check_perm_grants
    by auto
qed

section \<open>Changing the permissions\<close>

text \<open>The permissions of owner, group class and others replaced by a function of the old ones.\<close>

definition map_class :: "(u16 \<Rightarrow> u16) \<Rightarrow> (u16 \<Rightarrow> u16) \<Rightarrow> (u16 \<Rightarrow> u16) \<Rightarrow> acl_parts \<Rightarrow> acl_parts" where
  "map_class fu fg fo p = p\<lparr>user_obj := (user_obj p)\<lparr>e_perm := fu (e_perm (user_obj p))\<rparr>,
     group_obj := (if mask_obj p = None then (group_obj p)\<lparr>e_perm := fg (e_perm (group_obj p))\<rparr> else group_obj p),
     mask_obj := map_option (\<lambda>k. k\<lparr>e_perm := fg (e_perm k)\<rparr>) (mask_obj p),
     other := (other p)\<lparr>e_perm := fo (e_perm (other p))\<rparr>\<rparr>"

definition perm_ok :: "u16 \<Rightarrow> bool" where
  "perm_ok x \<longleftrightarrow> x AND NOT 7 = 0"

lemma seven_mask: "(7 :: u16) = mask 3"
  by (simp add: mask_eq_exp_minus_1)

lemma perm_ok_bit: "perm_ok x \<longleftrightarrow> (\<forall>n. bit x n \<longrightarrow> n < 3)"
proof -
  have len: "bit x n \<Longrightarrow> n < 16" for n using bit_imp_le_length [of x n] by simp
  have "perm_ok x \<longleftrightarrow> (\<forall>n < 16. bit x n \<longrightarrow> n < 3)"
    unfolding perm_ok_def seven_mask bit_eq_iff by (auto simp: bit_simps)
  with len show ?thesis by blast
qed

lemma mode_masks: "S_IRWXO = mask 3" "S_IRWXG = push_bit 3 (mask 3)" "S_IRWXU = push_bit 6 (mask 3)" "S_IRWXUGO = mask 9"
  by (simp_all add: mode_bits mask_eq_exp_minus_1 push_bit_eq_mult)

definition keeps_perm :: "(u16 \<Rightarrow> u16) \<Rightarrow> bool" where
  "keeps_perm f \<longleftrightarrow> (\<forall>x. perm_ok x \<longrightarrow> perm_ok (f x))"

lemma tagged_perm: "keeps_perm f \<Longrightarrow> tagged t e \<Longrightarrow> tagged t (e\<lparr>e_perm := f (e_perm e)\<rparr>)"
  unfolding keeps_perm_def tagged_def perm_ok_def [symmetric] by simp

lemma map_class_ok:
  assumes "parts_ok p" "keeps_perm fu" "keeps_perm fg" "keeps_perm fo"
  shows "parts_ok (map_class fu fg fo p)"
  using assms unfolding parts_ok_def map_class_def by (cases "mask_obj p") (simp_all add: tagged_perm named_def)

text \<open>The permission bits a list stands for.\<close>

definition class_perm :: "acl_parts \<Rightarrow> u16" where
  "class_perm p = (case mask_obj p of None \<Rightarrow> e_perm (group_obj p) | Some k \<Rightarrow> e_perm k)"

definition mode_of :: "acl_parts \<Rightarrow> u16" where
  "mode_of p = push_bit 6 (e_perm (user_obj p)) OR push_bit 3 (class_perm p) OR e_perm (other p)"

lemma equiv_loop_named:
  assumes "\<forall>x \<in> set xs. e_tag x = ACL_USER \<or> e_tag x = ACL_GROUP"
  shows "equiv_loop (xs @ es) mode ne = equiv_loop es mode (ne \<or> xs \<noteq> [])"
  using assms by (induction xs arbitrary: ne) (auto simp: acl_tags)

lemma perm_and_7: "perm_ok x \<Longrightarrow> x AND S_IRWXO = x"
  unfolding mode_masks perm_ok_bit by (intro bit_word_eqI) (auto simp: bit_simps)

lemma named_tags:
  assumes "parts_ok p"
  shows "\<forall>x \<in> set (users p). e_tag x = ACL_USER \<or> e_tag x = ACL_GROUP"
    "\<forall>x \<in> set (group_entries p). e_tag x = ACL_USER \<or> e_tag x = ACL_GROUP"
  using assms by (auto simp: parts_ok_def named_def tagged_def)

lemma part_tags:
  assumes "parts_ok p"
  shows "e_tag (user_obj p) = ACL_USER_OBJ" "e_tag (group_obj p) = ACL_GROUP_OBJ" "e_tag (other p) = ACL_OTHER"
    "mask_obj p = Some k \<Longrightarrow> e_tag k = ACL_MASK"
  using assms by (auto simp: parts_ok_def tagged_def)

lemma part_perms:
  assumes "parts_ok p"
  shows "perm_ok (e_perm (user_obj p))" "perm_ok (e_perm (group_obj p))" "perm_ok (e_perm (other p))"
    "mask_obj p = Some k \<Longrightarrow> perm_ok (e_perm k)" "perm_ok (class_perm p)"
  using assms by (auto simp: parts_ok_def tagged_def perm_ok_def class_perm_def split: option.splits)

lemma mode_of_mask:
  assumes "perm_ok u" "perm_ok g" "perm_ok k"
  shows "(push_bit 6 u OR push_bit 3 g) AND NOT S_IRWXG OR push_bit 3 k = push_bit 6 u OR push_bit 3 k"
  using assms unfolding mode_masks perm_ok_bit by (intro bit_word_eqI) (auto simp: bit_simps)

lemma equiv_mode_parts:
  assumes ok: "parts_ok p" and entries: "a_entries acl = entries_of p"
  shows "posix_acl_equiv_mode acl mode_p =
    (Inr (mask_obj p \<noteq> None), map_option (\<lambda>m. (m AND NOT S_IRWXUGO) OR mode_of p) mode_p)"
proof -
  note tags = part_tags [OF ok] and perms = part_perms [OF ok] and loops = named_tags [OF ok, THEN equiv_loop_named]
  have "equiv_loop (entries_of p) 0 False = Some (mode_of p, mask_obj p \<noteq> None)"
  proof (cases "mask_obj p")
    case None
    then have "users p = []" "group_entries p = []" using ok by (auto simp: parts_ok_def)
    with None show ?thesis using tags perms
      by (simp add: entries_of_def acl_tags perm_and_7 mode_of_def class_perm_def or.assoc)
  next
    case (Some k)
    with tags perms show ?thesis
      by (simp add: entries_of_def loops acl_tags perm_and_7 mode_of_def class_perm_def mode_of_mask or.assoc [symmetric])
  qed
  then show ?thesis by (simp add: posix_acl_equiv_mode_def entries)
qed

lemma chmod_loop_named:
  assumes "\<forall>x \<in> set xs. e_tag x = ACL_USER \<or> e_tag x = ACL_GROUP"
  shows "chmod_loop (xs @ es) i mode g m = (let (es', r) = chmod_loop es (i + length xs) mode g m in (xs @ es', r))"
  using assms by (induction xs arbitrary: i) (auto simp: acl_tags split: prod.splits)

definition chmod_class :: "u16 \<Rightarrow> acl_parts \<Rightarrow> acl_parts" where
  "chmod_class mode =
     map_class (\<lambda>_. drop_bit 6 (mode AND S_IRWXU)) (\<lambda>_. drop_bit 3 (mode AND S_IRWXG)) (\<lambda>_. mode AND S_IRWXO)"

lemma chmod_parts:
  assumes ok: "parts_ok p" and entries: "a_entries acl = entries_of p"
  shows "posix_acl_chmod_masq acl mode = (None, acl\<lparr>a_entries := entries_of (chmod_class mode p)\<rparr>)"
proof -
  note tags = part_tags [OF ok] and loops = named_tags [OF ok, THEN chmod_loop_named]
  show ?thesis
  proof (cases "mask_obj p")
    case None
    then have "users p = []" "group_entries p = []" using ok by (auto simp: parts_ok_def)
    with None show ?thesis using tags
      by (simp add: posix_acl_chmod_masq_def entries entries_of_def acl_tags chmod_class_def map_class_def)
  next
    case (Some k)
    with tags show ?thesis
      by (simp add: posix_acl_chmod_masq_def entries entries_of_def loops acl_tags chmod_class_def map_class_def nth_append list_update_append)
  qed
qed

definition restrict_to :: "u16 \<Rightarrow> u16 \<Rightarrow> u16" where
  "restrict_to x perm = perm AND (x OR NOT S_IRWXO)"

lemma create_loop_named:
  assumes "\<forall>x \<in> set xs. e_tag x = ACL_USER \<or> e_tag x = ACL_GROUP"
  shows "create_loop (xs @ es) i mode g m ne =
    (let (es', r) = create_loop es (i + length xs) mode g m (ne \<or> xs \<noteq> []) in (xs @ es', r))"
  using assms by (induction xs arbitrary: i ne) (auto simp: acl_tags split: prod.splits)

definition create_class :: "u16 \<Rightarrow> acl_parts \<Rightarrow> acl_parts" where
  "create_class mode = map_class (restrict_to (drop_bit 6 mode)) (restrict_to (drop_bit 3 mode)) (restrict_to mode)"

text \<open>The mode as the code changes it, for the permissions \<open>u\<close>, \<open>c\<close> and \<open>k\<close> of owner, others and group class.\<close>

definition owner_mode :: "u16 \<Rightarrow> u16 \<Rightarrow> u16" where
  "owner_mode mode u = mode AND (push_bit 6 (restrict_to (drop_bit 6 mode) u) OR NOT S_IRWXU)"

definition other_mode :: "u16 \<Rightarrow> u16 \<Rightarrow> u16 \<Rightarrow> u16" where
  "other_mode mode u c = owner_mode mode u AND (restrict_to mode c OR NOT S_IRWXO)"

lemmas masq_bits = owner_mode_def other_mode_def restrict_to_def mode_masks perm_ok_bit

lemma restrict_other: "perm_ok c \<Longrightarrow> c AND (owner_mode mode u OR NOT S_IRWXO) = restrict_to mode c"
  unfolding masq_bits by (intro bit_word_eqI) (auto simp: bit_simps)

lemma restrict_class: "perm_ok k \<Longrightarrow> k AND (drop_bit 3 (other_mode mode u c) OR NOT S_IRWXO) = restrict_to (drop_bit 3 mode) k"
  unfolding masq_bits by (intro bit_word_eqI) (auto simp: bit_simps)

lemma masq_mode:
  assumes "perm_ok u" "perm_ok c" "perm_ok k"
  shows "(mode AND NOT S_IRWXUGO) OR (other_mode mode u c AND (push_bit 3 (restrict_to (drop_bit 3 mode) k) OR NOT S_IRWXG)) =
    (mode AND NOT S_IRWXUGO) OR (push_bit 6 (restrict_to (drop_bit 6 mode) u) OR push_bit 3 (restrict_to (drop_bit 3 mode) k)
       OR restrict_to mode c)" (is "?l = ?r")
proof (rule bit_word_eqI)
  fix n
  assume n: "n < LENGTH(16)"
  have perm: "\<not> bit u i" "\<not> bit c i" "\<not> bit k i" if "3 \<le> i" for i
    using assms that by (auto simp: perm_ok_bit)
  consider (o) "n < 3" | (g) "3 \<le> n" "n < 6" | (u) "6 \<le> n" "n < 9" | (rest) "9 \<le> n" by linarith
  then show "bit ?l n = bit ?r n"
  proof cases
    case o
    then show ?thesis by (simp add: owner_mode_def other_mode_def restrict_to_def mode_masks bit_simps) blast
  next
    case g
    then have "n - 3 < 3" by linarith
    with g show ?thesis using perm(2) [of n]
      by (simp add: owner_mode_def other_mode_def restrict_to_def mode_masks bit_simps) blast
  next
    case u
    then have "n - 6 < 3" "3 \<le> n - 3" by linarith+
    with u show ?thesis using perm(2) [of n] perm(3) [of "n - 3"]
      by (simp add: owner_mode_def other_mode_def restrict_to_def mode_masks bit_simps) blast
  next
    case rest
    then have "3 \<le> n - 6" "3 \<le> n - 3" by linarith+
    with rest show ?thesis using n perm(2) [of n] perm(3) [of "n - 3"] perm(1) [of "n - 6"]
      by (simp add: owner_mode_def other_mode_def restrict_to_def mode_masks bit_simps)
  qed
qed

lemma create_loop_owner:
  "e_tag e = ACL_USER_OBJ \<Longrightarrow> create_loop (e # es) i mode g m ne =
     (let (es', r) = create_loop es (i + 1) (owner_mode mode (e_perm e)) g m ne
      in (e\<lparr>e_perm := restrict_to (drop_bit 6 mode) (e_perm e)\<rparr> # es', r))"
  by (simp add: owner_mode_def restrict_to_def Let_def split_def del: push_bit_and push_bit_or)

lemma create_loop_others:
  "e_tag e = ACL_OTHER \<Longrightarrow> perm_ok (e_perm e) \<Longrightarrow> create_loop [e] i (owner_mode mode u) g m ne =
     ([e\<lparr>e_perm := restrict_to mode (e_perm e)\<rparr>], Some (other_mode mode u (e_perm e), g, m, ne))"
  by (simp add: acl_tags restrict_other other_mode_def Let_def)

lemma create_loop_class:
  "e_tag e = ACL_GROUP_OBJ \<Longrightarrow> create_loop (e # es) i mode g m ne =
     (let (es', r) = create_loop es (i + 1) mode (Some i) m ne in (e # es', r))"
  "e_tag e = ACL_MASK \<Longrightarrow> create_loop (e # es) i mode g m ne =
     (let (es', r) = create_loop es (i + 1) mode g (Some i) True in (e # es', r))"
  by (simp_all add: acl_tags)

lemma create_loop_parts:
  assumes ok: "parts_ok p"
  defines "u \<equiv> e_perm (user_obj p)" and "c \<equiv> e_perm (other p)"
  shows "create_loop (entries_of p) 0 mode None None False =
    (entries_of (p\<lparr>user_obj := (user_obj p)\<lparr>e_perm := restrict_to (drop_bit 6 mode) u\<rparr>, other := (other p)\<lparr>e_perm := restrict_to mode c\<rparr>\<rparr>),
     Some (other_mode mode u c, Some (length (users p) + 1),
       (if mask_obj p = None then None else Some (length (users p) + length (group_entries p) + 2)), mask_obj p \<noteq> None))"
proof (cases "mask_obj p")
  case None
  then have "users p = []" "group_entries p = []" using ok by (auto simp: parts_ok_def)
  with None show ?thesis using part_tags [OF ok] part_perms [OF ok]
    by (simp add: entries_of_def u_def c_def create_loop_owner create_loop_class create_loop_others del: create_loop.simps)
next
  case (Some k)
  with part_tags [OF ok] part_perms [OF ok] show ?thesis
    by (simp add: entries_of_def u_def c_def create_loop_owner create_loop_class create_loop_others
          named_tags [OF ok, THEN create_loop_named] del: create_loop.simps)
qed

lemma restrict_entry_class:
  "perm_ok (e_perm (es ! k)) \<Longrightarrow> restrict_entry es k (other_mode mode u c) =
     (es[k := (es ! k)\<lparr>e_perm := restrict_to (drop_bit 3 mode) (e_perm (es ! k))\<rparr>],
      other_mode mode u c AND (push_bit 3 (restrict_to (drop_bit 3 mode) (e_perm (es ! k))) OR NOT S_IRWXG))"
  by (simp add: restrict_entry_def restrict_class Let_def del: push_bit_and push_bit_or)

lemma mode_of_create_class:
  "mode_of (create_class mode p) = push_bit 6 (restrict_to (drop_bit 6 mode) (e_perm (user_obj p)))
      OR push_bit 3 (restrict_to (drop_bit 3 mode) (class_perm p)) OR restrict_to mode (e_perm (other p))"
  by (cases "mask_obj p") (simp_all add: mode_of_def create_class_def map_class_def class_perm_def)

lemma restrict_entry_parts:
  fixes mode :: u16
  assumes ok: "parts_ok p"
  defines "p1 \<equiv> p\<lparr>user_obj := (user_obj p)\<lparr>e_perm := restrict_to (drop_bit 6 mode) (e_perm (user_obj p))\<rparr>,
      other := (other p)\<lparr>e_perm := restrict_to mode (e_perm (other p))\<rparr>\<rparr>"
    and "k \<equiv> if mask_obj p = None then length (users p) + 1 else length (users p) + length (group_entries p) + 2"
  shows "restrict_entry (entries_of p1) k (other_mode mode u c) =
    (entries_of (create_class mode p), other_mode mode u c AND (push_bit 3 (restrict_to (drop_bit 3 mode) (class_perm p)) OR NOT S_IRWXG))"
proof -
  have nth: "e_perm (entries_of p1 ! k) = class_perm p"
    using ok by (cases "mask_obj p") (simp_all add: p1_def k_def entries_of_def class_perm_def parts_ok_def nth_append)
  have upd: "(entries_of p1)[k := (entries_of p1 ! k)\<lparr>e_perm := restrict_to (drop_bit 3 mode) (class_perm p)\<rparr>]
      = entries_of (create_class mode p)"
    using ok by (cases "mask_obj p") (simp_all add: p1_def k_def entries_of_def class_perm_def parts_ok_def
        create_class_def map_class_def nth_append list_update_append)
  show ?thesis using part_perms(5) [OF ok] by (simp add: restrict_entry_class nth upd)
qed

lemma create_parts:
  assumes ok: "parts_ok p" and entries: "a_entries acl = entries_of p"
  shows "posix_acl_create_masq acl mode = (Inr (mask_obj p \<noteq> None), acl\<lparr>a_entries := entries_of (create_class mode p)\<rparr>,
    (mode AND NOT S_IRWXUGO) OR mode_of (create_class mode p))"
  using restrict_entry_parts [OF ok, of mode "e_perm (user_obj p)" "e_perm (other p)"]
  unfolding posix_acl_create_masq_def entries create_loop_parts [OF ok] mode_of_create_class
    masq_mode [OF part_perms(1,3,5) [OF ok], of mode, symmetric]
  by (cases "mask_obj p") simp_all

section \<open>Restricting never grants\<close>

lemma chmod_class_ok: "parts_ok p \<Longrightarrow> parts_ok (chmod_class mode p)"
  unfolding chmod_class_def by (rule map_class_ok) (auto simp: keeps_perm_def perm_ok_bit mode_masks bit_simps)

lemma create_class_ok: "parts_ok p \<Longrightarrow> parts_ok (create_class mode p)"
  unfolding create_class_def by (rule map_class_ok) (auto simp: keeps_perm_def perm_ok_bit restrict_to_def bit_simps)

lemma mode_of_chmod_class: "mode_of (chmod_class mode p) = mode AND S_IRWXUGO"
proof -
  have "mode_of (chmod_class mode p) =
      push_bit 6 (drop_bit 6 (mode AND S_IRWXU)) OR push_bit 3 (drop_bit 3 (mode AND S_IRWXG)) OR (mode AND S_IRWXO)"
    by (cases "mask_obj p") (simp_all add: mode_of_def chmod_class_def map_class_def class_perm_def)
  also have "\<dots> = mode AND S_IRWXUGO"
  proof (rule bit_word_eqI)
    fix n :: nat
    consider "n < 3" | "3 \<le> n" "n < 6" | "6 \<le> n" by linarith
    then show "bit (push_bit 6 (drop_bit 6 (mode AND S_IRWXU)) OR push_bit 3 (drop_bit 3 (mode AND S_IRWXG)) OR (mode AND S_IRWXO)) n
        = bit (mode AND S_IRWXUGO) n"
      unfolding mode_masks by cases (auto simp: bit_simps)
  qed
  finally show ?thesis .
qed

lemma restrict_grants: "ucast (restrict_to x perm) AND want = want \<Longrightarrow> ucast perm AND want = (want :: u32)"
  unfolding restrict_to_def bit_eq_iff by (auto simp: bit_simps)

lemma create_class_access:
  assumes "access_check uid member i_uid i_gid (create_class mode p) want"
  shows "access_check uid member i_uid i_gid p want"
  using assms
  by (cases "mask_obj p")
    (auto simp: access_check_def create_class_def map_class_def group_class_def mask_grants_def grants_def
      split: if_splits dest: restrict_grants)

lemma restrict_mode: "perm_ok x \<Longrightarrow> push_bit k (restrict_to (drop_bit k mode) x) AND NOT mode = 0"
  unfolding masq_bits by (intro bit_word_eqI) (auto simp: bit_simps)

lemma create_class_mode:
  assumes "parts_ok p"
  shows "((mode AND NOT S_IRWXUGO) OR mode_of (create_class mode p)) AND NOT mode = 0"
proof -
  have "(mode AND NOT S_IRWXUGO) AND NOT mode = 0" by (intro bit_word_eqI) (auto simp: bit_simps)
  with part_perms [OF assms] restrict_mode [of _ 6 mode] restrict_mode [of _ 3 mode] restrict_mode [of _ 0 mode]
  show ?thesis by (simp add: mode_of_create_class bit.conj_disj_distrib2 del: push_bit_and push_bit_or)
qed

section \<open>Properties\<close>

text \<open>
  The three-entry list of a mode is valid and stands for exactly this mode.
\<close>

lemma posix_acl_from_mode_roundtrip:
  "\<exists>acl. posix_acl_from_mode (Some garbage) mode = Inr acl \<and> posix_acl_valid acl = None
     \<and> posix_acl_equiv_mode acl (Some m0) = (Inr False, Some ((m0 AND NOT S_IRWXUGO) OR (mode AND S_IRWXUGO)))"
proof -
  let ?e = "\<lambda>t. \<lparr>e_tag = t, e_perm = 0, e_id = ACL_UNDEFINED_ID\<rparr>"
  let ?p = "\<lparr>user_obj = ?e ACL_USER_OBJ, users = [], group_obj = ?e ACL_GROUP_OBJ, group_entries = [], mask_obj = None,
    other = ?e ACL_OTHER\<rparr>"
  have "parts_ok ?p" by (simp add: parts_ok_def tagged_def named_def)
  then have ok: "parts_ok (chmod_class mode ?p)" by (rule chmod_class_ok)
  have three: "length es = 3 \<Longrightarrow> es[0 := a, Suc 0 := b, 2 := c] = [a, b, c]" for es and a b c :: posix_acl_entry
    by (auto simp: numeral_3_eq_3 length_Suc_conv numeral_2_eq_2)
  have "\<exists>acl. posix_acl_from_mode (Some garbage) mode = Inr acl \<and> a_entries acl = entries_of (chmod_class mode ?p)"
    by (simp add: posix_acl_from_mode_def posix_acl_alloc_def three chmod_class_def map_class_def entries_of_def)
  then obtain acl where acl: "posix_acl_from_mode (Some garbage) mode = Inr acl" "a_entries acl = entries_of (chmod_class mode ?p)"
    by blast
  from acl(2) ok have "posix_acl_valid acl = None" unfolding valid_parts by blast
  moreover have "mask_obj (chmod_class mode ?p) = None" by (simp add: chmod_class_def map_class_def)
  ultimately show ?thesis using acl(1) equiv_mode_parts [OF ok acl(2), of "Some m0"] by (simp add: mode_of_chmod_class)
qed

definition example_parts :: acl_parts where
  "example_parts = \<lparr>user_obj = \<lparr>e_tag = ACL_USER_OBJ, e_perm = 7, e_id = ACL_UNDEFINED_ID\<rparr>,
     users = [\<lparr>e_tag = ACL_USER, e_perm = 6, e_id = 1000\<rparr>],
     group_obj = \<lparr>e_tag = ACL_GROUP_OBJ, e_perm = 5, e_id = ACL_UNDEFINED_ID\<rparr>,
     group_entries = [\<lparr>e_tag = ACL_GROUP, e_perm = 6, e_id = 50\<rparr>, \<lparr>e_tag = ACL_GROUP, e_perm = 4, e_id = 60\<rparr>],
     mask_obj = Some \<lparr>e_tag = ACL_MASK, e_perm = 4, e_id = ACL_UNDEFINED_ID\<rparr>,
     other = \<lparr>e_tag = ACL_OTHER, e_perm = 0, e_id = ACL_UNDEFINED_ID\<rparr>\<rparr>"

definition example_acl :: posix_acl where
  "example_acl = \<lparr>a_refcount = 1, a_entries = entries_of example_parts\<rparr>"

definition example_cred :: cred where
  "example_cred = \<lparr>fsuid = 1000, fsgid = 50, egid = 50, cred_groups = None\<rparr>"

lemma example_parts_ok: "parts_ok example_parts"
  by (simp add: parts_ok_def example_parts_def tagged_def named_def acl_tags ACL_UNDEFINED_ID_def)

lemma example_acl_valid: "posix_acl_valid example_acl = None"
  unfolding valid_parts example_acl_def using example_parts_ok by auto

lemma example_cred_groups: "in_group_p example_cred g = Some (g = 50)"
  by (simp add: in_group_p_def example_cred_def groups_search_def)

text \<open>
  C16. Which lists are valid: \<^verbatim>\<open>posix_acl_valid\<close> accepts a list if and only if it is an entry for the owner, entries for
  named users, one for the owning group, entries for named groups, at most one mask and one entry for others, in this
  order, with permissions of three bits, with the named ids defined and strictly ascending, and with a mask whenever there
  are named entries. Every other list is \<^verbatim>\<open>-EINVAL\<close>.
\<close>

theorem posix_acl_valid_shape:
  "posix_acl_valid acl = (if \<exists>p. a_entries acl = entries_of p \<and> parts_ok p then None else Some EINVAL)"
proof (cases "posix_acl_valid acl = None")
  case True
  then show ?thesis using valid_parts [of acl] by simp
next
  case False
  then have "posix_acl_valid acl = Some EINVAL" by (auto simp: posix_acl_valid_def split: if_splits)
  with False show ?thesis using valid_parts [of acl] by simp
qed

text \<open>
  C12. The access check: on a valid list \<^verbatim>\<open>posix_acl_permission\<close> decides as POSIX 1003.1e says. The owner has the
  permissions of the owner entry. A named user has those of the entry limited by the mask. A member of the owning group or of
  a named group has access if one of the matching entries and the mask grant all of it, and is refused otherwise. Everybody
  else has the permissions of the entry for others. Refusal is \<^verbatim>\<open>-EACCES\<close>, and \<^verbatim>\<open>-EIO\<close> does not occur.
\<close>

theorem posix_acl_permission_check:
  assumes "parts_ok p" "a_entries acl = entries_of p" "\<forall>g. in_group_p cred g = Some (member g)"
  shows "posix_acl_permission cred i_uid i_gid acl want =
    Some (if access_check (fsuid cred) member i_uid i_gid p want then None else Some EACCES)"
  using permission_parts [OF assms(1,2)] assms(3) by blast

theorem posix_acl_permission_check_witness:
  "posix_acl_permission example_cred 0 0 example_acl 4 = Some None
   \<and> posix_acl_permission example_cred 0 0 example_acl 2 = Some (Some EACCES)"
proof -
  note c = posix_acl_permission_check [OF example_parts_ok _ allI [OF example_cred_groups], of example_acl 0 0]
  have e: "a_entries example_acl = entries_of example_parts" by (simp add: example_acl_def)
  have "access_check (fsuid example_cred) (\<lambda>g. g = 50) 0 0 example_parts 4"
    "\<not> access_check (fsuid example_cred) (\<lambda>g. g = 50) 0 0 example_parts 2"
    by (simp_all add: access_check_def example_cred_def example_parts_def grants_def mask_grants_def)
  with c [OF e, of 4] c [OF e, of 2] show ?thesis by simp
qed

text \<open>
  C35. Changing the mode: on a valid list \<^verbatim>\<open>posix_acl_chmod_masq\<close> succeeds, keeps the list valid with the same tags and
  ids, and the mode that \<^verbatim>\<open>posix_acl_equiv_mode\<close> then computes has exactly the permission bits set, the group bits through
  the mask if there is one.
\<close>

theorem posix_acl_chmod_roundtrip:
  assumes "posix_acl_valid acl = None"
  shows "\<exists>acl'. posix_acl_chmod_masq acl mode = (None, acl') \<and> posix_acl_valid acl' = None
    \<and> map (\<lambda>e. (e_tag e, e_id e)) (a_entries acl') = map (\<lambda>e. (e_tag e, e_id e)) (a_entries acl)
    \<and> (\<exists>not_equiv. posix_acl_equiv_mode acl' (Some m0)
         = (Inr not_equiv, Some ((m0 AND NOT S_IRWXUGO) OR (mode AND S_IRWXUGO))))"
proof -
  from assms obtain p where p: "a_entries acl = entries_of p" "parts_ok p" unfolding valid_parts by blast
  let ?p = "chmod_class mode p" and ?acl = "acl\<lparr>a_entries := entries_of (chmod_class mode p)\<rparr>"
  have ok: "parts_ok ?p" and e: "a_entries ?acl = entries_of ?p" using p(2) by (simp_all add: chmod_class_ok)
  have "posix_acl_valid ?acl = None" unfolding valid_parts using ok e by blast
  moreover have "map (\<lambda>e. (e_tag e, e_id e)) (a_entries ?acl) = map (\<lambda>e. (e_tag e, e_id e)) (a_entries acl)"
    by (cases "mask_obj p") (simp_all add: p(1) entries_of_def chmod_class_def map_class_def)
  ultimately show ?thesis
    using chmod_parts [OF p(2,1), of mode] equiv_mode_parts [OF ok e, of "Some m0"] by (auto simp: mode_of_chmod_class)
qed

theorem posix_acl_chmod_roundtrip_witness:
  "\<exists>acl'. posix_acl_chmod_masq example_acl 0x1a0 = (None, acl') \<and> posix_acl_valid acl' = None
     \<and> (\<exists>not_equiv. posix_acl_equiv_mode acl' (Some 0x8000) = (Inr not_equiv, Some 0x81a0))"
  using posix_acl_chmod_roundtrip [OF example_acl_valid, of "0x1a0" "0x8000"] by (auto simp: mode_bits)

text \<open>
  C15. Creating a file: on a valid list \<^verbatim>\<open>posix_acl_create_masq\<close> succeeds and keeps the list valid. The mode it returns has
  no bit that was not asked for and is the one the new list stands for. The new list grants nobody what the old one did not.
\<close>

theorem posix_acl_create_restricts:
  assumes "posix_acl_valid acl = None"
  shows "\<exists>not_equiv acl' mode'. posix_acl_create_masq acl mode = (Inr not_equiv, acl', mode') \<and> posix_acl_valid acl' = None
    \<and> mode' AND NOT mode = 0 \<and> posix_acl_equiv_mode acl' (Some mode) = (Inr not_equiv, Some mode')
    \<and> (\<forall>cred i_uid i_gid want. (\<forall>g. in_group_p cred g \<noteq> None) \<longrightarrow>
         posix_acl_permission cred i_uid i_gid acl' want = Some None \<longrightarrow>
         posix_acl_permission cred i_uid i_gid acl want = Some None)"
proof -
  from assms obtain p where p: "a_entries acl = entries_of p" "parts_ok p" unfolding valid_parts by blast
  let ?p = "create_class mode p" and ?acl = "acl\<lparr>a_entries := entries_of (create_class mode p)\<rparr>"
  have ok: "parts_ok ?p" and e: "a_entries ?acl = entries_of ?p" using p(2) by (simp_all add: create_class_ok)
  have "posix_acl_valid ?acl = None" unfolding valid_parts using ok e by blast
  moreover have "posix_acl_permission cred i_uid i_gid acl want = Some None"
    if "\<forall>g. in_group_p cred g \<noteq> None" "posix_acl_permission cred i_uid i_gid ?acl want = Some None" for cred i_uid i_gid want
  proof -
    from that(1) have "in_group_p cred g = Some (the (in_group_p cred g))" for g by (metis option.collapse)
    from permission_parts [OF ok e this] permission_parts [OF p(2,1) this] that(2) show ?thesis
      by (auto split: if_splits dest: create_class_access)
  qed
  moreover have "(mask_obj ?p \<noteq> None) = (mask_obj p \<noteq> None)" by (simp add: create_class_def map_class_def)
  ultimately show ?thesis
    using create_parts [OF p(2,1), of mode] equiv_mode_parts [OF ok e, of "Some mode"] create_class_mode [OF p(2), of mode]
    by (intro exI [of _ "mask_obj p \<noteq> None"] exI [of _ ?acl] exI [of _ "(mode AND NOT S_IRWXUGO) OR mode_of ?p"]) auto
qed

theorem posix_acl_create_restricts_witness:
  "\<exists>not_equiv acl' mode'. posix_acl_create_masq example_acl 0x1b6 = (Inr not_equiv, acl', mode')
     \<and> posix_acl_valid acl' = None \<and> mode' AND NOT 0x1b6 = 0"
  using posix_acl_create_restricts [OF example_acl_valid, of "0x1b6"] by blast

end
