(* ===== verification/Timer_Wheel.thy ===== *)
theory Timer_Wheel
  imports Kernel_Prelude "HOL-Library.Multiset"
begin

text \<open>
  Kernel timers (\<^verbatim>\<open>kernel/timer.c\<close>): the wheel of five vectors of lists, starting, changing and deleting a
  timer, and the softirq that runs the expired ones. \<^verbatim>\<open>unsigned long\<close> has 32 bits, jiffies wrap around, and
  there is one processor and one base, so that a lock is never contended and timers do not migrate.

  A timer is known by its number, a list is a list of numbers, and unlinking removes the number from the list
  that holds it, the list of the running softirq included. \<open>None\<close> is a \<^verbatim>\<open>BUG_ON\<close>. The call of a handler
  drops the lock: whatever then happens to timers, in the handler or elsewhere, is a list of operations.
\<close>

section \<open>Jiffies\<close>

text \<open>\<^verbatim>\<open>arch/arm/Kconfig\<close> gives \<^verbatim>\<open>HZ\<close> no prompt, so its default for this machine holds, whatever a defconfig says.\<close>

definition HZ :: u32 where "HZ = 300"

definition time_after :: "u32 \<Rightarrow> u32 \<Rightarrow> bool" where "time_after a b \<longleftrightarrow> sint (b - a) < 0"
definition time_before :: "u32 \<Rightarrow> u32 \<Rightarrow> bool" where "time_before a b = time_after b a"
definition time_after_eq :: "u32 \<Rightarrow> u32 \<Rightarrow> bool" where "time_after_eq a b \<longleftrightarrow> sint (a - b) \<ge> 0"

definition round_jiffies_common :: "u32 \<Rightarrow> u32 \<Rightarrow> u32 \<Rightarrow> bool \<Rightarrow> u32" where
  "round_jiffies_common jiffies original cpu force_up =
     (let j = original + cpu * 3;
          rem = j mod HZ;
          j = (if rem < HZ div 4 \<and> \<not> force_up then j - rem else j - rem + HZ);
          j = j - cpu * 3
      in if j \<le> jiffies then original else j)"

definition round_jiffies :: "u32 \<Rightarrow> u32 \<Rightarrow> u32" where
  "round_jiffies jiffies j = round_jiffies_common jiffies j 0 False"

text \<open>\<open>j0\<close> is the first reading of jiffies, the rounding reads it again.\<close>

definition round_jiffies_relative :: "u32 \<Rightarrow> u32 \<Rightarrow> u32 \<Rightarrow> u32" where
  "round_jiffies_relative j0 jiffies j = round_jiffies_common jiffies (j + j0) 0 False - j0"

definition round_jiffies_up :: "u32 \<Rightarrow> u32 \<Rightarrow> u32" where
  "round_jiffies_up jiffies j = round_jiffies_common jiffies j 0 True"

definition round_jiffies_up_relative :: "u32 \<Rightarrow> u32 \<Rightarrow> u32 \<Rightarrow> u32" where
  "round_jiffies_up_relative j0 jiffies j = round_jiffies_common jiffies (j + j0) 0 True - j0"

section \<open>The wheel\<close>

definition TVN_BITS :: nat where "TVN_BITS = 6"
definition TVR_BITS :: nat where "TVR_BITS = 8"
definition TVN_SIZE :: nat where "TVN_SIZE = 64"
definition TVR_SIZE :: nat where "TVR_SIZE = 256"
definition TVN_MASK :: u32 where "TVN_MASK = 63"
definition TVR_MASK :: u32 where "TVR_MASK = 255"

lemmas tv_consts = TVN_BITS_def TVR_BITS_def TVN_SIZE_def TVR_SIZE_def TVN_MASK_def TVR_MASK_def

type_synonym timer_id = nat

text \<open>\<^verbatim>\<open>entry.next\<close> is null or not; the low bit of the pointer to the base; whether there is a function.\<close>

record timer_list =
  expires :: u32
  timer_linked :: bool
  timer_deferrable :: bool
  timer_function :: bool

record tvec_base =
  timer_jiffies :: u32
  next_timer :: u32
  tv1 :: "timer_id list list"
  tv2 :: "timer_id list list"
  tv3 :: "timer_id list list"
  tv4 :: "timer_id list list"
  tv5 :: "timer_id list list"

record timer_sys =
  tbase :: tvec_base
  timers :: "timer_id \<Rightarrow> timer_list"
  work_list :: "timer_id list"

definition timer_pending :: "timer_sys \<Rightarrow> timer_id \<Rightarrow> bool" where
  "timer_pending s t = timer_linked (timers s t)"

definition init_timers_cpu :: "u32 \<Rightarrow> tvec_base" where
  "init_timers_cpu jiffies = \<lparr>timer_jiffies = jiffies, next_timer = jiffies, tv1 = replicate TVR_SIZE [],
     tv2 = replicate TVN_SIZE [], tv3 = replicate TVN_SIZE [], tv4 = replicate TVN_SIZE [], tv5 = replicate TVN_SIZE []\<rparr>"

definition init_timer :: "timer_list \<Rightarrow> bool \<Rightarrow> timer_list" where
  "init_timer timer deferrable = timer\<lparr>timer_linked := False, timer_deferrable := deferrable\<rparr>"

definition list_add_tail :: "timer_id \<Rightarrow> nat \<Rightarrow> timer_id list list \<Rightarrow> timer_id list list" where
  "list_add_tail t i v = v[i := v ! i @ [t]]"

text \<open>The branch for a timeout above \<^verbatim>\<open>0xffffffff\<close> is only for 64 bits and never taken here.\<close>

definition internal_add_timer :: "timer_sys \<Rightarrow> timer_id \<Rightarrow> timer_sys" where
  "internal_add_timer s t =
     (let b = tbase s;
          e = expires (timers s t);
          idx = e - timer_jiffies b;
          slot = (\<lambda>sh. unat (drop_bit sh e AND TVN_MASK));
          b' = (if idx < 2 ^ TVR_BITS then b\<lparr>tv1 := list_add_tail t (unat (e AND TVR_MASK)) (tv1 b)\<rparr>
                else if idx < 2 ^ (TVR_BITS + TVN_BITS) then b\<lparr>tv2 := list_add_tail t (slot TVR_BITS) (tv2 b)\<rparr>
                else if idx < 2 ^ (TVR_BITS + 2 * TVN_BITS) then b\<lparr>tv3 := list_add_tail t (slot (TVR_BITS + TVN_BITS)) (tv3 b)\<rparr>
                else if idx < 2 ^ (TVR_BITS + 3 * TVN_BITS) then b\<lparr>tv4 := list_add_tail t (slot (TVR_BITS + 2 * TVN_BITS)) (tv4 b)\<rparr>
                else if sint idx < 0 then b\<lparr>tv1 := list_add_tail t (unat (timer_jiffies b AND TVR_MASK)) (tv1 b)\<rparr>
                else b\<lparr>tv5 := list_add_tail t (slot (TVR_BITS + 3 * TVN_BITS)) (tv5 b)\<rparr>)
      in s\<lparr>tbase := b', timers := (timers s)(t := (timers s t)\<lparr>timer_linked := True\<rparr>)\<rparr>)"

section \<open>Operations on timers\<close>

definition unlink :: "timer_id \<Rightarrow> timer_id list list \<Rightarrow> timer_id list list" where
  "unlink t v = map (removeAll t) v"

definition detach_timer :: "timer_sys \<Rightarrow> timer_id \<Rightarrow> bool \<Rightarrow> timer_sys" where
  "detach_timer s t clear_pending =
     (let b = tbase s in
      s\<lparr>tbase := b\<lparr>tv1 := unlink t (tv1 b), tv2 := unlink t (tv2 b), tv3 := unlink t (tv3 b), tv4 := unlink t (tv4 b),
          tv5 := unlink t (tv5 b)\<rparr>,
        timers := (if clear_pending then (timers s)(t := (timers s t)\<lparr>timer_linked := False\<rparr>) else timers s),
        work_list := removeAll t (work_list s)\<rparr>)"

text \<open>The two updates of \<^verbatim>\<open>next_timer\<close>, when a timer is taken out and when it is put in.\<close>

definition forget_next :: "timer_sys \<Rightarrow> timer_id \<Rightarrow> timer_sys" where
  "forget_next s t =
     (if expires (timers s t) = next_timer (tbase s) \<and> \<not> timer_deferrable (timers s t)
      then s\<lparr>tbase := (tbase s)\<lparr>next_timer := timer_jiffies (tbase s)\<rparr>\<rparr> else s)"

definition note_next :: "timer_sys \<Rightarrow> timer_id \<Rightarrow> timer_sys" where
  "note_next s t =
     (if time_before (expires (timers s t)) (next_timer (tbase s)) \<and> \<not> timer_deferrable (timers s t)
      then s\<lparr>tbase := (tbase s)\<lparr>next_timer := expires (timers s t)\<rparr>\<rparr> else s)"

definition set_expires :: "timer_sys \<Rightarrow> timer_id \<Rightarrow> u32 \<Rightarrow> timer_sys" where
  "set_expires s t e = s\<lparr>timers := (timers s)(t := (timers s t)\<lparr>expires := e\<rparr>)\<rparr>"

definition activate :: "timer_sys \<Rightarrow> timer_id \<Rightarrow> u32 \<Rightarrow> timer_sys" where
  "activate s t e = internal_add_timer (note_next (set_expires s t e) t) t"

definition mod_timer_internal :: "timer_sys \<Rightarrow> timer_id \<Rightarrow> u32 \<Rightarrow> bool \<Rightarrow> (bool \<times> timer_sys) option" where
  "mod_timer_internal s t e pending_only =
     (if \<not> timer_function (timers s t) then None
      else if timer_pending s t then Some (True, activate (forget_next (detach_timer s t False) t) t e)
      else if pending_only then Some (False, s)
      else Some (False, activate s t e))"

definition mod_timer_pending :: "timer_sys \<Rightarrow> timer_id \<Rightarrow> u32 \<Rightarrow> (bool \<times> timer_sys) option" where
  "mod_timer_pending s t e = mod_timer_internal s t e True"

definition mod_timer :: "timer_sys \<Rightarrow> timer_id \<Rightarrow> u32 \<Rightarrow> (bool \<times> timer_sys) option" where
  "mod_timer s t e =
     (if timer_pending s t \<and> expires (timers s t) = e then Some (True, s) else mod_timer_internal s t e False)"

definition add_timer :: "timer_sys \<Rightarrow> timer_id \<Rightarrow> timer_sys option" where
  "add_timer s t = (if timer_pending s t then None else map_option snd (mod_timer s t (expires (timers s t))))"

definition add_timer_on :: "timer_sys \<Rightarrow> timer_id \<Rightarrow> timer_sys option" where
  "add_timer_on s t =
     (if timer_pending s t \<or> \<not> timer_function (timers s t) then None else Some (internal_add_timer (note_next s t) t))"

definition del_timer :: "timer_sys \<Rightarrow> timer_id \<Rightarrow> bool \<times> timer_sys" where
  "del_timer s t = (if timer_pending s t then (True, forget_next (detach_timer s t True) t) else (False, s))"

section \<open>Running timers\<close>

text \<open>\<open>cascade\<close> on the vector \<open>get\<close>, which \<open>put\<close> stores.\<close>

definition cascade :: "(tvec_base \<Rightarrow> timer_id list list) \<Rightarrow> (timer_id list list \<Rightarrow> tvec_base \<Rightarrow> tvec_base) \<Rightarrow> nat \<Rightarrow> timer_sys \<Rightarrow> timer_sys" where
  "cascade get put index s =
     foldl internal_add_timer (s\<lparr>tbase := put ((get (tbase s))[index := []]) (tbase s)\<rparr>) (get (tbase s) ! index)"

definition INDEX :: "nat \<Rightarrow> timer_sys \<Rightarrow> nat" where
  "INDEX n s = unat (drop_bit (TVR_BITS + n * TVN_BITS) (timer_jiffies (tbase s)) AND TVN_MASK)"

definition cascade_timers :: "timer_sys \<Rightarrow> timer_sys" where
  "cascade_timers s =
     (if unat (timer_jiffies (tbase s) AND TVR_MASK) \<noteq> 0 then s
      else let s2 = cascade tv2 (\<lambda>v. tv2_update (\<lambda>_. v)) (INDEX 0 s) s in
      if INDEX 0 s \<noteq> 0 then s2
      else let s3 = cascade tv3 (\<lambda>v. tv3_update (\<lambda>_. v)) (INDEX 1 s) s2 in
      if INDEX 1 s \<noteq> 0 then s3
      else let s4 = cascade tv4 (\<lambda>v. tv4_update (\<lambda>_. v)) (INDEX 2 s) s3 in
      if INDEX 2 s \<noteq> 0 then s4
      else cascade tv5 (\<lambda>v. tv5_update (\<lambda>_. v)) (INDEX 3 s) s4)"

text \<open>The body of the outer loop of \<^verbatim>\<open>__run_timers\<close> up to the inner loop, which starts with the list taken.\<close>

definition expire_slot :: "timer_sys \<Rightarrow> timer_sys" where
  "expire_slot s =
     (let index = unat (timer_jiffies (tbase s) AND TVR_MASK);
          s' = cascade_timers s;
          b = tbase s'
      in s'\<lparr>tbase := b\<lparr>timer_jiffies := timer_jiffies b + 1, tv1 := (tv1 b)[index := []]\<rparr>, work_list := tv1 b ! index\<rparr>)"

text \<open>What happens while the lock is free.\<close>

datatype timer_op = Mod timer_id u32 | ModPending timer_id u32 | Del timer_id

fun run_op :: "timer_op \<Rightarrow> timer_sys \<Rightarrow> timer_sys option" where
  "run_op (Mod t e) s = map_option snd (mod_timer s t e)"
| "run_op (ModPending t e) s = map_option snd (mod_timer_pending s t e)"
| "run_op (Del t) s = Some (snd (del_timer s t))"

fun run_ops :: "timer_op list \<Rightarrow> timer_sys \<Rightarrow> timer_sys option" where
  "run_ops [] s = Some s"
| "run_ops (op # ops) s = Option.bind (run_op op s) (run_ops ops)"

type_synonym timer_handler = "timer_id \<Rightarrow> timer_sys \<Rightarrow> timer_op list"

definition fire :: "timer_handler \<Rightarrow> timer_id \<Rightarrow> timer_sys \<Rightarrow> timer_sys option" where
  "fire handler t s = (let s' = detach_timer s t True in run_ops (handler t s') s')"

lemma work_list_simps [simp]:
  "work_list (internal_add_timer s t) = work_list s" "work_list (note_next s t) = work_list s"
  "work_list (forget_next s t) = work_list s" "work_list (set_expires s t e) = work_list s"
  "work_list (detach_timer s t c) = removeAll t (work_list s)"
  "work_list (activate s t e) = work_list s"
  by (simp_all add: internal_add_timer_def Let_def note_next_def forget_next_def set_expires_def detach_timer_def activate_def)

lemma run_op_work_list: "run_op op s = Some s' \<Longrightarrow> length (work_list s') \<le> length (work_list s)"
  by (cases op)
    (auto simp: mod_timer_def mod_timer_pending_def mod_timer_internal_def del_timer_def Let_def removeAll_filter_not_eq
      split: if_splits)

lemma run_ops_work_list: "run_ops ops s = Some s' \<Longrightarrow> length (work_list s') \<le> length (work_list s)"
  by (induction ops arbitrary: s)
    (auto simp: bind_eq_Some_conv dest: run_op_work_list intro: order.trans)

lemma fire_work_list:
  assumes "fire handler t s = Some s'" "work_list s = t # ts"
  shows "length (work_list s') < length (work_list s)"
proof -
  have "length (work_list s') \<le> length (removeAll t ts)"
    using assms run_ops_work_list [of _ "detach_timer s t True" s'] by (auto simp: fire_def Let_def)
  also have "\<dots> \<le> length ts" by (rule length_removeAll_less_eq)
  finally show ?thesis by (simp add: assms(2))
qed

text \<open>The inner loop: the timers run, in order, and the state behind.\<close>

function run_work :: "timer_handler \<Rightarrow> timer_sys \<Rightarrow> (timer_id list \<times> timer_sys) option" where
  "run_work handler s =
     (case work_list s of
        [] \<Rightarrow> Some ([], s)
      | t # ts \<Rightarrow>
          (case fire handler t s of
             None \<Rightarrow> None
           | Some s' \<Rightarrow> map_option (\<lambda>(fired, s''). (t # fired, s'')) (run_work handler s')))"
  by auto
termination
  by (relation "measure (\<lambda>(handler, s). length (work_list s))") (auto dest: fire_work_list)

text \<open>\<open>jiffies k\<close> is what the test of iteration \<open>k\<close> reads. \<open>None\<close> is a loop that does not end, \<open>Some None\<close> a \<^verbatim>\<open>BUG_ON\<close>.\<close>

partial_function (option) run_timers ::
  "timer_handler \<Rightarrow> (nat \<Rightarrow> u32) \<Rightarrow> nat \<Rightarrow> timer_sys \<Rightarrow> (timer_id list \<times> timer_sys) option option" where
  "run_timers handler jiffies k s =
     (if \<not> time_after_eq (jiffies k) (timer_jiffies (tbase s)) then Some (Some ([], s))
      else case run_work handler (expire_slot s) of
             None \<Rightarrow> Some None
           | Some (fired, s') \<Rightarrow>
               Option.bind (run_timers handler jiffies (Suc k) s') (\<lambda>r.
                 Some (map_option (\<lambda>(fired', s''). (fired @ fired', s'')) r)))"

definition run_timer_softirq :: "timer_handler \<Rightarrow> (nat \<Rightarrow> u32) \<Rightarrow> timer_sys \<Rightarrow> (timer_id list \<times> timer_sys) option option" where
  "run_timer_softirq handler jiffies s =
     (if time_after_eq (jiffies 0) (timer_jiffies (tbase s)) then run_timers handler (\<lambda>k. jiffies (Suc k)) 0 s
      else Some (Some ([], s)))"

section \<open>Rounding\<close>

lemma round_jiffies_up_later: "round_jiffies_up jiffies j - j \<le> HZ"
proof -
  have "j mod HZ < HZ" by (rule word_mod_less_divisor) (simp add: HZ_def)
  then have "HZ - j mod HZ \<le> HZ" by (intro word_sub_le) simp
  then show ?thesis by (simp add: round_jiffies_up_def round_jiffies_common_def Let_def)
qed

section \<open>Where a timer is\<close>

text \<open>
  A timer in a vector with \<open>m\<close> jiffies per slot: it expires less than \<open>lim\<close> jiffies from now, its slot is the one of its
  expiry, and the slot is emptied not before \<open>c\<close> jiffies from now, but before the timer expires.
\<close>

definition placed :: "nat \<Rightarrow> nat \<Rightarrow> nat \<Rightarrow> u32 \<Rightarrow> u32 \<Rightarrow> nat \<Rightarrow> bool" where
  "placed c m lim now e i \<longleftrightarrow> unat (e - now) < lim \<and> i = unat e div m mod 64 \<and> unat e mod m + c \<le> unat (e - now)"

text \<open>A timer in the first vector expires in fewer than 256 jiffies, or was late when it was added.\<close>

definition placed1 :: "u32 \<Rightarrow> u32 \<Rightarrow> nat \<Rightarrow> bool" where
  "placed1 now e i \<longleftrightarrow> unat (e - now) < 256 \<and> i = unat e mod 256 \<or> sint (e - now) < 0 \<and> i = unat now mod 256"

definition vec_ok :: "(u32 \<Rightarrow> nat \<Rightarrow> bool) \<Rightarrow> nat \<Rightarrow> (timer_id \<Rightarrow> timer_list) \<Rightarrow> timer_id list list \<Rightarrow> bool" where
  "vec_ok P n tm v \<longleftrightarrow> length v = n \<and> (\<forall>i < n. \<forall>t \<in> set (v ! i). P (expires (tm t)) i)"

definition wheel_timers :: "tvec_base \<Rightarrow> timer_id multiset" where
  "wheel_timers b = mset (concat (tv1 b)) + mset (concat (tv2 b)) + mset (concat (tv3 b)) + mset (concat (tv4 b)) + mset (concat (tv5 b))"

text \<open>\<open>c2\<close> to \<open>c5\<close> are 1 where the vector has been cascaded in this jiffy.\<close>

definition wheel_placed :: "nat \<Rightarrow> nat \<Rightarrow> nat \<Rightarrow> nat \<Rightarrow> timer_sys \<Rightarrow> bool" where
  "wheel_placed c2 c3 c4 c5 s \<longleftrightarrow> (let b = tbase s; now = timer_jiffies b; tm = timers s in
     vec_ok (placed1 now) 256 tm (tv1 b) \<and> vec_ok (placed c2 (2^8) (2^14) now) 64 tm (tv2 b)
     \<and> vec_ok (placed c3 (2^14) (2^20) now) 64 tm (tv3 b) \<and> vec_ok (placed c4 (2^20) (2^26) now) 64 tm (tv4 b)
     \<and> vec_ok (placed c5 (2^26) (2^31) now) 64 tm (tv5 b))"

text \<open>Every timer that is linked is on exactly one list, once.\<close>

definition linked_once :: "timer_sys \<Rightarrow> bool" where
  "linked_once s \<longleftrightarrow> (\<forall>t. count (wheel_timers (tbase s) + mset (work_list s)) t = (if timer_linked (timers s t) then 1 else 0))"

definition wheel_ok :: "timer_sys \<Rightarrow> bool" where
  "wheel_ok s \<longleftrightarrow> wheel_placed 0 0 0 0 s \<and> linked_once s"

section \<open>Adding to a vector\<close>

lemma mset_concat_update: "i < length v \<Longrightarrow> mset (concat (v[i := xs])) + mset (v ! i) = mset (concat v) + mset xs"
proof (induction v arbitrary: i)
  case (Cons a v)
  then show ?case by (cases i) (auto simp: ac_simps)
qed simp

lemma mset_list_add_tail: "i < length v \<Longrightarrow> mset (concat (list_add_tail t i v)) = add_mset t (mset (concat v))"
  using mset_concat_update [of i v "v ! i @ [t]"] by (simp add: list_add_tail_def)

lemma vec_ok_add:
  "vec_ok P n tm v \<Longrightarrow> P (expires (tm t)) i \<Longrightarrow> i < n \<Longrightarrow> vec_ok P n tm (list_add_tail t i v)"
  by (auto simp: vec_ok_def list_add_tail_def nth_list_update split: if_splits)

lemma vec_ok_mono: "vec_ok P n tm v \<Longrightarrow> (\<And>e i. P e i \<Longrightarrow> Q e i) \<Longrightarrow> vec_ok Q n tm v"
  by (auto simp: vec_ok_def)

lemma vec_ok_expires: "(\<And>t. expires (tm' t) = expires (tm t)) \<Longrightarrow> vec_ok P n tm' v = vec_ok P n tm v"
  by (simp add: vec_ok_def)

lemma unat_and_TVR: "unat (x AND TVR_MASK) = unat x mod 256"
  using unat_and_pow2_mask [of "256 :: u32" 8 x] by (simp add: TVR_MASK_def)

lemma unat_slot: "unat (drop_bit n x AND TVN_MASK) = unat x div 2 ^ n mod 64"
proof -
  have "unat (drop_bit n x) = unat x div 2 ^ n"
    by (metis drop_bit_eq_div unat_drop_bit_eq)
  then show ?thesis using unat_and_pow2_mask [of "64 :: u32" 6 "drop_bit n x"] by (simp only: TVN_MASK_def) simp
qed

lemma add_placed:
  assumes "m \<le> unat (e - now)" "unat (e - now) < lim" "0 < m" "c \<le> 1"
  shows "placed c m lim now e (unat e div m mod 64)"
proof -
  have "unat e mod m < m" using assms(3) by simp
  with assms have "unat e mod m + c \<le> unat (e - now)" by linarith
  with assms(2) show ?thesis by (simp add: placed_def)
qed

lemma placed_mono: "placed c m lim now e i \<Longrightarrow> c' \<le> c \<Longrightarrow> placed c' m lim now e i"
  by (auto simp: placed_def)

lemma sint_neg_iff: "sint (w :: u32) < 0 \<longleftrightarrow> 2 ^ 31 \<le> unat w"
proof
  assume "sint w < 0"
  then show "2 ^ 31 \<le> unat w" using sint_small [of w] by linarith
next
  assume big: "2 ^ 31 \<le> unat w"
  show "sint w < 0"
  proof (rule ccontr)
    assume "\<not> sint w < 0"
    moreover have "sint w < 2 ^ 31" using sint_lt [of w] by simp
    ultimately have "uint (word_of_int (sint w) :: u32) = sint w" by (simp only: uint_word_of_int) simp
    then have "int (unat w) = sint w" by simp
    moreover have "2 ^ 31 \<le> int (unat w)" using of_nat_mono [OF big, where 'a = int] by simp
    ultimately show False using \<open>sint w < 2 ^ 31\<close> by linarith
  qed
qed

lemma timers_add [simp]:
  "expires (timers (internal_add_timer s t) t') = expires (timers s t')"
  "timer_linked (timers (internal_add_timer s t) t') = (t' = t \<or> timer_linked (timers s t'))"
  "timer_function (timers (internal_add_timer s t) t') = timer_function (timers s t')"
  "timer_jiffies (tbase (internal_add_timer s t)) = timer_jiffies (tbase s)"
  by (simp_all add: internal_add_timer_def Let_def)

lemma internal_add_timer_ok:
  assumes ok: "wheel_placed c2 c3 c4 c5 s" and c: "c2 \<le> 1" "c3 \<le> 1" "c4 \<le> 1" "c5 \<le> 1"
  shows "wheel_placed c2 c3 c4 c5 (internal_add_timer s t)
    \<and> wheel_timers (tbase (internal_add_timer s t)) = add_mset t (wheel_timers (tbase s))"
proof -
  let ?b = "tbase s" and ?e = "expires (timers s t)" and ?now = "timer_jiffies (tbase s)"
  let ?s = "internal_add_timer s t" and ?d = "unat (?e - ?now)"
  have len: "length (tv1 ?b) = 256" "length (tv2 ?b) = 64" "length (tv3 ?b) = 64" "length (tv4 ?b) = 64" "length (tv5 ?b) = 64"
    using ok by (auto simp: wheel_placed_def vec_ok_def Let_def)
  have add: "vec_ok P n (timers s) v \<Longrightarrow> P ?e i \<Longrightarrow> i < n \<Longrightarrow> vec_ok P n (timers s) (list_add_tail t i v)" for P n v i
    by (rule vec_ok_add)
  note P = add_placed [where e = ?e and now = ?now] and def = internal_add_timer_def Let_def tv_consts word_less_nat_alt
    unat_slot [unfolded TVN_MASK_def] unat_and_TVR [unfolded TVR_MASK_def] sint_neg_iff
  have split: "wheel_placed c2 c3 c4 c5 ?s \<longleftrightarrow> (let b = tbase ?s in
     vec_ok (placed1 ?now) 256 (timers s) (tv1 b) \<and> vec_ok (placed c2 (2^8) (2^14) ?now) 64 (timers s) (tv2 b)
     \<and> vec_ok (placed c3 (2^14) (2^20) ?now) 64 (timers s) (tv3 b) \<and> vec_ok (placed c4 (2^20) (2^26) ?now) 64 (timers s) (tv4 b)
     \<and> vec_ok (placed c5 (2^26) (2^31) ?now) 64 (timers s) (tv5 b))"
    by (simp add: wheel_placed_def Let_def vec_ok_def)
  consider (1) "?d < 2^8" | (2) "2^8 \<le> ?d" "?d < 2^14" | (3) "2^14 \<le> ?d" "?d < 2^20" | (4) "2^20 \<le> ?d" "?d < 2^26"
    | (5) "2^26 \<le> ?d" "?d < 2^31" | (late) "2^31 \<le> ?d" by linarith
  then show ?thesis
  proof cases
    case 1
    then have "tbase ?s = ?b\<lparr>tv1 := list_add_tail t (unat ?e mod 256) (tv1 ?b)\<rparr>" by (simp add: def)
    moreover have "placed1 ?now ?e (unat ?e mod 256)" using 1 by (simp add: placed1_def)
    ultimately show ?thesis using ok len unfolding split
      by (simp add: wheel_placed_def Let_def vec_ok_add wheel_timers_def mset_list_add_tail)
  next
    case 2
    then have "tbase ?s = ?b\<lparr>tv2 := list_add_tail t (unat ?e div 2^8 mod 64) (tv2 ?b)\<rparr>" by (simp add: def)
    with P [OF 2 _ c(1)] show ?thesis using ok len unfolding split
      by (simp add: wheel_placed_def Let_def vec_ok_add wheel_timers_def mset_list_add_tail)
  next
    case 3
    then have "tbase ?s = ?b\<lparr>tv3 := list_add_tail t (unat ?e div 2^14 mod 64) (tv3 ?b)\<rparr>" by (simp add: def)
    with P [OF 3 _ c(2)] show ?thesis using ok len unfolding split
      by (simp add: wheel_placed_def Let_def vec_ok_add wheel_timers_def mset_list_add_tail)
  next
    case 4
    then have "tbase ?s = ?b\<lparr>tv4 := list_add_tail t (unat ?e div 2^20 mod 64) (tv4 ?b)\<rparr>" by (simp add: def)
    with P [OF 4 _ c(3)] show ?thesis using ok len unfolding split
      by (simp add: wheel_placed_def Let_def vec_ok_add wheel_timers_def mset_list_add_tail)
  next
    case 5
    then have "tbase ?s = ?b\<lparr>tv5 := list_add_tail t (unat ?e div 2^26 mod 64) (tv5 ?b)\<rparr>" by (simp add: def)
    with P [OF 5 _ c(4)] show ?thesis using ok len unfolding split
      by (simp add: wheel_placed_def Let_def vec_ok_add wheel_timers_def mset_list_add_tail)
  next
    case late
    then have "tbase ?s = ?b\<lparr>tv1 := list_add_tail t (unat ?now mod 256) (tv1 ?b)\<rparr>" by (simp add: def)
    moreover have "placed1 ?now ?e (unat ?now mod 256)" using late by (simp add: placed1_def sint_neg_iff)
    ultimately show ?thesis using ok len unfolding split
      by (simp add: wheel_placed_def Let_def vec_ok_add wheel_timers_def mset_list_add_tail)
  qed
qed

section \<open>Cascading\<close>

lemma unat_expires_mod: "n \<le> 32 \<Longrightarrow> unat e mod 2 ^ n = (unat now + unat (e - now)) mod 2 ^ n" for e now :: u32
  using unat_add_mod_pow2 [of n now "e - now"] by simp

lemma unat_expires_slot: "n \<le> 26 \<Longrightarrow> unat e div 2 ^ n mod 64 = (unat now + unat (e - now)) div 2 ^ n mod 64" for e now :: u32
proof -
  assume n: "n \<le> 26"
  have "unat e = take_bit 32 (unat now + unat (e - now))"
    using unat_expires_mod [of 32 e now] unat_bound [of e] by (simp add: take_bit_eq_mod)
  then have "take_bit 6 (drop_bit n (unat e)) = take_bit 6 (drop_bit n (unat now + unat (e - now)))"
    using n by (simp add: drop_bit_take_bit)
  then show ?thesis by (simp add: take_bit_eq_mod drop_bit_eq_div)
qed

lemma mod_add_self: "(a + d) mod m = d \<Longrightarrow> a < m \<Longrightarrow> d < m \<Longrightarrow> a = 0" for a d m :: nat
proof (cases "a + d < m")
  case False
  assume "(a + d) mod m = d" "a < m" "d < m"
  then have "(a + d) mod m = a + d - m" using False by (simp add: le_mod_geq)
  with \<open>(a + d) mod m = d\<close> \<open>a < m\<close> False show "a = 0" by linarith
qed simp

lemma placed_strict:
  assumes "placed 0 (2 ^ n) lim now e i" "n \<le> 26" "\<not> (unat now mod 2 ^ n = 0 \<and> unat now div 2 ^ n mod 64 = i)"
  shows "placed 1 (2 ^ n) lim now e i"
proof (rule ccontr)
  let ?m = "2 ^ n :: nat" and ?d = "unat (e - now)" and ?T = "unat now"
  assume "\<not> placed 1 (2 ^ n) lim now e i"
  with assms(1) have d: "unat e mod ?m = ?d" and i: "i = unat e div ?m mod 64" by (auto simp: placed_def)
  then have less: "?d < ?m" by (metis mod_less_divisor zero_less_numeral zero_less_power)
  have "(?T mod ?m + ?d) mod ?m = ?d" using d unat_expires_mod [of n e now] assms(2) by (simp add: mod_add_left_eq)
  then have T: "?T mod ?m = 0" by (rule mod_add_self) (simp_all add: less)
  have "(?T + ?d) div ?m = ?T div ?m" using T less by (auto simp: div_add1_eq)
  with i have "i = ?T div ?m mod 64" using unat_expires_slot [OF assms(2), of e now] by simp
  with T assms(3) show False by simp
qed

lemma vec_ok_strict:
  assumes "vec_ok (placed 0 (2 ^ n) lim now) 64 tm v" "n \<le> 26" "unat now mod 2 ^ n \<noteq> 0"
  shows "vec_ok (placed 1 (2 ^ n) lim now) 64 tm v"
  using assms(1) by (rule vec_ok_mono) (rule placed_strict, use assms(2,3) in simp_all)

lemma vec_ok_emptied:
  assumes "vec_ok (placed 0 (2 ^ n) lim now) 64 tm v" "n \<le> 26" "i = unat now div 2 ^ n mod 64"
  shows "vec_ok (placed 1 (2 ^ n) lim now) 64 tm (v[i := []])"
  using assms by (auto simp: vec_ok_def nth_list_update intro!: placed_strict [unfolded One_nat_def])

lemma foldl_add_ok:
  assumes "wheel_placed c2 c3 c4 c5 s" and c: "c2 \<le> 1" "c3 \<le> 1" "c4 \<le> 1" "c5 \<le> 1"
  shows "wheel_placed c2 c3 c4 c5 (foldl internal_add_timer s l)
    \<and> wheel_timers (tbase (foldl internal_add_timer s l)) = wheel_timers (tbase s) + mset l"
  using assms(1)
proof (induction l arbitrary: s)
  case (Cons t l)
  note add = internal_add_timer_ok [OF Cons.prems c, of t]
  show ?case using Cons.IH [OF conjunct1 [OF add]] conjunct2 [OF add] by simp
qed simp

lemma foldl_add_timers:
  "expires (timers (foldl internal_add_timer s l) t) = expires (timers s t)"
  "timer_function (timers (foldl internal_add_timer s l) t) = timer_function (timers s t)"
  "timer_linked (timers (foldl internal_add_timer s l) t) = (timer_linked (timers s t) \<or> t \<in> set l)"
  "timer_jiffies (tbase (foldl internal_add_timer s l)) = timer_jiffies (tbase s)"
  "work_list (foldl internal_add_timer s l) = work_list s"
  by (induction l arbitrary: s) auto

text \<open>What cascading keeps of the timers: a timer that is in the wheel is linked again.\<close>

definition same_timers :: "timer_sys \<Rightarrow> timer_sys \<Rightarrow> bool" where
  "same_timers s s' \<longleftrightarrow> (\<forall>t. expires (timers s' t) = expires (timers s t) \<and> timer_function (timers s' t) = timer_function (timers s t)
     \<and> (timer_linked (timers s t) \<longrightarrow> timer_linked (timers s' t))
     \<and> (timer_linked (timers s' t) \<longrightarrow> timer_linked (timers s t) \<or> t \<in># wheel_timers (tbase s)))
   \<and> timer_jiffies (tbase s') = timer_jiffies (tbase s) \<and> work_list s' = work_list s
   \<and> wheel_timers (tbase s') = wheel_timers (tbase s)"

lemma same_timers_refl [simp]: "same_timers s s"
  by (simp add: same_timers_def)

lemma same_timers_trans: "same_timers s s' \<Longrightarrow> same_timers s' s'' \<Longrightarrow> same_timers s s''"
  by (auto simp: same_timers_def)

lemma unat_index: "INDEX n s = unat (timer_jiffies (tbase s)) div 2 ^ (8 + n * 6) mod 64"
  by (simp add: INDEX_def unat_slot TVR_BITS_def TVN_BITS_def)

text \<open>Emptying one slot and adding its timers again.\<close>

lemma readd_same_timers:
  assumes "wheel_placed c2 c3 c4 c5 (s\<lparr>tbase := b\<rparr>)" "c2 \<le> 1" "c3 \<le> 1" "c4 \<le> 1" "c5 \<le> 1"
    and "wheel_timers b + mset l = wheel_timers (tbase s)" "timer_jiffies b = timer_jiffies (tbase s)"
  shows "wheel_placed c2 c3 c4 c5 (foldl internal_add_timer (s\<lparr>tbase := b\<rparr>) l)
    \<and> same_timers s (foldl internal_add_timer (s\<lparr>tbase := b\<rparr>) l)"
proof -
  have "t \<in> set l \<Longrightarrow> t \<in># wheel_timers (tbase s)" for t using assms(6) by (metis set_mset_mset union_iff)
  then show ?thesis using foldl_add_ok [OF assms(1-5), of l] assms(6,7)
    by (auto simp: same_timers_def foldl_add_timers)
qed

lemma wheel_lengths:
  assumes "wheel_placed c2 c3 c4 c5 s"
  shows "length (tv1 (tbase s)) = 256" "length (tv2 (tbase s)) = 64" "length (tv3 (tbase s)) = 64"
    "length (tv4 (tbase s)) = 64" "length (tv5 (tbase s)) = 64"
  using assms by (auto simp: wheel_placed_def vec_ok_def Let_def)

lemma emptied_mset: "i < length v \<Longrightarrow> mset (concat (v[i := []])) + mset (v ! i) = mset (concat v)"
  using mset_concat_update [of i v "[]"] by simp

lemma cascade_level:
  assumes placed: "wheel_placed c2 c3 c4 c5 (s\<lparr>tbase := put ((get (tbase s))[i := []]) (tbase s)\<rparr>)"
    and c: "c2 \<le> 1" "c3 \<le> 1" "c4 \<le> 1" "c5 \<le> 1"
    and put: "\<And>w. wheel_timers (put w (tbase s)) + mset (concat (get (tbase s))) = wheel_timers (tbase s) + mset (concat w)"
      "\<And>w. timer_jiffies (put w (tbase s)) = timer_jiffies (tbase s)"
    and i: "i < length (get (tbase s))"
  shows "wheel_placed c2 c3 c4 c5 (cascade get put i s) \<and> same_timers s (cascade get put i s)"
  unfolding cascade_def
proof (rule readd_same_timers [OF placed c _ put(2)])
  let ?v = "(get (tbase s))[i := []]"
  have "wheel_timers (put ?v (tbase s)) + (mset (concat ?v) + mset (get (tbase s) ! i)) = wheel_timers (tbase s) + mset (concat ?v)"
    unfolding emptied_mset [OF i] by (rule put(1))
  then have "(wheel_timers (put ?v (tbase s)) + mset (get (tbase s) ! i)) + mset (concat ?v) = wheel_timers (tbase s) + mset (concat ?v)"
    by (simp only: ac_simps)
  then show "wheel_timers (put ?v (tbase s)) + mset (get (tbase s) ! i) = wheel_timers (tbase s)"
    by (simp only: add_right_cancel)
qed

lemmas level_simps = wheel_placed_def Let_def unat_index wheel_timers_def ac_simps

lemma cascade_tv2:
  assumes "wheel_placed 0 c3 c4 c5 s" "c3 \<le> 1" "c4 \<le> 1" "c5 \<le> 1"
  shows "wheel_placed 1 c3 c4 c5 (cascade tv2 (\<lambda>v. tv2_update (\<lambda>_. v)) (INDEX 0 s) s)
    \<and> same_timers s (cascade tv2 (\<lambda>v. tv2_update (\<lambda>_. v)) (INDEX 0 s) s)"
  by (rule cascade_level) (use assms wheel_lengths [OF assms(1)]
      vec_ok_emptied [of 8 "2 ^ 14" "timer_jiffies (tbase s)" "timers s" "tv2 (tbase s)" "INDEX 0 s"] in \<open>simp_all add: level_simps\<close>)

lemma cascade_tv3:
  assumes "wheel_placed 1 0 c4 c5 s" "c4 \<le> 1" "c5 \<le> 1"
  shows "wheel_placed 1 1 c4 c5 (cascade tv3 (\<lambda>v. tv3_update (\<lambda>_. v)) (INDEX 1 s) s)
    \<and> same_timers s (cascade tv3 (\<lambda>v. tv3_update (\<lambda>_. v)) (INDEX 1 s) s)"
  by (rule cascade_level) (use assms wheel_lengths [OF assms(1)]
      vec_ok_emptied [of 14 "2 ^ 20" "timer_jiffies (tbase s)" "timers s" "tv3 (tbase s)" "INDEX 1 s"] in \<open>simp_all add: level_simps\<close>)

lemma cascade_tv4:
  assumes "wheel_placed 1 1 0 c5 s" "c5 \<le> 1"
  shows "wheel_placed 1 1 1 c5 (cascade tv4 (\<lambda>v. tv4_update (\<lambda>_. v)) (INDEX 2 s) s)
    \<and> same_timers s (cascade tv4 (\<lambda>v. tv4_update (\<lambda>_. v)) (INDEX 2 s) s)"
  by (rule cascade_level) (use assms wheel_lengths [OF assms(1)]
      vec_ok_emptied [of 20 "2 ^ 26" "timer_jiffies (tbase s)" "timers s" "tv4 (tbase s)" "INDEX 2 s"] in \<open>simp_all add: level_simps\<close>)

lemma cascade_tv5:
  assumes "wheel_placed 1 1 1 0 s"
  shows "wheel_placed 1 1 1 1 (cascade tv5 (\<lambda>v. tv5_update (\<lambda>_. v)) (INDEX 3 s) s)
    \<and> same_timers s (cascade tv5 (\<lambda>v. tv5_update (\<lambda>_. v)) (INDEX 3 s) s)"
  by (rule cascade_level) (use assms wheel_lengths [OF assms]
      vec_ok_emptied [of 26 "2 ^ 31" "timer_jiffies (tbase s)" "timers s" "tv5 (tbase s)" "INDEX 3 s"] in \<open>simp_all add: level_simps\<close>)

text \<open>A vector that is not cascaded in this jiffy is not due.\<close>

lemma wheel_strict:
  "wheel_placed 0 c3 c4 c5 s \<Longrightarrow> unat (timer_jiffies (tbase s)) mod 2 ^ 8 \<noteq> 0 \<Longrightarrow> wheel_placed 1 c3 c4 c5 s"
  "wheel_placed c2 0 c4 c5 s \<Longrightarrow> unat (timer_jiffies (tbase s)) mod 2 ^ 14 \<noteq> 0 \<Longrightarrow> wheel_placed c2 1 c4 c5 s"
  "wheel_placed c2 c3 0 c5 s \<Longrightarrow> unat (timer_jiffies (tbase s)) mod 2 ^ 20 \<noteq> 0 \<Longrightarrow> wheel_placed c2 c3 1 c5 s"
  "wheel_placed c2 c3 c4 0 s \<Longrightarrow> unat (timer_jiffies (tbase s)) mod 2 ^ 26 \<noteq> 0 \<Longrightarrow> wheel_placed c2 c3 c4 1 s"
  using vec_ok_strict [of 8 "2 ^ 14" "timer_jiffies (tbase s)" "timers s" "tv2 (tbase s)"]
    vec_ok_strict [of 14 "2 ^ 20" "timer_jiffies (tbase s)" "timers s" "tv3 (tbase s)"]
    vec_ok_strict [of 20 "2 ^ 26" "timer_jiffies (tbase s)" "timers s" "tv4 (tbase s)"]
    vec_ok_strict [of 26 "2 ^ 31" "timer_jiffies (tbase s)" "timers s" "tv5 (tbase s)"]
  by (simp_all add: wheel_placed_def Let_def)

lemma mod_pow_dvd: "a mod 2 ^ n \<noteq> 0 \<Longrightarrow> n \<le> k \<Longrightarrow> a mod 2 ^ k \<noteq> (0 :: nat)"
  by (meson dvd_trans le_imp_power_dvd mod_eq_0_iff_dvd)

lemma mod_pow_slot: "a div 2 ^ n mod 64 \<noteq> 0 \<Longrightarrow> a mod 2 ^ (n + 6) \<noteq> (0 :: nat)"
  using mod_mult2_eq [of a "2 ^ n" 64] by (simp add: power_add)

lemma same_jiffies: "same_timers s s' \<Longrightarrow> timer_jiffies (tbase s') = timer_jiffies (tbase s)"
  by (simp add: same_timers_def)

lemma same_INDEX: "same_timers s s' \<Longrightarrow> INDEX n s' = INDEX n s"
  by (simp add: INDEX_def same_jiffies)

lemma cascade_timers_ok:
  assumes ok: "wheel_placed 0 0 0 0 s"
  shows "wheel_placed 1 1 1 1 (cascade_timers s) \<and> same_timers s (cascade_timers s)"
proof -
  let ?T = "unat (timer_jiffies (tbase s))"
  let ?s2 = "cascade tv2 (\<lambda>v. tv2_update (\<lambda>_. v)) (INDEX 0 s) s"
  let ?s3 = "cascade tv3 (\<lambda>v. tv3_update (\<lambda>_. v)) (INDEX 1 s) ?s2"
  let ?s4 = "cascade tv4 (\<lambda>v. tv4_update (\<lambda>_. v)) (INDEX 2 s) ?s3"
  let ?s5 = "cascade tv5 (\<lambda>v. tv5_update (\<lambda>_. v)) (INDEX 3 s) ?s4"
  have 2: "wheel_placed 1 0 0 0 ?s2" "same_timers s ?s2" using cascade_tv2 [OF ok] by simp_all
  have 3: "wheel_placed 1 1 0 0 ?s3" "same_timers s ?s3"
    using cascade_tv3 [OF 2(1), unfolded same_INDEX [OF 2(2)]] same_timers_trans [OF 2(2)] by auto
  have 4: "wheel_placed 1 1 1 0 ?s4" "same_timers s ?s4"
    using cascade_tv4 [OF 3(1), unfolded same_INDEX [OF 3(2)]] same_timers_trans [OF 3(2)] by auto
  have 5: "wheel_placed 1 1 1 1 ?s5" "same_timers s ?s5"
    using cascade_tv5 [OF 4(1), unfolded same_INDEX [OF 4(2)]] same_timers_trans [OF 4(2)] by auto
  consider (none) "?T mod 256 \<noteq> 0" | (one) "?T mod 256 = 0" "INDEX 0 s \<noteq> 0"
    | (two) "?T mod 256 = 0" "INDEX 0 s = 0" "INDEX 1 s \<noteq> 0"
    | (three) "?T mod 256 = 0" "INDEX 0 s = 0" "INDEX 1 s = 0" "INDEX 2 s \<noteq> 0"
    | (four) "?T mod 256 = 0" "INDEX 0 s = 0" "INDEX 1 s = 0" "INDEX 2 s = 0" by blast
  then show ?thesis
  proof cases
    case none
    then have nz: "?T mod 2 ^ k \<noteq> 0" if "8 \<le> k" for k using mod_pow_dvd [OF _ that] by simp
    have "wheel_placed 1 1 1 1 s" by (intro wheel_strict ok; rule nz; simp)
    then show ?thesis using none by (simp add: cascade_timers_def unat_and_TVR)
  next
    case one
    then have nz: "?T mod 2 ^ k \<noteq> 0" if "14 \<le> k" for k
      using mod_pow_dvd [OF _ that] mod_pow_slot [of ?T 8] by (simp add: unat_index)
    have "wheel_placed 1 1 1 1 ?s2" by (intro wheel_strict(2-4) 2(1); unfold same_jiffies [OF 2(2)]; rule nz; simp)
    then show ?thesis using one 2 by (simp add: cascade_timers_def unat_and_TVR)
  next
    case two
    then have nz: "?T mod 2 ^ k \<noteq> 0" if "20 \<le> k" for k
      using mod_pow_dvd [OF _ that] mod_pow_slot [of ?T 14] by (simp add: unat_index)
    have "wheel_placed 1 1 1 1 ?s3" by (intro wheel_strict(3-4) 3(1); unfold same_jiffies [OF 3(2)]; rule nz; simp)
    then show ?thesis using two 3 by (simp add: cascade_timers_def unat_and_TVR)
  next
    case three
    then have nz: "?T mod 2 ^ k \<noteq> 0" if "26 \<le> k" for k
      using mod_pow_dvd [OF _ that] mod_pow_slot [of ?T 20] by (simp add: unat_index)
    have "wheel_placed 1 1 1 1 ?s4" by (intro wheel_strict(4) 4(1); unfold same_jiffies [OF 4(2)]; rule nz; simp)
    then show ?thesis using three 4 by (simp add: cascade_timers_def unat_and_TVR)
  next
    case four
    then show ?thesis using 5 by (simp add: cascade_timers_def unat_and_TVR)
  qed
qed

section \<open>The wheel as a table of delays\<close>

text \<open>The jiffies until a timer in the wheel is due, none if it is late. A timer on the list of the softirq is not in the wheel.\<close>

definition delay :: "timer_sys \<Rightarrow> timer_id \<Rightarrow> nat option" where
  "delay s t = (if timer_linked (timers s t) \<and> t \<notin> set (work_list s)
     then Some (nat (sint (expires (timers s t) - timer_jiffies (tbase s)))) else None)"

lemma nat_sint: "nat (sint (w :: u32)) = (if unat w < 2 ^ 31 then unat w else 0)"
  using sint_small [of w] sint_neg_iff [of w] by auto

lemma unat_dec: "0 < unat (e - now) \<Longrightarrow> unat (e - (now + 1)) = unat (e - now) - 1" for e now :: u32
  by (metis diff_diff_add unat_minus_one unsigned_0 less_irrefl)

lemma placed_next: "placed 1 m lim now e i \<Longrightarrow> placed 0 m lim (now + 1) e i"
  by (auto simp: placed_def unat_dec)

lemma placed1_next:
  assumes "placed1 now e i" "i \<noteq> unat now mod 256"
  shows "placed1 (now + 1) e i"
proof -
  from assms have near: "unat (e - now) < 256" "i = unat e mod 256" by (auto simp: placed1_def)
  with assms(2) have "e \<noteq> now" by auto
  then have "0 < unat (e - now)" by (simp add: unat_gt_0)
  from unat_dec [OF this] near(1) have "unat (e - (now + 1)) < 256" by linarith
  with near(2) show ?thesis by (simp add: placed1_def)
qed

lemma placed1_due:
  assumes "placed1 now e (unat now mod 256)"
  shows "nat (sint (e - now)) = 0"
proof (cases "sint (e - now) < 0")
  case False
  with assms have near: "unat (e - now) < 256" "unat e mod 256 = unat now mod 256" by (auto simp: placed1_def)
  have "(unat (e - now) + unat now mod 256) mod 256 = (unat now + unat (e - now)) mod 256"
    by (simp add: mod_add_right_eq add.commute)
  also have "\<dots> = unat e mod 256" using unat_expires_mod [of 8 e now] by simp
  finally have "(unat (e - now) + unat now mod 256) mod 256 = unat now mod 256" by (simp only: near(2))
  then have "unat (e - now) = 0" by (rule mod_add_self) (simp_all add: near(1))
  then show ?thesis by (simp add: nat_sint)
qed simp

lemma vec_ok_member: "vec_ok P n tm v \<Longrightarrow> t \<in> set (concat v) \<Longrightarrow> \<exists>i < n. t \<in> set (v ! i) \<and> P (expires (tm t)) i"
  by (auto simp: vec_ok_def in_set_conv_nth) (metis in_set_conv_nth)

lemma vec_ok_nth: "vec_ok P n tm v \<Longrightarrow> i < n \<Longrightarrow> t \<in> set (v ! i) \<Longrightarrow> P (expires (tm t)) i"
  by (simp add: vec_ok_def)

lemma wheel_member:
  assumes ok: "wheel_placed 1 1 1 1 s" and mem: "t \<in># wheel_timers (tbase s)"
  defines "e \<equiv> expires (timers s t)" and "now \<equiv> timer_jiffies (tbase s)"
  shows "(\<exists>i < 256. t \<in> set (tv1 (tbase s) ! i) \<and> placed1 now e i) \<or> 1 \<le> unat (e - now) \<and> unat (e - now) < 2 ^ 31"
proof -
  have far: "vec_ok (placed 1 m lim now) 64 (timers s) v \<Longrightarrow> lim \<le> 2 ^ 31 \<Longrightarrow> t \<in> set (concat v) \<Longrightarrow>
      1 \<le> unat (e - now) \<and> unat (e - now) < 2 ^ 31" for m lim v
    using vec_ok_member [of "placed 1 m lim now" 64 "timers s" v t] by (force simp: placed_def e_def)
  from mem have "t \<in> set (concat (tv1 (tbase s))) \<or> t \<in> set (concat (tv2 (tbase s))) \<or> t \<in> set (concat (tv3 (tbase s)))
      \<or> t \<in> set (concat (tv4 (tbase s))) \<or> t \<in> set (concat (tv5 (tbase s)))" by (auto simp: wheel_timers_def)
  moreover note ok [unfolded wheel_placed_def Let_def, folded now_def]
  ultimately show ?thesis
    using far [of "2 ^ 8" "2 ^ 14" "tv2 (tbase s)"] far [of "2 ^ 14" "2 ^ 20" "tv3 (tbase s)"]
      far [of "2 ^ 20" "2 ^ 26" "tv4 (tbase s)"] far [of "2 ^ 26" "2 ^ 31" "tv5 (tbase s)"]
      vec_ok_member [of "placed1 now" 256 "timers s" "tv1 (tbase s)" t] unfolding e_def by fastforce
qed

lemma linked_member:
  assumes "linked_once s"
  shows "timer_linked (timers s t) \<and> t \<notin> set (work_list s) \<longleftrightarrow> t \<in># wheel_timers (tbase s)"
proof -
  define a b where "a = count (wheel_timers (tbase s)) t" and "b = count (mset (work_list s)) t"
  have "a + b = (if timer_linked (timers s t) then 1 else 0)" using assms by (simp add: linked_once_def a_def b_def)
  moreover have "t \<in> set (work_list s) \<longleftrightarrow> 0 < b" "t \<in># wheel_timers (tbase s) \<longleftrightarrow> 0 < a" by (simp_all add: a_def b_def)
  ultimately show ?thesis by (simp only:) (auto split: if_splits)
qed

lemma delay_member: "linked_once s \<Longrightarrow> delay s t =
    (if t \<in># wheel_timers (tbase s) then Some (nat (sint (expires (timers s t) - timer_jiffies (tbase s)))) else None)"
  using linked_member [of s t] by (simp add: delay_def)

lemma same_timers_linked:
  "same_timers s s' \<Longrightarrow> linked_once s \<Longrightarrow> timer_linked (timers s' t) = timer_linked (timers s t)"
  using linked_member [of s t] by (auto simp: same_timers_def)

lemma expire_slot_eq:
  "tbase (expire_slot s) = (tbase (cascade_timers s))\<lparr>timer_jiffies := timer_jiffies (tbase (cascade_timers s)) + 1,
     tv1 := (tv1 (tbase (cascade_timers s)))[unat (timer_jiffies (tbase s)) mod 256 := []]\<rparr>"
  "timers (expire_slot s) = timers (cascade_timers s)"
  "work_list (expire_slot s) = tv1 (tbase (cascade_timers s)) ! (unat (timer_jiffies (tbase s)) mod 256)"
  by (simp_all add: expire_slot_def Let_def unat_and_TVR)

lemma expire_slot_ok:
  assumes "wheel_ok s" "work_list s = []"
  shows "wheel_ok (expire_slot s)"
proof -
  let ?s = "cascade_timers s" and ?now = "timer_jiffies (tbase s)" and ?i = "unat (timer_jiffies (tbase s)) mod 256"
  have c: "wheel_placed 1 1 1 1 ?s" "same_timers s ?s" and once: "linked_once s"
    using assms(1) cascade_timers_ok [of s] by (auto simp: wheel_ok_def)
  note now = same_jiffies [OF c(2)]
  have "vec_ok (placed1 (?now + 1)) 256 (timers ?s) ((tv1 (tbase ?s))[?i := []])"
    using c(1) by (auto simp: wheel_placed_def Let_def now vec_ok_def nth_list_update intro: placed1_next)
  moreover have "vec_ok (placed 1 m lim ?now) 64 tm v \<Longrightarrow> vec_ok (placed 0 m lim (?now + 1)) 64 tm v" for m lim tm v
    by (erule vec_ok_mono) (rule placed_next)
  ultimately have "wheel_placed 0 0 0 0 (expire_slot s)"
    using c(1) unfolding wheel_placed_def by (simp add: expire_slot_eq Let_def now)
  moreover have "wheel_timers (tbase (expire_slot s)) + mset (work_list (expire_slot s)) = wheel_timers (tbase s)"
  proof -
    have "mset (concat (tv1 (tbase ?s))) = mset (concat ((tv1 (tbase ?s))[?i := []])) + mset (tv1 (tbase ?s) ! ?i)"
      using emptied_mset [of ?i "tv1 (tbase ?s)"] wheel_lengths(1) [OF c(1)] by simp
    then have "wheel_timers (tbase (expire_slot s)) + mset (work_list (expire_slot s)) = wheel_timers (tbase ?s)"
      by (simp add: expire_slot_eq wheel_timers_def ac_simps)
    then show ?thesis using c(2) by (simp add: same_timers_def)
  qed
  then have "linked_once (expire_slot s)"
    using once same_timers_linked [OF c(2) once] assms(2) by (simp add: linked_once_def expire_slot_eq(2))
  ultimately show ?thesis by (simp add: wheel_ok_def)
qed

lemma expire_slot_work:
  assumes "wheel_ok s" "work_list s = []"
  shows "t \<in> set (work_list (expire_slot s)) \<longleftrightarrow> delay s t = Some 0"
proof -
  let ?s = "cascade_timers s" and ?now = "timer_jiffies (tbase s)" and ?i = "unat (timer_jiffies (tbase s)) mod 256"
  have c: "wheel_placed 1 1 1 1 ?s" "same_timers s ?s" and once: "linked_once s"
    using assms(1) cascade_timers_ok [of s] by (auto simp: wheel_ok_def)
  have work: "work_list (expire_slot s) = tv1 (tbase ?s) ! ?i" by (rule expire_slot_eq(3))
  have e: "expires (timers ?s t) = expires (timers s t)" "timer_jiffies (tbase ?s) = ?now"
    and w: "wheel_timers (tbase ?s) = wheel_timers (tbase s)" using c(2) by (simp_all add: same_timers_def)
  show ?thesis
  proof
    assume t: "t \<in> set (work_list (expire_slot s))"
    have "vec_ok (placed1 ?now) 256 (timers ?s) (tv1 (tbase ?s))" using c(1) by (simp add: wheel_placed_def Let_def e)
    then have "placed1 ?now (expires (timers ?s t)) ?i" by (rule vec_ok_nth) (use t work in simp_all)
    then have "placed1 ?now (expires (timers s t)) ?i" by (simp only: e(1))
    moreover have "?i < length (tv1 (tbase ?s))" using wheel_lengths(1) [OF c(1)] by simp
    then have "t \<in># wheel_timers (tbase ?s)" using t nth_mem by (fastforce simp: wheel_timers_def work)
    ultimately show "delay s t = Some 0" using placed1_due by (simp add: delay_member [OF once] w)
  next
    assume d: "delay s t = Some 0"
    then have mem: "t \<in># wheel_timers (tbase ?s)" and zero: "nat (sint (expires (timers s t) - ?now)) = 0"
      by (auto simp: delay_member [OF once] w split: if_splits)
    from wheel_member [OF c(1) mem] zero obtain i where i: "t \<in> set (tv1 (tbase ?s) ! i)" "placed1 ?now (expires (timers s t)) i"
      by (auto simp: e nat_sint split: if_splits)
    from i(2) zero have "i = ?i" by (auto simp: placed1_def nat_sint unat_eq_zero split: if_splits)
    with i(1) show "t \<in> set (work_list (expire_slot s))" by (simp add: work)
  qed
qed

lemma expire_slot_delay:
  assumes "wheel_ok s" "work_list s = []"
  shows "delay (expire_slot s) t = (case delay s t of Some (Suc n) \<Rightarrow> Some n | _ \<Rightarrow> None)"
proof -
  let ?d = "expires (timers s t) - timer_jiffies (tbase s)"
  have c: "same_timers s (cascade_timers s)" and once: "linked_once s"
    using assms(1) cascade_timers_ok [of s] by (auto simp: wheel_ok_def)
  have "delay (expire_slot s) t = (if timer_linked (timers s t) \<and> delay s t \<noteq> Some 0
      then Some (nat (sint (expires (timers s t) - (timer_jiffies (tbase s) + 1)))) else None)"
    using c same_timers_linked [OF c once, of t] expire_slot_work [OF assms, of t]
    unfolding delay_def [of "expire_slot s"] by (simp add: expire_slot_eq(1,2) same_timers_def)
  moreover have "delay s t = (if timer_linked (timers s t) then Some (nat (sint ?d)) else None)"
    by (simp add: delay_def assms(2))
  moreover have "nat (sint (expires (timers s t) - (timer_jiffies (tbase s) + 1))) = n" if "nat (sint ?d) = Suc n" for n
  proof -
    from that have "unat ?d = Suc n" "Suc n < 2 ^ 31" by (auto simp: nat_sint split: if_splits)
    then show ?thesis by (simp add: nat_sint unat_dec)
  qed
  ultimately show ?thesis by (auto split: nat.splits)
qed

section \<open>Changing and deleting timers\<close>

lemma vec_ok_unlink:
  "vec_ok P n tm v \<Longrightarrow> (\<And>x. x \<noteq> t \<Longrightarrow> expires (tm' x) = expires (tm x)) \<Longrightarrow> vec_ok P n tm' (unlink t v)"
  by (auto simp: vec_ok_def unlink_def)

lemma count_unlink: "count (mset (concat (unlink t v))) x = (if x = t then 0 else count (mset (concat v)) x)"
  by (induction v) (auto simp: unlink_def removeAll_filter_not_eq)

lemma detach_timer_ok:
  assumes "wheel_placed 0 0 0 0 s"
  shows "wheel_placed 0 0 0 0 (detach_timer s t c)"
    "count (wheel_timers (tbase (detach_timer s t c)) + mset (work_list (detach_timer s t c))) x =
       (if x = t then 0 else count (wheel_timers (tbase s) + mset (work_list s)) x)"
    "timer_jiffies (tbase (detach_timer s t c)) = timer_jiffies (tbase s)"
    "timer_function (timers (detach_timer s t c) x) = timer_function (timers s x)"
    "x \<noteq> t \<Longrightarrow> timers (detach_timer s t c) x = timers s x"
  using assms
  by (auto simp: wheel_placed_def Let_def detach_timer_def wheel_timers_def count_unlink removeAll_filter_not_eq
      intro: vec_ok_unlink)

lemma detach_jiffies: "timer_jiffies (tbase (detach_timer s t c)) = timer_jiffies (tbase s)"
  by (simp add: detach_timer_def Let_def)

lemma next_simps [simp]:
  "wheel_placed c2 c3 c4 c5 (forget_next s t) = wheel_placed c2 c3 c4 c5 s"
  "wheel_timers (tbase (forget_next s t)) = wheel_timers (tbase s)"
  "timers (forget_next s t) = timers s" "timer_jiffies (tbase (forget_next s t)) = timer_jiffies (tbase s)"
  "wheel_placed c2 c3 c4 c5 (note_next s t) = wheel_placed c2 c3 c4 c5 s"
  "wheel_timers (tbase (note_next s t)) = wheel_timers (tbase s)"
  "timers (note_next s t) = timers s" "timer_jiffies (tbase (note_next s t)) = timer_jiffies (tbase s)"
  by (simp_all add: forget_next_def note_next_def wheel_placed_def wheel_timers_def Let_def)

text \<open>Starting a timer that is on no list.\<close>

lemma activate_timers:
  "timer_linked (timers (activate s t e) x) = (x = t \<or> timer_linked (timers s x))"
  "expires (timers (activate s t e) x) = (if x = t then e else expires (timers s x))"
  "timer_function (timers (activate s t e) x) = timer_function (timers s x)"
  "timer_jiffies (tbase (activate s t e)) = timer_jiffies (tbase s)"
  by (simp_all add: activate_def set_expires_def)

text \<open>A state in which every timer but \<open>t\<close> is on a list as it should be, and \<open>t\<close> is on none.\<close>

definition ok_without :: "timer_id \<Rightarrow> timer_sys \<Rightarrow> bool" where
  "ok_without t s \<longleftrightarrow> wheel_placed 0 0 0 0 s
     \<and> (\<forall>x. count (wheel_timers (tbase s) + mset (work_list s)) x = (if x \<noteq> t \<and> timer_linked (timers s x) then 1 else 0))"

lemma ok_without_detach: "wheel_ok s \<Longrightarrow> ok_without t (detach_timer s t c)"
  unfolding ok_without_def wheel_ok_def linked_once_def
  by (auto simp only: detach_timer_ok split: if_splits)

lemma ok_without_forget [simp]: "ok_without t (forget_next s x) = ok_without t s"
  by (simp add: ok_without_def)

lemma ok_without_idle: "wheel_ok s \<Longrightarrow> \<not> timer_pending s t \<Longrightarrow> ok_without t s"
  by (auto simp: ok_without_def wheel_ok_def linked_once_def timer_pending_def)

lemma absent_count:
  assumes "ok_without t s"
  shows "t \<notin># wheel_timers (tbase s)" "t \<notin> set (work_list s)"
proof -
  have "count (wheel_timers (tbase s)) t + count (mset (work_list s)) t = 0" using assms by (simp add: ok_without_def)
  then have "count (wheel_timers (tbase s)) t = 0" "count (mset (work_list s)) t = 0" by simp_all
  then show "t \<notin># wheel_timers (tbase s)" "t \<notin> set (work_list s)" by (simp_all add: count_eq_zero_iff)
qed

lemma vec_ok_absent: "vec_ok P n tm v \<Longrightarrow> t \<notin> set (concat v) \<Longrightarrow> vec_ok P n (tm(t := x)) v"
  by (simp add: vec_ok_def)

lemma activate_ok:
  assumes ok: "ok_without t s"
  shows "wheel_ok (activate s t e)"
proof -
  have "wheel_placed 0 0 0 0 (set_expires s t e)"
    using ok absent_count(1) [OF ok]
    by (simp add: ok_without_def wheel_placed_def Let_def set_expires_def wheel_timers_def vec_ok_absent)
  then have "wheel_placed 0 0 0 0 (note_next (set_expires s t e) t)" by simp
  from internal_add_timer_ok [OF this] have placed: "wheel_placed 0 0 0 0 (activate s t e)"
    and add: "wheel_timers (tbase (activate s t e)) = add_mset t (wheel_timers (tbase s))"
    by (simp_all add: activate_def set_expires_def)
  have "linked_once (activate s t e)"
    using ok by (auto simp: linked_once_def add activate_timers ok_without_def)
  with placed show ?thesis by (simp add: wheel_ok_def)
qed

lemma activate_delay:
  "t \<notin> set (work_list s) \<Longrightarrow> delay (activate s t e) = (delay s)(t \<mapsto> nat (sint (e - timer_jiffies (tbase s))))"
  by (auto simp: delay_def activate_timers)

lemma detach_delay: "delay (forget_next (detach_timer s t c) t) x = (if x = t then delay (detach_timer s t c) t else delay s x)"
  by (auto simp: delay_def detach_timer_def Let_def)

lemma mod_timer_internal_ok:
  assumes ok: "wheel_ok s" and "timer_function (timers s t)" "timer_pending s t \<or> \<not> pending_only"
  defines "s1 \<equiv> (if timer_pending s t then forget_next (detach_timer s t False) t else s)"
  shows "mod_timer_internal s t e pending_only = Some (timer_pending s t, activate s1 t e)"
    "wheel_ok (activate s1 t e)" "work_list (activate s1 t e) = removeAll t (work_list s)"
    "delay (activate s1 t e) = (delay s)(t \<mapsto> nat (sint (e - timer_jiffies (tbase s))))"
    "timer_jiffies (tbase (activate s1 t e)) = timer_jiffies (tbase s)"
    "timer_function (timers (activate s1 t e) x) = timer_function (timers s x)"
proof -
  have without: "ok_without t s1" using ok by (simp add: s1_def ok_without_detach ok_without_idle)
  have jiffies: "timer_jiffies (tbase s1) = timer_jiffies (tbase s)" by (simp add: s1_def detach_timer_def Let_def)
  show "mod_timer_internal s t e pending_only = Some (timer_pending s t, activate s1 t e)"
    using assms(2,3) by (auto simp: mod_timer_internal_def s1_def)
  show "wheel_ok (activate s1 t e)" using without by (rule activate_ok)
  show "work_list (activate s1 t e) = removeAll t (work_list s)"
    using absent_count(2) [OF without] by (auto simp: s1_def split: if_splits)
  show "delay (activate s1 t e) = (delay s)(t \<mapsto> nat (sint (e - timer_jiffies (tbase s))))"
    unfolding activate_delay [OF absent_count(2) [OF without]] jiffies by (auto simp: s1_def detach_delay)
  show "timer_jiffies (tbase (activate s1 t e)) = timer_jiffies (tbase s)" by (simp add: activate_timers jiffies)
  show "timer_function (timers (activate s1 t e) x) = timer_function (timers s x)"
    by (simp add: activate_timers s1_def detach_timer_def Let_def)
qed

lemma removeAll_absent: "t \<notin> set xs \<Longrightarrow> removeAll t xs = xs"
  by (induction xs) auto

lemma idle_work_list: "wheel_ok s \<Longrightarrow> \<not> timer_pending s t \<Longrightarrow> t \<notin> set (work_list s)"
  using absent_count(2) ok_without_idle by blast

lemma ok_without_unlinked: "ok_without t s \<Longrightarrow> \<not> timer_linked (timers s t) \<Longrightarrow> wheel_ok s"
  by (auto simp: ok_without_def wheel_ok_def linked_once_def)

lemma detach_clear_ok: "wheel_ok s \<Longrightarrow> wheel_ok (detach_timer s t True)"
  by (rule ok_without_unlinked [OF ok_without_detach]) (simp_all add: detach_timer_def Let_def)

lemma detach_clear_delay: "delay (detach_timer s t True) = (delay s)(t := None)"
  by (auto simp: delay_def detach_timer_def Let_def)

lemma forget_next_ok [simp]: "wheel_ok (forget_next s t) = wheel_ok s" "delay (forget_next s t) = delay s"
  by (simp_all add: wheel_ok_def linked_once_def delay_def fun_eq_iff)

lemma del_timer_ok:
  assumes "wheel_ok s"
  shows "wheel_ok (snd (del_timer s t))" "work_list (snd (del_timer s t)) = removeAll t (work_list s)"
    "delay (snd (del_timer s t)) = (delay s)(t := None)" "fst (del_timer s t) = timer_pending s t"
    "timer_jiffies (tbase (snd (del_timer s t))) = timer_jiffies (tbase s)"
    "timer_function (timers (snd (del_timer s t)) x) = timer_function (timers s x)"
  using assms idle_work_list [OF assms, of t]
  by (auto simp: del_timer_def detach_clear_ok detach_clear_delay removeAll_absent)
    (auto simp: delay_def timer_pending_def detach_timer_def Let_def fun_eq_iff split: if_splits)

section \<open>Deadlines\<close>

fun op_timer :: "timer_op \<Rightarrow> timer_id" where
  "op_timer (Mod t e) = t"
| "op_timer (ModPending t e) = t"
| "op_timer (Del t) = t"

text \<open>Any operation keeps the wheel in order and touches its own timer only.\<close>

definition op_keeps :: "timer_id \<Rightarrow> timer_sys \<Rightarrow> timer_sys \<Rightarrow> bool" where
  "op_keeps t s s' \<longleftrightarrow> timer_jiffies (tbase s') = timer_jiffies (tbase s)
     \<and> (\<forall>x. timer_function (timers s' x) = timer_function (timers s x))
     \<and> (\<forall>x. x \<noteq> t \<longrightarrow> delay s' x = delay s x \<and> (x \<in> set (work_list s') \<longleftrightarrow> x \<in> set (work_list s)))"

lemma mod_timer_internal_keeps:
  assumes "wheel_ok s" "mod_timer_internal s t e pending_only = Some (r, s')"
  shows "wheel_ok s' \<and> op_keeps t s s'"
proof (cases "timer_pending s t \<or> \<not> pending_only")
  case True
  moreover have "timer_function (timers s t)" using assms(2) by (auto simp: mod_timer_internal_def split: if_splits)
  ultimately show ?thesis using mod_timer_internal_ok [OF assms(1), of t pending_only e] assms(2)
    by (auto simp: op_keeps_def)
next
  case False
  then show ?thesis using assms by (auto simp: mod_timer_internal_def op_keeps_def split: if_splits)
qed

lemma run_op_ok:
  assumes "wheel_ok s" "run_op op s = Some s'"
  shows "wheel_ok s' \<and> op_keeps (op_timer op) s s'"
proof (cases op)
  case (Mod t e)
  then show ?thesis using assms mod_timer_internal_keeps [OF assms(1)]
    by (auto simp: mod_timer_def op_keeps_def split: if_splits)
next
  case (ModPending t e)
  then show ?thesis using assms mod_timer_internal_keeps [OF assms(1)] by (auto simp: mod_timer_pending_def)
next
  case (Del t)
  then show ?thesis using assms del_timer_ok [OF assms(1), of t] by (auto simp: op_keeps_def)
qed

text \<open>What the softirq and the rest of the system do, one critical section at a time.\<close>

datatype timer_event = Expire | Fire | Op timer_op

fun timer_step :: "timer_event \<Rightarrow> timer_sys \<Rightarrow> timer_sys option" where
  "timer_step Expire s = (if work_list s = [] then Some (expire_slot s) else None)"
| "timer_step Fire s = (case work_list s of [] \<Rightarrow> None | t # _ \<Rightarrow> Some (detach_timer s t True))"
| "timer_step (Op op) s = run_op op s"

text \<open>A sequence of events, with the timers that run.\<close>

fun exec_events :: "(timer_event \<Rightarrow> 's \<Rightarrow> 's option) \<Rightarrow> ('s \<Rightarrow> timer_id list) \<Rightarrow> timer_event list \<Rightarrow> 's \<Rightarrow> (timer_id list \<times> 's) option" where
  "exec_events step due [] s = Some ([], s)"
| "exec_events step due (ev # evs) s =
     Option.bind (step ev s) (\<lambda>s'.
       map_option (\<lambda>(fired, s''). ((if ev = Fire then [hd (due s)] else []) @ fired, s'')) (exec_events step due evs s'))"

abbreviation expiries :: "timer_event list \<Rightarrow> nat" where
  "expiries evs \<equiv> count_list evs Expire"

definition untouched :: "timer_id \<Rightarrow> timer_event list \<Rightarrow> bool" where
  "untouched t evs \<longleftrightarrow> (\<forall>op. Op op \<in> set evs \<longrightarrow> op_timer op \<noteq> t)"

locale deadline_service =
  fixes ok :: "'s \<Rightarrow> bool"
    and due_in :: "'s \<Rightarrow> timer_id \<Rightarrow> nat option"
    and due :: "'s \<Rightarrow> timer_id list"
    and step :: "timer_event \<Rightarrow> 's \<Rightarrow> 's option"
  assumes ok_step: "ok s \<Longrightarrow> step ev s = Some s' \<Longrightarrow> ok s'"
    and due_once: "ok s \<Longrightarrow> distinct (due s)"
    and due_running: "ok s \<Longrightarrow> t \<in> set (due s) \<Longrightarrow> due_in s t = None"
    and expire_step: "ok s \<Longrightarrow> step Expire s = Some s' \<Longrightarrow> due s = [] \<and> (t \<in> set (due s') \<longleftrightarrow> due_in s t = Some 0)
          \<and> due_in s' t = (case due_in s t of Some (Suc n) \<Rightarrow> Some n | _ \<Rightarrow> None)"
    and fire_step: "ok s \<Longrightarrow> step Fire s = Some s' \<Longrightarrow> due s \<noteq> [] \<and> due s' = tl (due s) \<and> due_in s' = due_in s"
    and op_step: "ok s \<Longrightarrow> step (Op op) s = Some s' \<Longrightarrow> t \<noteq> op_timer op \<Longrightarrow>
          due_in s' t = due_in s t \<and> (t \<in> set (due s') \<longleftrightarrow> t \<in> set (due s))"
begin

lemma exec_Cons:
  assumes "exec_events step due (ev # evs) s = Some (fired, s')"
  obtains s1 fired1 where "step ev s = Some s1" "exec_events step due evs s1 = Some (fired1, s')"
    "fired = (if ev = Fire then [hd (due s)] else []) @ fired1"
  using assms by (auto simp: bind_eq_Some_conv)

lemma untouched_Cons: "untouched t (ev # evs) \<longleftrightarrow> (\<forall>op. ev = Op op \<longrightarrow> op_timer op \<noteq> t) \<and> untouched t evs"
  by (auto simp: untouched_def)

text \<open>One event that does not touch a timer: when it becomes due, and whether it runs.\<close>

lemma event_cases:
  assumes "ok s" "step ev s = Some s1" "untouched t [ev]"
  shows "due_in s1 t = (if ev = Expire then (case due_in s t of Some (Suc n) \<Rightarrow> Some n | _ \<Rightarrow> None) else due_in s t)
    \<and> (t \<in> set (due s1) \<longleftrightarrow> (if ev = Expire then due_in s t = Some 0
         else if ev = Fire then t \<in> set (due s) \<and> hd (due s) \<noteq> t else t \<in> set (due s)))
    \<and> (ev = Expire \<longrightarrow> due s = []) \<and> (ev = Fire \<longrightarrow> hd (due s) \<in> set (due s))"
proof (cases ev)
  case Expire
  then show ?thesis using expire_step [of s s1 t] assms by simp
next
  case Fire
  then have f: "due s \<noteq> []" "due s1 = tl (due s)" "due_in s1 = due_in s" using fire_step [of s s1] assms by auto
  then obtain x xs where "due s = x # xs" by (cases "due s") auto
  with f due_once [OF assms(1)] Fire show ?thesis by auto
next
  case (Op op)
  then show ?thesis using op_step [of s op s1 t] assms by (auto simp: untouched_def)
qed

lemma idle:
  assumes "ok s" "exec_events step due evs s = Some (fired, s')" "untouched t evs" "due_in s t = None" "t \<notin> set (due s)"
  shows "t \<notin> set fired \<and> due_in s' t = None \<and> t \<notin> set (due s')"
  using assms
proof (induction evs arbitrary: s fired)
  case (Cons ev evs)
  from Cons.prems(2) obtain s1 fired1 where e: "step ev s = Some s1" "exec_events step due evs s1 = Some (fired1, s')"
    "fired = (if ev = Fire then [hd (due s)] else []) @ fired1" by (rule exec_Cons)
  have u: "untouched t [ev]" "untouched t evs" using Cons.prems(3) by (auto simp: untouched_def)
  note c = event_cases [OF Cons.prems(1) e(1) u(1)]
  have "t \<notin> set fired1 \<and> due_in s' t = None \<and> t \<notin> set (due s')"
    by (rule Cons.IH [OF ok_step [OF Cons.prems(1) e(1)] e(2) u(2)]) (use c Cons.prems(4,5) in \<open>auto split: if_splits\<close>)
  then show ?case using c Cons.prems(5) by (auto simp: e(3))
qed simp

lemma running:
  assumes "ok s" "exec_events step due evs s = Some (fired, s')" "untouched t evs" "t \<in> set (due s)"
  shows "count_list fired t + (if t \<in> set (due s') then 1 else 0) = 1 \<and> (0 < expiries evs \<longrightarrow> t \<notin> set (due s'))"
  using assms
proof (induction evs arbitrary: s fired)
  case (Cons ev evs)
  from Cons.prems(2) obtain s1 fired1 where e: "step ev s = Some s1" "exec_events step due evs s1 = Some (fired1, s')"
    "fired = (if ev = Fire then [hd (due s)] else []) @ fired1" by (rule exec_Cons)
  have u: "untouched t [ev]" "untouched t evs" using Cons.prems(3) by (auto simp: untouched_def)
  note c = event_cases [OF Cons.prems(1) e(1) u(1)] and ok = ok_step [OF Cons.prems(1) e(1)]
  have ev: "ev \<noteq> Expire" and none: "due_in s t = None" using c Cons.prems(4) due_running [OF Cons.prems(1)] by auto
  show ?case
  proof (cases "ev = Fire \<and> hd (due s) = t")
    case True
    then have "t \<notin> set fired1 \<and> due_in s' t = None \<and> t \<notin> set (due s')"
      by (intro idle [OF ok e(2) u(2)]) (use c none in auto)
    then show ?thesis using True by (simp add: e(3) count_list_0_iff)
  next
    case False
    then have "t \<in> set (due s1)" using c ev Cons.prems(4) by auto
    from Cons.IH [OF ok e(2) u(2) this] False ev show ?thesis by (auto simp: e(3))
  qed
qed simp

lemma on_time:
  assumes "ok s" "exec_events step due evs s = Some (fired, s')" "untouched t evs" "due_in s t = Some n"
  shows "if expiries evs \<le> n then t \<notin> set fired \<and> due_in s' t = Some (n - expiries evs)
    else count_list fired t + (if t \<in> set (due s') then 1 else 0) = 1 \<and> (n + 1 < expiries evs \<longrightarrow> t \<notin> set (due s'))"
  using assms
proof (induction evs arbitrary: s fired n)
  case (Cons ev evs)
  from Cons.prems(2) obtain s1 fired1 where e: "step ev s = Some s1" "exec_events step due evs s1 = Some (fired1, s')"
    "fired = (if ev = Fire then [hd (due s)] else []) @ fired1" by (rule exec_Cons)
  have u: "untouched t [ev]" "untouched t evs" using Cons.prems(3) by (auto simp: untouched_def)
  note c = event_cases [OF Cons.prems(1) e(1) u(1)] and ok = ok_step [OF Cons.prems(1) e(1)]
  have out: "t \<notin> set (due s)" using due_running [OF Cons.prems(1)] Cons.prems(4) by auto
  show ?case
  proof (cases "ev = Expire")
    case False
    then have "due_in s1 t = Some n" using c Cons.prems(4) by simp
    from Cons.IH [OF ok e(2) u(2) this] False c out show ?thesis by (auto simp: e(3) split: if_splits)
  next
    case expire: True
    show ?thesis
    proof (cases n)
      case 0
      then have "t \<in> set (due s1)" using c expire Cons.prems(4) by simp
      from running [OF ok e(2) u(2) this] expire 0 show ?thesis by (simp add: e(3))
    next
      case (Suc m)
      then have "due_in s1 t = Some m" using c expire Cons.prems(4) by simp
      from Cons.IH [OF ok e(2) u(2) this] expire Suc show ?thesis by (simp add: e(3))
    qed
  qed
qed simp

end

lemma work_list_distinct:
  assumes "wheel_ok s"
  shows "distinct (work_list s)"
  unfolding distinct_count_atmost_1
proof
  fix t
  have "count (wheel_timers (tbase s)) t + count (mset (work_list s)) t \<le> 1"
    using assms by (simp add: wheel_ok_def linked_once_def)
  moreover have "count (mset (work_list s)) t = 0 \<longleftrightarrow> t \<notin> set (work_list s)" by (simp add: count_eq_zero_iff)
  ultimately show "count (mset (work_list s)) t = (if t \<in> set (work_list s) then 1 else 0)"
    by (cases "count (mset (work_list s)) t") auto
qed

interpretation wheel: deadline_service wheel_ok delay work_list timer_step
proof
  fix s s' ev
  assume ok: "wheel_ok s" and st: "timer_step ev s = Some s'"
  then show "wheel_ok s'"
    by (cases ev) (auto simp: expire_slot_ok detach_clear_ok dest: run_op_ok split: if_splits list.splits)
next
  fix s assume "wheel_ok s" then show "distinct (work_list s)" by (rule work_list_distinct)
next
  fix s :: timer_sys and t assume "t \<in> set (work_list s)" then show "delay s t = None" by (simp add: delay_def)
next
  fix s s' t assume "wheel_ok s" "timer_step Expire s = Some s'"
  then show "work_list s = [] \<and> (t \<in> set (work_list s') \<longleftrightarrow> delay s t = Some 0)
      \<and> delay s' t = (case delay s t of Some (Suc n) \<Rightarrow> Some n | _ \<Rightarrow> None)"
    by (auto simp: expire_slot_work expire_slot_delay split: if_splits)
next
  fix s s' assume ok: "wheel_ok s" and "timer_step Fire s = Some s'"
  then obtain t ts where w: "work_list s = t # ts" "s' = detach_timer s t True" by (auto split: list.splits)
  moreover have "t \<notin> set ts" using work_list_distinct [OF ok] w(1) by simp
  ultimately show "work_list s \<noteq> [] \<and> work_list s' = tl (work_list s) \<and> delay s' = delay s"
    by (auto simp: detach_clear_delay removeAll_absent delay_def fun_eq_iff)
next
  fix s s' op t assume "wheel_ok s" "timer_step (Op op) s = Some s'" "t \<noteq> op_timer op"
  then show "delay s' t = delay s t \<and> (t \<in> set (work_list s') \<longleftrightarrow> t \<in> set (work_list s))"
    using run_op_ok [of s op s'] by (simp add: op_keeps_def)
qed

section \<open>The softirq returns\<close>

text \<open>Handlers that only use timers with a function.\<close>

definition handler_ok :: "timer_handler \<Rightarrow> bool" where
  "handler_ok handler \<longleftrightarrow> (\<forall>t s. \<forall>op \<in> set (handler t s). timer_function (timers s (op_timer op)))"

lemma run_op_defined: "timer_function (timers s (op_timer op)) \<Longrightarrow> run_op op s \<noteq> None"
  by (cases op) (auto simp: mod_timer_def mod_timer_pending_def mod_timer_internal_def)

lemma run_ops_ok:
  assumes "wheel_ok s" "\<forall>op \<in> set ops. timer_function (timers s (op_timer op))"
  shows "\<exists>s'. run_ops ops s = Some s' \<and> wheel_ok s' \<and> timer_jiffies (tbase s') = timer_jiffies (tbase s)"
  using assms
proof (induction ops arbitrary: s)
  case (Cons op ops)
  then obtain s1 where s1: "run_op op s = Some s1" using run_op_defined [of s op] by auto
  note k = run_op_ok [OF Cons.prems(1) s1]
  then have "\<forall>op \<in> set ops. timer_function (timers s1 (op_timer op))" using Cons.prems(2) by (simp add: op_keeps_def)
  from Cons.IH [OF _ this] k s1 show ?case by (auto simp: op_keeps_def)
qed simp

lemma run_work_ok:
  assumes "handler_ok handler" "wheel_ok s"
  shows "\<exists>fired s'. run_work handler s = Some (fired, s') \<and> wheel_ok s' \<and> work_list s' = []
    \<and> timer_jiffies (tbase s') = timer_jiffies (tbase s)"
  using assms
proof (induction handler s rule: run_work.induct)
  case (1 handler s)
  show ?case
  proof (cases "work_list s")
    case Nil
    then show ?thesis using "1.prems" by (subst run_work.simps) simp
  next
    case (Cons t ts)
    let ?s = "detach_timer s t True"
    have "wheel_ok ?s" using "1.prems"(2) by (rule detach_clear_ok)
    from run_ops_ok [OF this, of "handler t ?s"] "1.prems"(1) obtain s1 where s1: "fire handler t s = Some s1" "wheel_ok s1"
      "timer_jiffies (tbase s1) = timer_jiffies (tbase s)"
      by (auto simp: handler_ok_def fire_def detach_jiffies)
    from "1.IH" [OF Cons s1(1) "1.prems"(1) s1(2)] s1(1,3) Cons show ?thesis
      by (subst run_work.simps) auto
  qed
qed

lemma run_timers_ok:
  assumes "handler_ok handler" "wheel_ok s" "work_list s = []"
    and "\<not> time_after_eq (jiffies (i + j)) (timer_jiffies (tbase s) + of_nat j)"
  shows "\<exists>fired s' k. run_timers handler jiffies i s = Some (Some (fired, s')) \<and> wheel_ok s' \<and> work_list s' = []
    \<and> timer_jiffies (tbase s') = timer_jiffies (tbase s) + of_nat k
    \<and> \<not> time_after_eq (jiffies (i + k)) (timer_jiffies (tbase s'))
    \<and> (\<forall>l < k. time_after_eq (jiffies (i + l)) (timer_jiffies (tbase s) + of_nat l))"
  using assms(2-4)
proof (induction j arbitrary: i s)
  case 0
  then show ?case by (subst run_timers.simps) (auto intro!: exI [of _ 0])
next
  case (Suc j)
  let ?now = "timer_jiffies (tbase s)"
  show ?case
  proof (cases "time_after_eq (jiffies i) ?now")
    case False
    then show ?thesis using Suc.prems by (subst run_timers.simps) (auto intro!: exI [of _ 0])
  next
    case True
    have ok: "wheel_ok (expire_slot s)" using Suc.prems(1,2) by (rule expire_slot_ok)
    from cascade_timers_ok [of s] Suc.prems(1) have now: "timer_jiffies (tbase (expire_slot s)) = ?now + 1"
      by (simp add: wheel_ok_def expire_slot_eq(1) same_timers_def)
    from run_work_ok [OF assms(1) ok] obtain f1 s1 where s1: "run_work handler (expire_slot s) = Some (f1, s1)"
      "wheel_ok s1" "work_list s1 = []" "timer_jiffies (tbase s1) = ?now + 1" by (auto simp: now)
    have "\<not> time_after_eq (jiffies (Suc i + j)) (timer_jiffies (tbase s1) + of_nat j)"
      using Suc.prems(3) by (simp add: s1(4) ac_simps)
    from Suc.IH [OF s1(2,3) this] obtain f2 s2 k where s2: "run_timers handler jiffies (Suc i) s1 = Some (Some (f2, s2))"
      "wheel_ok s2" "work_list s2 = []" "timer_jiffies (tbase s2) = ?now + 1 + of_nat k"
      "\<not> time_after_eq (jiffies (Suc i + k)) (timer_jiffies (tbase s2))"
      "\<forall>l < k. time_after_eq (jiffies (Suc i + l)) (?now + 1 + of_nat l)" by (auto simp: s1(4))
    have "run_timers handler jiffies i s = Some (Some (f1 @ f2, s2))"
      using True s1(1) s2(1) by (subst run_timers.simps) simp
    moreover have "time_after_eq (jiffies (i + l)) (?now + of_nat l)" if "l < Suc k" for l
      using that True s2(6) by (cases l) (auto simp: ac_simps)
    ultimately show ?thesis using s2 by (intro exI [of _ "f1 @ f2"] exI [of _ s2] exI [of _ "Suc k"]) (auto simp: ac_simps)
  qed
qed

section \<open>Properties\<close>

text \<open>
  Timers with the same expiry do not run in the order in which they were started: timer 1 is started first, but timer 2,
  started a jiffy later for the same time, goes to the first vector at once, and timer 1 is appended when it is cascaded.
\<close>

definition example_sys :: "u32 \<Rightarrow> timer_sys" where
  "example_sys jiffies = \<lparr>tbase = init_timers_cpu jiffies,
     timers = (\<lambda>_. \<lparr>expires = 0, timer_linked = False, timer_deferrable = False, timer_function = True\<rparr>), work_list = []\<rparr>"

lemma timers_not_fifo:
  "case exec_events timer_step work_list [Op (Mod 1 511), Expire, Op (Mod 2 511), Expire] (example_sys 255) of
     Some (_, s) \<Rightarrow> tv1 (tbase s) ! 255 = [2, 1] | None \<Rightarrow> False"
  by code_simp

lemma example_sys_ok: "wheel_ok (example_sys jiffies)"
  by (simp add: wheel_ok_def wheel_placed_def linked_once_def wheel_timers_def vec_ok_def example_sys_def init_timers_cpu_def
      TVR_SIZE_def TVN_SIZE_def)

definition example_started :: timer_sys where
  "example_started = snd (the (mod_timer (example_sys 0xfffffffe) 1 1))"

lemma example_started_ok: "wheel_ok example_started"
proof -
  obtain s' where "run_op (Mod 1 1) (example_sys 0xfffffffe) = Some s'"
    using run_op_defined [of "example_sys 0xfffffffe" "Mod 1 1"] by (auto simp: example_sys_def)
  with run_op_ok [OF example_sys_ok this] show ?thesis by (auto simp: example_started_def)
qed

lemma example_started_delay: "delay example_started 1 = Some 3"
  by code_simp

lemma example_started_run:
  "map_option fst (exec_events timer_step work_list [Expire, Expire, Expire, Expire, Fire] example_started) = Some [1]"
  by code_simp

text \<open>
  C6. The wheel is a table of delays: changing a timer sets its delay to the jiffies left, 0 if it is late, deleting a
  timer removes it, and one round of the softirq takes exactly the timers with delay 0 and makes every other delay one
  less. All of it keeps the wheel well formed, through the cascades and around the end of the range of jiffies. A timer
  that is already on the list of the softirq and is set to the time it had runs in this round.
\<close>

theorem timer_wheel_refines:
  assumes "wheel_ok s"
  shows "(\<forall>t e. timer_function (timers s t) \<and> (t \<notin> set (work_list s) \<or> expires (timers s t) \<noteq> e) \<longrightarrow>
      (\<exists>s'. mod_timer s t e = Some (timer_pending s t, s') \<and> wheel_ok s' \<and> work_list s' = removeAll t (work_list s)
         \<and> delay s' = (delay s)(t \<mapsto> nat (sint (e - timer_jiffies (tbase s))))))
    \<and> (\<forall>t. fst (del_timer s t) = timer_pending s t \<and> wheel_ok (snd (del_timer s t))
         \<and> work_list (snd (del_timer s t)) = removeAll t (work_list s) \<and> delay (snd (del_timer s t)) = (delay s)(t := None))
    \<and> (work_list s = [] \<longrightarrow> wheel_ok (expire_slot s) \<and> distinct (work_list (expire_slot s))
         \<and> set (work_list (expire_slot s)) = {t. delay s t = Some 0}
         \<and> delay (expire_slot s) = (\<lambda>t. case delay s t of Some (Suc n) \<Rightarrow> Some n | _ \<Rightarrow> None))"
proof (intro conjI allI impI)
  fix t e assume a: "timer_function (timers s t) \<and> (t \<notin> set (work_list s) \<or> expires (timers s t) \<noteq> e)"
  show "\<exists>s'. mod_timer s t e = Some (timer_pending s t, s') \<and> wheel_ok s' \<and> work_list s' = removeAll t (work_list s)
      \<and> delay s' = (delay s)(t \<mapsto> nat (sint (e - timer_jiffies (tbase s))))"
  proof (cases "timer_pending s t \<and> expires (timers s t) = e")
    case True
    with a assms show ?thesis by (auto simp: mod_timer_def delay_def timer_pending_def removeAll_absent fun_eq_iff)
  next
    case False
    then have "mod_timer s t e = mod_timer_internal s t e False" by (auto simp: mod_timer_def)
    with mod_timer_internal_ok [OF assms, of t False e] a show ?thesis by auto
  qed
qed (use assms del_timer_ok expire_slot_ok expire_slot_work expire_slot_delay work_list_distinct in auto)

theorem timer_wheel_refines_witness:
  "\<exists>s'. mod_timer (example_sys 0xfffffffe) 1 1 = Some (False, s') \<and> delay s' 1 = Some 3"
proof -
  have "delay (example_sys 0xfffffffe) = (\<lambda>_. None)" by (simp add: delay_def example_sys_def fun_eq_iff)
  with timer_wheel_refines [OF example_sys_ok, of "0xfffffffe"] show ?thesis
    by (fastforce simp: example_sys_def timer_pending_def init_timers_cpu_def)
qed

text \<open>
  C9. Timers run on time: consider any interleaving of the rounds of the softirq, the calls of handlers, and operations
  on other timers. A timer that is due in \<open>n\<close> jiffies does not run before \<open>n + 1\<close> rounds have begun, has run or is on the
  list of the softirq after that, and has run once when the next round begins.
\<close>

theorem timers_fire_on_time:
  assumes "wheel_ok s" "exec_events timer_step work_list evs s = Some (fired, s')" "untouched t evs" "delay s t = Some n"
  shows "if expiries evs \<le> n then t \<notin> set fired \<and> delay s' t = Some (n - expiries evs)
    else count_list fired t + (if t \<in> set (work_list s') then 1 else 0) = 1 \<and> (n + 1 < expiries evs \<longrightarrow> t \<notin> set (work_list s'))"
  using assms by (rule wheel.on_time)

theorem timers_fire_on_time_witness:
  "\<exists>s'. exec_events timer_step work_list [Expire, Expire, Expire, Expire, Fire] example_started = Some ([1], s')
     \<and> 1 \<notin> set (work_list s')"
proof -
  obtain s' where s': "exec_events timer_step work_list [Expire, Expire, Expire, Expire, Fire] example_started = Some ([1], s')"
    using example_started_run by auto
  have "untouched 1 [Expire, Expire, Expire, Expire, Fire]" by (simp add: untouched_def)
  from timers_fire_on_time [OF example_started_ok s' this example_started_delay] s' show ?thesis by (auto split: if_splits)
qed

text \<open>
  C20. The softirq ends: for all handlers, which may change, delete and restart timers including their own, the inner loop
  ends because nothing is added to the list it works on. \<^verbatim>\<open>__run_timers\<close> returns at the first test at which jiffies is behind
  the wheel, if there is one, with the wheel well formed and one jiffy per round further.
\<close>

theorem run_timers_returns:
  assumes "handler_ok handler" "wheel_ok s" "work_list s = []"
    and "\<exists>j. \<not> time_after_eq (jiffies j) (timer_jiffies (tbase s) + of_nat j)"
  shows "\<exists>fired s' k. run_timers handler jiffies 0 s = Some (Some (fired, s')) \<and> wheel_ok s' \<and> work_list s' = []
    \<and> timer_jiffies (tbase s') = timer_jiffies (tbase s) + of_nat k \<and> \<not> time_after_eq (jiffies k) (timer_jiffies (tbase s'))
    \<and> (\<forall>l < k. time_after_eq (jiffies l) (timer_jiffies (tbase s) + of_nat l))"
proof -
  from assms(4) obtain j where "\<not> time_after_eq (jiffies (0 + j)) (timer_jiffies (tbase s) + of_nat j)" by auto
  from run_timers_ok [OF assms(1-3), of jiffies 0 j] this show ?thesis by simp
qed

text \<open>A handler that starts its timer again.\<close>

definition example_handler :: timer_handler where
  "example_handler t s = (if timer_function (timers s t) then [Mod t (timer_jiffies (tbase s))] else [])"

theorem run_timers_returns_witness:
  "\<exists>fired s' k. run_timers example_handler (\<lambda>_. 1) 0 example_started = Some (Some (fired, s')) \<and> work_list s' = []
     \<and> timer_jiffies (tbase s') = 0xfffffffe + of_nat k"
proof -
  have h: "handler_ok example_handler" by (simp add: handler_ok_def example_handler_def)
  have w: "work_list example_started = []" and j: "timer_jiffies (tbase example_started) = 0xfffffffe"
    and e: "\<not> time_after_eq 1 (timer_jiffies (tbase example_started) + of_nat 4)" by code_simp+
  from e have "\<exists>j. \<not> time_after_eq 1 (timer_jiffies (tbase example_started) + of_nat j)" by blast
  from run_timers_returns [OF h example_started_ok w, of "\<lambda>_. 1", OF this] j show ?thesis by auto
qed

end
