(* ===== verification/Spec2Isabelle.thy ===== *)
theory Spec2Isabelle
  imports Kfifo Semaphore Rwsem Skbuff Nlattr Socket_Filter Crc Strtox Vsprintf_Num Vsprintf Wmt_Env Wmt_Env_Flash Wmt_Env_Nand
    Supp_Groups Posix_Acl Timer_Wheel
begin

text \<open>
  The Linux kernel of the APC 8750 (2.6.32 for the WonderMedia WM8650, under \<^verbatim>\<open>src/kernel\<close>; the boot loader
  is under \<^verbatim>\<open>src/u-boot\<close>), as far as it is verified here. The build is that of
  \<^verbatim>\<open>arch/arm/configs/Android_defconfig\<close>: one 32-bit little-endian ARM core, \<^verbatim>\<open>char\<close> unsigned, no security
  module. The development takes the parts of the kernel that are algorithms over memory and leaves the parts
  that are hardware.

  \<^bold>\<open>The parts and their theories.\<close>

  \<^item> \<^verbatim>\<open>Kernel_Prelude\<close>: C integers as words, error numbers, reads and writes of byte buffers with \<open>None\<close> for an
    access outside, reachability, and the locale \<open>invariant_system\<close> (an invariant that starts true and is kept
    holds in every reachable state). All the step relations interpret it.
  \<^item> \<^verbatim>\<open>Kfifo\<close>: \<^verbatim>\<open>kernel/kfifo.c\<close>. The record \<open>kfifo\<close> is the struct, its indices are \<^verbatim>\<open>unsigned int\<close> that wrap.
    Operations refine a bounded byte queue, the locale \<open>byte_queue\<close>. A second step relation cuts put and get at
    their memory barriers, for one reader and one writer without a lock.
  \<^item> \<^verbatim>\<open>Semaphore\<close>, \<^verbatim>\<open>Rwsem\<close>: \<^verbatim>\<open>kernel/semaphore.c\<close> and \<^verbatim>\<open>lib/rwsem-spinlock.c\<close>. What happens under the spinlock is one
    step, and a task is cut where it sleeps, so that all tasks interleave there. Counts, mutual exclusion, wake-ups
    and queue order are invariants of the reachable states.
  \<^item> \<^verbatim>\<open>Skbuff\<close>: the packet buffers of \<^verbatim>\<open>net/core/skbuff.c\<close>, with linear part, page fragments and a list of further
    buffers. \<open>skb_bytes\<close> is the packet as one sequence, which reading and trimming are compared with.
  \<^item> \<^verbatim>\<open>Nlattr\<close>: \<^verbatim>\<open>lib/nlattr.c\<close> and the inline functions of \<^verbatim>\<open>include/net/netlink.h\<close>, over byte memory and on \<^verbatim>\<open>Skbuff\<close>.
  \<^item> \<^verbatim>\<open>Socket_Filter\<close>: \<^verbatim>\<open>net/core/filter.c\<close> with the accounting of \<^verbatim>\<open>net/core/sock.c\<close>. It runs on \<^verbatim>\<open>Skbuff\<close> and calls
    \<^verbatim>\<open>Nlattr\<close>. The checker is proved sound for the machine up to four bad
    accesses that instructions with negative offsets can make, and sockets only ever hold checked programs.
  \<^item> \<^verbatim>\<open>Crc\<close>: the CRCs of \<^verbatim>\<open>lib/\<close> and of the boot environment, tables included. The locales \<open>lsb_table\<close> and \<open>msb_table\<close> say
    when a table is that of a polynomial; each table of the source interprets one of them.
  \<^item> \<^verbatim>\<open>Strtox\<close>: \<^verbatim>\<open>lib/ctype.c\<close>, the conversions of \<^verbatim>\<open>lib/vsprintf.c\<close> from strings to numbers, and \<^verbatim>\<open>lib/cmdline.c\<close>.
  \<^item> \<^verbatim>\<open>Vsprintf_Num\<close>, \<^verbatim>\<open>Vsprintf\<close>: the printing half of \<^verbatim>\<open>lib/vsprintf.c\<close>. The text of a format is a function of its own,
    and \<open>vsnprintf\<close> is proved to store the prefix of it that fits. Widths, precisions and lengths are C ints and the
    position in the buffer is a 32-bit pointer; where they wrap around, the theorems say so.
  \<^item> \<^verbatim>\<open>Wmt_Env\<close>, \<^verbatim>\<open>Wmt_Env_Flash\<close>, \<^verbatim>\<open>Wmt_Env_Nand\<close>: \<^verbatim>\<open>drivers/mtd/wmt_env.c\<close>, the parameters shared with the boot loader.
    The first holds the text in memory, which implements the locale \<open>param_store\<close>, the second the two copies on serial
    or NOR flash with the entry points, the third the search for good blocks on NAND. Images carry a checksum of \<^verbatim>\<open>Crc\<close>.
  \<^item> \<^verbatim>\<open>Supp_Groups\<close>: \<^verbatim>\<open>kernel/groups.c\<close>, the blocked array of group ids with its sort and search.
  \<^item> \<^verbatim>\<open>Posix_Acl\<close>: \<^verbatim>\<open>fs/posix_acl.c\<close>, on the membership test of \<^verbatim>\<open>Supp_Groups\<close>. The lists that are accepted have a canonical
    shape (\<open>acl_parts\<close>), over which the access check and the conversions to and from modes are specified. The board
    configuration leaves this file out.
  \<^item> \<^verbatim>\<open>Timer_Wheel\<close>: \<^verbatim>\<open>kernel/timer.c\<close>. The five vectors implement a table of delays, and with it the locale \<open>deadline_service\<close>,
    in which it is proved that timers run on time whatever else happens between the critical sections.

  \<^bold>\<open>What is shown.\<close> For the concurrent parts: safety in every reachable state, no lost wake-up, service in queue order
  with a bound on who goes first.
  For the parsers and the filter: no access outside the given memory for any input, or exactly which access is left.
  For the printing and reading of numbers: the positional notation, both ways, and exactly which texts the strict conversions
  accept. For the environment: setting a parameter is the update of a list of entries on every branch, parameters survive a
  restart, and on serial or NOR flash with its driver loaded an update that fails at any flash operation leaves a copy the next
  start accepts; before the driver is loaded it may not (\<open>env_update_early_loses\<close>). Theorems of kind
  \<^emph>\<open>error\<close> state where the code departs from what it means to do, by a concrete run.

  \<^bold>\<open>Bounds and fuel.\<close> All loops are total functions with a termination proof, but for two. The filter machine
  takes fuel, since a program may jump backwards before it is checked; its length is proved to be enough once it is checked.
  The loop of the timer softirq is a partial function of the jiffies it reads, and is proved to return. Sizes are those of the source (\<^verbatim>\<open>NGROUPS_PER_BLOCK\<close>, \<^verbatim>\<open>BPF_MAXINSNS\<close>, \<^verbatim>\<open>ENV_MAX_SIZE\<close> and so on).

  \<^bold>\<open>Arguments.\<close> Whether memory can be allocated and what it holds, which flash operations fail, what user space holds,
  the clock and the symbol table are arguments of the definitions, so that theorems hold for all of them.
  A flash erase sets bytes to 0xff and a write clears bits only. Interrupts and preemption inside a spinlock do not occur.

  \<^bold>\<open>Not modelled.\<close> Device drivers and the code of the machine (\<^verbatim>\<open>drivers/\<close> but for the environment, \<^verbatim>\<open>arch/\<close>, \<^verbatim>\<open>sound/\<close>,
  \<^verbatim>\<open>virt/\<close>): their meaning is that of hardware the sources do not describe. The boot loader: a second code base, most of it
  drivers and commands; \<^verbatim>\<open>board/wmt/env.c\<close> writes the format that \<^verbatim>\<open>wmt_env.c\<close> reads, but is not translated. Memory
  management, scheduler, file systems but for the access control lists, block layer, IPC, cryptography, security modules and network protocols: they
  are software and could be modelled, but are beyond the extent of this development. \<^verbatim>\<open>lib/crc32.c\<close> works on a table that
  the build generates. Of \<^verbatim>\<open>lib/vsprintf.c\<close> the scanning half and the binary formats are missing, of \<^verbatim>\<open>skbuff.c\<close> allocation,
  cloning, checksums and segmentation. Scripts, tools, samples, firmware images and documentation are not part of the
  running program.
\<close>

end
